(* ===== verification/CPrelude.thy ===== *)
theory CPrelude
  imports Main "HOL-Library.Monad_Syntax"
begin

text \<open>
  Shared base of the development: the parts of C and of its standard library that the sources
  use. Undefined behaviour (a dereference of a pointer that is not allocated, an access outside an
  array, a read of an indeterminate value, a signed overflow) and a loop that does not return are
  the value \<open>None\<close> of an option; the theorems of the components therefore prove results of the form
  \<open>f x = Some y\<close>. Memory has an allocator that may fail and the set of the blocks that are allocated for structures and arrays whose
  contents are values of the model: releasing one that is not in the set is undefined.
\<close>

named_theorems cmem_simps \<open>equations that run the memory primitives\<close>

section \<open>Machine integers\<close>

abbreviation (input) INT_MAX :: int where "INT_MAX \<equiv> 2147483647"
abbreviation (input) INT_MIN :: int where "INT_MIN \<equiv> - 2147483648"

section \<open>Arrays\<close>

text \<open>A C array is a list of its declared length; an access outside it is undefined.\<close>

definition arr_get :: "'a list \<Rightarrow> nat \<Rightarrow> 'a option" where
  "arr_get xs i = (if i < length xs then Some (xs ! i) else None)"

definition arr_set :: "'a list \<Rightarrow> nat \<Rightarrow> 'a \<Rightarrow> 'a list option" where
  "arr_set xs i v = (if i < length xs then Some (xs[i := v]) else None)"

lemma arr_get_in [simp]: "i < length xs \<Longrightarrow> arr_get xs i = Some (xs ! i)"
  by (simp add: arr_get_def)

lemma arr_set_in [simp]: "i < length xs \<Longrightarrow> arr_set xs i v = Some (xs[i := v])"
  by (simp add: arr_set_def)

text \<open>
  A local array without an initialiser holds indeterminate values: its cells are options, and
  reading a cell that was not written is undefined.
\<close>

definition tmp_get :: "'a option list \<Rightarrow> nat \<Rightarrow> 'a option" where
  "tmp_get xs i = Option.bind (arr_get xs i) (\<lambda>c. c)"

definition ins_at :: "nat \<Rightarrow> 'a \<Rightarrow> 'a list \<Rightarrow> 'a list" where
  "ins_at i x xs = take i xs @ x # drop i xs"

section \<open>Allocation\<close>

type_synonym ptr = nat

abbreviation (input) NULL :: ptr where "NULL \<equiv> 0"

text \<open>
  The allocator hands out addresses that were never used before; whether the \<open>n\<close>-th request
  of the run succeeds is given by \<open>alloc_ok\<close>, so that every out-of-memory path of the code is a
  behaviour of the model. Objects that the code reaches only through one owner (the header of the tree, the structure
  of the table and its array of rows) are values of the model; \<open>blocks\<close> has the addresses of those that are
  allocated, so that freeing one twice is undefined and one that is never freed stays in the set.
\<close>

record alloc_mem =
  brk :: ptr
  alloc_ok :: "nat \<Rightarrow> bool"
  allocs :: nat
  blocks :: "ptr set"

definition alloc :: "'a alloc_mem_scheme \<Rightarrow> 'a alloc_mem_scheme \<times> ptr" where
  "alloc m = (if alloc_ok m (allocs m)
     then (m\<lparr>brk := Suc (brk m), allocs := Suc (allocs m)\<rparr>, brk m)
     else (m\<lparr>allocs := Suc (allocs m)\<rparr>, NULL))"

definition take_block :: "'a alloc_mem_scheme \<Rightarrow> ptr \<Rightarrow> 'a alloc_mem_scheme" where
  "take_block m p = m\<lparr>blocks := insert p (blocks m)\<rparr>"

definition drop_block :: "'a alloc_mem_scheme \<Rightarrow> ptr \<Rightarrow> 'a alloc_mem_scheme" where
  "drop_block m p = m\<lparr>blocks := blocks m - {p}\<rparr>"

definition free_block :: "'a alloc_mem_scheme \<Rightarrow> ptr \<Rightarrow> 'a alloc_mem_scheme option" where
  "free_block m p = (if p = NULL then Some m else if p \<in> blocks m then Some (drop_block m p) else None)"

lemma take_block_simps [simp]:
  "brk (take_block m p) = brk m" "alloc_ok (take_block m p) = alloc_ok m" "allocs (take_block m p) = allocs m"
  "blocks (take_block m p) = insert p (blocks m)"
  by (simp_all add: take_block_def)

lemma drop_block_simps [simp]:
  "brk (drop_block m p) = brk m" "alloc_ok (drop_block m p) = alloc_ok m" "allocs (drop_block m p) = allocs m"
  "blocks (drop_block m p) = blocks m - {p}"
  by (simp_all add: drop_block_def)

lemma free_block_NULL [simp]: "free_block m NULL = Some m"
  by (simp add: free_block_def)

lemma free_block_in: "p \<in> blocks m \<Longrightarrow> p \<noteq> NULL \<Longrightarrow> free_block m p = Some (drop_block m p)"
  by (simp add: free_block_def)

end
