(* ===== verification/BPTree.thy ===== *)
theory BPTree
  imports CPrelude
begin

text \<open>
  The B+ tree of \<^verbatim>\<open>src/core/bptree.c\<close>, on an explicit heap: nodes are reached through pointers,
  carry a pointer to their parent and, in leaves, to the next leaf, and are updated in place, in the
  order in which the code writes them. The header \<^verbatim>\<open>BPTree\<close> is a value with the pointer to the root; the address of its block is the field
  \<open>header\<close>, for its allocation and its release.
\<close>

section \<open>Data\<close>

abbreviation (input) BPTREE_ORDER :: nat where "BPTREE_ORDER \<equiv> 4"
abbreviation (input) BPTREE_MAX_KEYS :: nat where "BPTREE_MAX_KEYS \<equiv> 3"

record BPTreeNode =
  is_leaf :: bool
  num_keys :: nat
  keys :: "int list"
  vals :: "ptr list"
  children :: "ptr list"
  parent :: ptr
  next_leaf :: ptr

record BPTree =
  root :: ptr
  header :: ptr

record bpt_mem = alloc_mem +
  nodes :: "ptr \<Rightarrow> BPTreeNode option"

section \<open>Memory primitives for nodes\<close>

definition zero_node :: BPTreeNode where
  "zero_node = \<lparr>is_leaf = False, num_keys = 0, keys = replicate BPTREE_MAX_KEYS 0,
     vals = replicate BPTREE_MAX_KEYS NULL, children = replicate BPTREE_ORDER NULL,
     parent = NULL, next_leaf = NULL\<rparr>"

definition set_node :: "'a bpt_mem_scheme \<Rightarrow> ptr \<Rightarrow> BPTreeNode \<Rightarrow> 'a bpt_mem_scheme" where
  "set_node m p n = m\<lparr>nodes := (nodes m)(p \<mapsto> n)\<rparr>"

definition set_parent :: "'a bpt_mem_scheme \<Rightarrow> ptr \<Rightarrow> ptr \<Rightarrow> 'a bpt_mem_scheme option" where
  "set_parent m p q = do { n \<leftarrow> nodes m p; Some (set_node m p (n\<lparr>parent := q\<rparr>)) }"

definition free_node :: "'a bpt_mem_scheme \<Rightarrow> ptr \<Rightarrow> 'a bpt_mem_scheme option" where
  "free_node m p = do { _ \<leftarrow> nodes m p; Some (m\<lparr>nodes := (nodes m)(p := None)\<rparr>) }"

section \<open>Operations\<close>

definition bptree_create_node :: "'a bpt_mem_scheme \<Rightarrow> bool \<Rightarrow> 'a bpt_mem_scheme \<times> ptr" where
  "bptree_create_node m leaf =
     (let (m, node) = alloc m
      in if node = NULL then (m, NULL)
         else (set_node m node (zero_node\<lparr>is_leaf := leaf\<rparr>), node))"

function bptree_find_insert_index :: "int list \<Rightarrow> nat \<Rightarrow> int \<Rightarrow> nat \<Rightarrow> nat option" where
  "bptree_find_insert_index ks n key index =
     (if index < n then do {
        k \<leftarrow> arr_get ks index;
        if k < key then bptree_find_insert_index ks n key (Suc index) else Some index
      } else Some index)"
  by pat_completeness auto
termination by (relation "measure (\<lambda>(ks, n, key, index). n - index)") auto

function bptree_child_index :: "int list \<Rightarrow> nat \<Rightarrow> int \<Rightarrow> nat \<Rightarrow> nat option" where
  "bptree_child_index ks n key index =
     (if index < n then do {
        k \<leftarrow> arr_get ks index;
        if k \<le> key then bptree_child_index ks n key (Suc index) else Some index
      } else Some index)"
  by pat_completeness auto
termination by (relation "measure (\<lambda>(ks, n, key, index). n - index)") auto

declare bptree_find_insert_index.simps [simp del] bptree_child_index.simps [simp del]

partial_function (option) bptree_find_leaf_from ::
  "'a bpt_mem_scheme \<Rightarrow> ptr \<Rightarrow> int \<Rightarrow> ptr option" where
  "bptree_find_leaf_from m current key = do {
     n \<leftarrow> nodes m current;
     if is_leaf n then Some current
     else do {
       index \<leftarrow> bptree_child_index (keys n) (num_keys n) key 0;
       child \<leftarrow> arr_get (children n) index;
       bptree_find_leaf_from m child key
     }
   }"

definition bptree_find_leaf :: "'a bpt_mem_scheme \<Rightarrow> BPTree option \<Rightarrow> int \<Rightarrow> ptr option" where
  "bptree_find_leaf m tree key =
     (case tree of
        None \<Rightarrow> Some NULL
      | Some t \<Rightarrow> if root t = NULL then Some NULL else bptree_find_leaf_from m (root t) key)"

partial_function (option) bptree_destroy_node_from ::
  "'a bpt_mem_scheme \<Rightarrow> ptr \<Rightarrow> nat \<Rightarrow> 'a bpt_mem_scheme option" where
  "bptree_destroy_node_from m node index =
     (if node = NULL then Some m
      else do {
        n \<leftarrow> nodes m node;
        if \<not> is_leaf n \<and> index \<le> num_keys n then do {
          child \<leftarrow> arr_get (children n) index;
          m \<leftarrow> bptree_destroy_node_from m child 0;
          bptree_destroy_node_from m node (Suc index)
        } else free_node m node
      })"

fun bptree_leaf_shift :: "BPTreeNode \<Rightarrow> nat \<Rightarrow> nat \<Rightarrow> BPTreeNode option" where
  "bptree_leaf_shift leaf position 0 = Some leaf"
| "bptree_leaf_shift leaf position (Suc i) =
     (if Suc i > position then do {
        k \<leftarrow> arr_get (keys leaf) i;
        ks \<leftarrow> arr_set (keys leaf) (Suc i) k;
        v \<leftarrow> arr_get (vals leaf) i;
        vs \<leftarrow> arr_set (vals leaf) (Suc i) v;
        bptree_leaf_shift (leaf\<lparr>keys := ks, vals := vs\<rparr>) position i
      } else Some leaf)"

definition bptree_insert_into_leaf ::
  "'a bpt_mem_scheme \<Rightarrow> ptr \<Rightarrow> int \<Rightarrow> ptr \<Rightarrow> 'a bpt_mem_scheme option" where
  "bptree_insert_into_leaf m leaf key value = do {
     n \<leftarrow> nodes m leaf;
     position \<leftarrow> bptree_find_insert_index (keys n) (num_keys n) key 0;
     n \<leftarrow> bptree_leaf_shift n position (num_keys n);
     ks \<leftarrow> arr_set (keys n) position key;
     vs \<leftarrow> arr_set (vals n) position value;
     Some (set_node m leaf (n\<lparr>keys := ks, vals := vs, num_keys := Suc (num_keys n)\<rparr>))
   }"

definition bptree_create_new_root ::
  "'a bpt_mem_scheme \<Rightarrow> BPTree \<Rightarrow> ptr \<Rightarrow> int \<Rightarrow> ptr \<Rightarrow>
   ('a bpt_mem_scheme \<times> BPTree \<times> bool) option" where
  "bptree_create_new_root m tree left key right =
     (let (m, r) = bptree_create_node m False
      in if r = NULL then Some (m, tree, False)
         else do {
           n \<leftarrow> nodes m r;
           ks \<leftarrow> arr_set (keys n) 0 key;
           cs \<leftarrow> arr_set (children n) 0 left;
           cs \<leftarrow> arr_set cs 1 right;
           m \<leftarrow> Some (set_node m r (n\<lparr>keys := ks, children := cs, num_keys := 1\<rparr>));
           m \<leftarrow> set_parent m left r;
           m \<leftarrow> set_parent m right r;
           Some (m, tree\<lparr>root := r\<rparr>, True)
         })"

fun arr_shift :: "'b list \<Rightarrow> nat \<Rightarrow> nat \<Rightarrow> 'b list option" where
  "arr_shift xs position 0 = Some xs"
| "arr_shift xs position (Suc i) =
     (if Suc i > position then do {
        x \<leftarrow> arr_get xs i;
        xs \<leftarrow> arr_set xs (Suc i) x;
        arr_shift xs position i
      } else Some xs)"

definition bptree_insert_into_internal ::
  "'a bpt_mem_scheme \<Rightarrow> ptr \<Rightarrow> nat \<Rightarrow> int \<Rightarrow> ptr \<Rightarrow> 'a bpt_mem_scheme option" where
  "bptree_insert_into_internal m par insert_index key right_child = do {
     n \<leftarrow> nodes m par;
     ks \<leftarrow> arr_shift (keys n) insert_index (num_keys n);
     cs \<leftarrow> arr_shift (children n) (Suc insert_index) (Suc (num_keys n));
     ks \<leftarrow> arr_set ks insert_index key;
     cs \<leftarrow> arr_set cs (Suc insert_index) right_child;
     m \<leftarrow> Some (set_node m par (n\<lparr>keys := ks, children := cs\<rparr>));
     m \<leftarrow> set_parent m right_child par;
     n \<leftarrow> nodes m par;
     Some (set_node m par (n\<lparr>num_keys := Suc (num_keys n)\<rparr>))
   }"

function bptree_child_position :: "ptr list \<Rightarrow> nat \<Rightarrow> ptr \<Rightarrow> nat \<Rightarrow> nat option" where
  "bptree_child_position cs n left index =
     (if index \<le> n then do {
        c \<leftarrow> arr_get cs index;
        if c \<noteq> left then bptree_child_position cs n left (Suc index) else Some index
      } else Some index)"
  by pat_completeness auto
termination by (relation "measure (\<lambda>(cs, n, left, index). Suc n - index)") auto

declare bptree_child_position.simps [simp del]


function bptree_merge_leaf ::
  "BPTreeNode \<Rightarrow> int \<Rightarrow> ptr \<Rightarrow> nat \<Rightarrow> nat \<Rightarrow> int option list \<Rightarrow> ptr option list \<Rightarrow> nat \<Rightarrow>
   (int option list \<times> ptr option list \<times> nat) option" where
  "bptree_merge_leaf leaf key value insert_index index temp_keys temp_values temp_index =
     (if index < num_keys leaf then do {
        (temp_keys, temp_values, temp_index) \<leftarrow>
          (if temp_index = insert_index then do {
             temp_keys \<leftarrow> arr_set temp_keys temp_index (Some key);
             temp_values \<leftarrow> arr_set temp_values temp_index (Some value);
             Some (temp_keys, temp_values, Suc temp_index)
           } else Some (temp_keys, temp_values, temp_index));
        k \<leftarrow> arr_get (keys leaf) index;
        temp_keys \<leftarrow> arr_set temp_keys temp_index (Some k);
        v \<leftarrow> arr_get (vals leaf) index;
        temp_values \<leftarrow> arr_set temp_values temp_index (Some v);
        bptree_merge_leaf leaf key value insert_index (Suc index) temp_keys temp_values
          (Suc temp_index)
      } else Some (temp_keys, temp_values, temp_index))"
  by pat_completeness auto
termination
  by (relation "measure (\<lambda>(leaf, key, value, insert_index, index, tk, tv, ti). num_keys leaf - index)")
    auto

function bptree_fill_left_leaf ::
  "BPTreeNode \<Rightarrow> int option list \<Rightarrow> ptr option list \<Rightarrow> nat \<Rightarrow> nat \<Rightarrow> BPTreeNode option" where
  "bptree_fill_left_leaf leaf temp_keys temp_values index left_count =
     (if index < left_count then do {
        k \<leftarrow> tmp_get temp_keys index;
        ks \<leftarrow> arr_set (keys leaf) index k;
        v \<leftarrow> tmp_get temp_values index;
        vs \<leftarrow> arr_set (vals leaf) index v;
        bptree_fill_left_leaf (leaf\<lparr>keys := ks, vals := vs, num_keys := Suc (num_keys leaf)\<rparr>)
          temp_keys temp_values (Suc index) left_count
      } else Some leaf)"
  by pat_completeness auto
termination by (relation "measure (\<lambda>(leaf, tk, tv, index, n). n - index)") auto

function bptree_fill_right_leaf ::
  "BPTreeNode \<Rightarrow> int option list \<Rightarrow> ptr option list \<Rightarrow> nat \<Rightarrow> nat \<Rightarrow> BPTreeNode option" where
  "bptree_fill_right_leaf leaf temp_keys temp_values index count =
     (if index < count then do {
        k \<leftarrow> tmp_get temp_keys index;
        ks \<leftarrow> arr_set (keys leaf) (num_keys leaf) k;
        v \<leftarrow> tmp_get temp_values index;
        vs \<leftarrow> arr_set (vals leaf) (num_keys leaf) v;
        bptree_fill_right_leaf (leaf\<lparr>keys := ks, vals := vs, num_keys := Suc (num_keys leaf)\<rparr>)
          temp_keys temp_values (Suc index) count
      } else Some leaf)"
  by pat_completeness auto
termination by (relation "measure (\<lambda>(leaf, tk, tv, index, n). n - index)") auto

function tmp_copy :: "'b option list \<Rightarrow> 'b list \<Rightarrow> nat \<Rightarrow> nat \<Rightarrow> 'b option list option" where
  "tmp_copy tmp xs index n =
     (if index < n then do {
        x \<leftarrow> arr_get xs index;
        tmp \<leftarrow> arr_set tmp index (Some x);
        tmp_copy tmp xs (Suc index) n
      } else Some tmp)"
  by pat_completeness auto
termination by (relation "measure (\<lambda>(tmp, xs, index, n). n - index)") auto

fun tmp_shift :: "'b option list \<Rightarrow> nat \<Rightarrow> nat \<Rightarrow> 'b option list option" where
  "tmp_shift xs position 0 = Some xs"
| "tmp_shift xs position (Suc i) =
     (if Suc i > position then do {
        x \<leftarrow> tmp_get xs i;
        xs \<leftarrow> arr_set xs (Suc i) (Some x);
        tmp_shift xs position i
      } else Some xs)"

definition set_child_parent ::
  "'a bpt_mem_scheme \<Rightarrow> ptr \<Rightarrow> ptr \<Rightarrow> 'a bpt_mem_scheme option" where
  "set_child_parent m child par = (if child \<noteq> NULL then set_parent m child par else Some m)"

function bptree_fill_left_parent ::
  "'a bpt_mem_scheme \<Rightarrow> ptr \<Rightarrow> int option list \<Rightarrow> ptr option list \<Rightarrow> nat \<Rightarrow> nat \<Rightarrow>
   'a bpt_mem_scheme option" where
  "bptree_fill_left_parent m par temp_keys temp_children index promote_index =
     (if index < promote_index then do {
        n \<leftarrow> nodes m par;
        k \<leftarrow> tmp_get temp_keys index;
        ks \<leftarrow> arr_set (keys n) index k;
        c \<leftarrow> tmp_get temp_children index;
        cs \<leftarrow> arr_set (children n) index c;
        m \<leftarrow> set_child_parent (set_node m par (n\<lparr>keys := ks, children := cs\<rparr>)) c par;
        n \<leftarrow> nodes m par;
        bptree_fill_left_parent (set_node m par (n\<lparr>num_keys := Suc (num_keys n)\<rparr>)) par
          temp_keys temp_children (Suc index) promote_index
      } else Some m)"
  by pat_completeness auto
termination by (relation "measure (\<lambda>(m, par, tk, tc, index, n). n - index)") auto

function bptree_fill_right_parent ::
  "'a bpt_mem_scheme \<Rightarrow> ptr \<Rightarrow> int option list \<Rightarrow> ptr option list \<Rightarrow> nat \<Rightarrow> nat \<Rightarrow>
   'a bpt_mem_scheme option" where
  "bptree_fill_right_parent m rpar temp_keys temp_children index count =
     (if index < count then do {
        n \<leftarrow> nodes m rpar;
        k \<leftarrow> tmp_get temp_keys index;
        ks \<leftarrow> arr_set (keys n) (num_keys n) k;
        c \<leftarrow> tmp_get temp_children index;
        cs \<leftarrow> arr_set (children n) (num_keys n) c;
        m \<leftarrow> set_child_parent (set_node m rpar (n\<lparr>keys := ks, children := cs\<rparr>)) c rpar;
        n \<leftarrow> nodes m rpar;
        bptree_fill_right_parent (set_node m rpar (n\<lparr>num_keys := Suc (num_keys n)\<rparr>)) rpar
          temp_keys temp_children (Suc index) count
      } else Some m)"
  by pat_completeness auto
termination by (relation "measure (\<lambda>(m, par, tk, tc, index, n). n - index)") auto

declare bptree_merge_leaf.simps [simp del] bptree_fill_left_leaf.simps [simp del]
  bptree_fill_right_leaf.simps [simp del] tmp_copy.simps [simp del]
  bptree_fill_left_parent.simps [simp del] bptree_fill_right_parent.simps [simp del]

text \<open>
  The body of \<^verbatim>\<open>bptree_split_internal_and_insert\<close> up to its tail call: the temporary arrays with
  the new key and child, their distribution over the old and the new node, and the promoted key with
  the new right node, or nothing when the allocation failed.
\<close>

definition bptree_internal_temps ::
  "BPTreeNode \<Rightarrow> nat \<Rightarrow> int \<Rightarrow> ptr \<Rightarrow> (int option list \<times> ptr option list) option" where
  "bptree_internal_temps n insert_index key right_child = do {
     temp_keys \<leftarrow> tmp_copy (replicate BPTREE_ORDER None) (keys n) 0 (num_keys n);
     temp_children \<leftarrow> tmp_copy (replicate (BPTREE_ORDER + 1) None) (children n) 0 (Suc (num_keys n));
     temp_keys \<leftarrow> tmp_shift temp_keys insert_index (num_keys n);
     temp_keys \<leftarrow> arr_set temp_keys insert_index (Some key);
     temp_children \<leftarrow> tmp_shift temp_children (Suc insert_index) (Suc (num_keys n));
     temp_children \<leftarrow> arr_set temp_children (Suc insert_index) (Some right_child);
     Some (temp_keys, temp_children)
   }"

definition bptree_internal_distribute ::
  "'a bpt_mem_scheme \<Rightarrow> ptr \<Rightarrow> ptr \<Rightarrow> int option list \<Rightarrow> ptr option list \<Rightarrow>
   ('a bpt_mem_scheme \<times> int) option" where
  "bptree_internal_distribute m par right_parent temp_keys temp_children =
     (let promote_index = BPTREE_ORDER div 2
      in do {
           n \<leftarrow> nodes m par;
           m \<leftarrow> bptree_fill_left_parent (set_node m par (n\<lparr>num_keys := 0\<rparr>)) par
                 temp_keys temp_children 0 promote_index;
           n \<leftarrow> nodes m par;
           c \<leftarrow> tmp_get temp_children promote_index;
           cs \<leftarrow> arr_set (children n) promote_index c;
           m \<leftarrow> set_child_parent (set_node m par (n\<lparr>children := cs\<rparr>)) c par;
           promote_key \<leftarrow> tmp_get temp_keys promote_index;
           n \<leftarrow> nodes m par;
           rn \<leftarrow> nodes m right_parent;
           m \<leftarrow> bptree_fill_right_parent (set_node m right_parent (rn\<lparr>parent := parent n\<rparr>))
                 right_parent temp_keys temp_children (promote_index + 1) BPTREE_ORDER;
           rn \<leftarrow> nodes m right_parent;
           c \<leftarrow> tmp_get temp_children BPTREE_ORDER;
           cs \<leftarrow> arr_set (children rn) (num_keys rn) c;
           m \<leftarrow> set_child_parent (set_node m right_parent (rn\<lparr>children := cs\<rparr>)) c right_parent;
           Some (m, promote_key)
         })"

definition bptree_split_internal ::
  "'a bpt_mem_scheme \<Rightarrow> ptr \<Rightarrow> nat \<Rightarrow> int \<Rightarrow> ptr \<Rightarrow>
   ('a bpt_mem_scheme \<times> (int \<times> ptr) option) option" where
  "bptree_split_internal m par insert_index key right_child =
     (let (m, right_parent) = bptree_create_node m False
      in if right_parent = NULL then Some (m, None)
         else do {
           n \<leftarrow> nodes m par;
           (temp_keys, temp_children) \<leftarrow> bptree_internal_temps n insert_index key right_child;
           (m, promote_key) \<leftarrow>
             bptree_internal_distribute m par right_parent temp_keys temp_children;
           Some (m, Some (promote_key, right_parent))
         })"

partial_function (option) bptree_insert_into_parent ::
  "'a bpt_mem_scheme \<Rightarrow> BPTree \<Rightarrow> ptr \<Rightarrow> int \<Rightarrow> ptr \<Rightarrow>
   ('a bpt_mem_scheme \<times> BPTree \<times> bool) option" where
  "bptree_insert_into_parent m tree left key right = do {
     l \<leftarrow> nodes m left;
     (let par = parent l
      in if par = NULL then bptree_create_new_root m tree left key right
         else do {
           n \<leftarrow> nodes m par;
           insert_index \<leftarrow> bptree_child_position (children n) (num_keys n) left 0;
           if num_keys n < BPTREE_MAX_KEYS then do {
             m \<leftarrow> bptree_insert_into_internal m par insert_index key right;
             Some (m, tree, True)
           } else do {
             (m, r) \<leftarrow> bptree_split_internal m par insert_index key right;
             (case r of
                None \<Rightarrow> Some (m, tree, False)
              | Some (promote_key, right_parent) \<Rightarrow>
                  bptree_insert_into_parent m tree par promote_key right_parent)
           }
         })
   }"

definition bptree_split_internal_and_insert ::
  "'a bpt_mem_scheme \<Rightarrow> BPTree \<Rightarrow> ptr \<Rightarrow> nat \<Rightarrow> int \<Rightarrow> ptr \<Rightarrow>
   ('a bpt_mem_scheme \<times> BPTree \<times> bool) option" where
  "bptree_split_internal_and_insert m tree par insert_index key right_child = do {
     (m, r) \<leftarrow> bptree_split_internal m par insert_index key right_child;
     (case r of
        None \<Rightarrow> Some (m, tree, False)
      | Some (promote_key, right_parent) \<Rightarrow>
          bptree_insert_into_parent m tree par promote_key right_parent)
   }"

text \<open>
  \<^verbatim>\<open>bptree_split_leaf_and_insert\<close> in the same three steps: the temporary arrays, their distribution
  over the old and the new leaf with the link of the leaf chain, and the call that pushes the first
  key of the new leaf into the parent.
\<close>

definition bptree_leaf_temps ::
  "BPTreeNode \<Rightarrow> nat \<Rightarrow> int \<Rightarrow> ptr \<Rightarrow> (int option list \<times> ptr option list) option" where
  "bptree_leaf_temps n insert_index key value = do {
     (temp_keys, temp_values, temp_index) \<leftarrow>
       bptree_merge_leaf n key value insert_index 0
         (replicate BPTREE_ORDER None) (replicate BPTREE_ORDER None) 0;
     if temp_index = insert_index then do {
       temp_keys \<leftarrow> arr_set temp_keys temp_index (Some key);
       temp_values \<leftarrow> arr_set temp_values temp_index (Some value);
       Some (temp_keys, temp_values)
     } else Some (temp_keys, temp_values)
   }"

definition bptree_leaf_distribute ::
  "'a bpt_mem_scheme \<Rightarrow> ptr \<Rightarrow> ptr \<Rightarrow> int option list \<Rightarrow> ptr option list \<Rightarrow>
   'a bpt_mem_scheme option" where
  "bptree_leaf_distribute m leaf right_leaf temp_keys temp_values =
     (let left_count = BPTREE_ORDER div 2
      in do {
           n \<leftarrow> nodes m leaf;
           n \<leftarrow> bptree_fill_left_leaf (n\<lparr>num_keys := 0\<rparr>) temp_keys temp_values 0 left_count;
           m \<leftarrow> Some (set_node m leaf n);
           rn \<leftarrow> nodes m right_leaf;
           rn \<leftarrow> bptree_fill_right_leaf (rn\<lparr>parent := parent n\<rparr>) temp_keys temp_values
                 left_count BPTREE_ORDER;
           m \<leftarrow> Some (set_node m right_leaf (rn\<lparr>next_leaf := next_leaf n\<rparr>));
           n \<leftarrow> nodes m leaf;
           Some (set_node m leaf (n\<lparr>next_leaf := right_leaf\<rparr>))
         })"

definition bptree_split_leaf_and_insert ::
  "'a bpt_mem_scheme \<Rightarrow> BPTree \<Rightarrow> ptr \<Rightarrow> int \<Rightarrow> ptr \<Rightarrow>
   ('a bpt_mem_scheme \<times> BPTree \<times> bool) option" where
  "bptree_split_leaf_and_insert m tree leaf key value = do {
     n \<leftarrow> nodes m leaf;
     insert_index \<leftarrow> bptree_find_insert_index (keys n) (num_keys n) key 0;
     (let (m, right_leaf) = bptree_create_node m True
      in if right_leaf = NULL then Some (m, tree, False)
         else do {
           n \<leftarrow> nodes m leaf;
           (temp_keys, temp_values) \<leftarrow> bptree_leaf_temps n insert_index key value;
           m \<leftarrow> bptree_leaf_distribute m leaf right_leaf temp_keys temp_values;
           rn \<leftarrow> nodes m right_leaf;
           k \<leftarrow> arr_get (keys rn) 0;
           bptree_insert_into_parent m tree leaf k right_leaf
         })
   }"

text \<open>
  \<open>bptree_create\<close> allocates the header of the tree, whose address is its field \<open>header\<close>; \<open>None\<close> in the pair is the null
  pointer. \<open>bptree_destroy\<close> frees the nodes and then the header.
\<close>

definition bptree_create :: "'a bpt_mem_scheme \<Rightarrow> 'a bpt_mem_scheme \<times> BPTree option" where
  "bptree_create m =
     (let (m, p) = alloc m
      in if p = NULL then (m, None) else (take_block m p, Some \<lparr>root = NULL, header = p\<rparr>))"

definition bptree_destroy ::
  "'a bpt_mem_scheme \<Rightarrow> BPTree option \<Rightarrow> 'a bpt_mem_scheme option" where
  "bptree_destroy m tree =
     (case tree of
        None \<Rightarrow> Some m
      | Some t \<Rightarrow> do {
          m \<leftarrow> bptree_destroy_node_from m (root t) 0;
          free_block m (header t)
        })"

function bptree_leaf_has_key :: "int list \<Rightarrow> nat \<Rightarrow> int \<Rightarrow> nat \<Rightarrow> bool option" where
  "bptree_leaf_has_key ks n key index =
     (if index < n then do {
        k \<leftarrow> arr_get ks index;
        if k = key then Some True else bptree_leaf_has_key ks n key (Suc index)
      } else Some False)"
  by pat_completeness auto
termination by (relation "measure (\<lambda>(ks, n, key, index). n - index)") auto

definition bptree_insert ::
  "'a bpt_mem_scheme \<Rightarrow> BPTree option \<Rightarrow> int \<Rightarrow> ptr \<Rightarrow>
   ('a bpt_mem_scheme \<times> BPTree option \<times> bool) option" where
  "bptree_insert m tree key value =
     (case tree of
        None \<Rightarrow> Some (m, None, False)
      | Some t \<Rightarrow>
          if root t = NULL then
            (let (m, r) = bptree_create_node m True
             in if r = NULL then Some (m, Some (t\<lparr>root := NULL\<rparr>), False)
                else do {
                  n \<leftarrow> nodes m r;
                  ks \<leftarrow> arr_set (keys n) 0 key;
                  vs \<leftarrow> arr_set (vals n) 0 value;
                  Some (set_node m r (n\<lparr>keys := ks, vals := vs, num_keys := 1\<rparr>),
                        Some (t\<lparr>root := r\<rparr>), True)
                })
          else do {
            leaf \<leftarrow> bptree_find_leaf m tree key;
            n \<leftarrow> nodes m leaf;
            dup \<leftarrow> bptree_leaf_has_key (keys n) (num_keys n) key 0;
            if dup then Some (m, tree, False)
            else if num_keys n < BPTREE_MAX_KEYS then do {
              m \<leftarrow> bptree_insert_into_leaf m leaf key value;
              Some (m, tree, True)
            } else do {
              (m, t, ok) \<leftarrow> bptree_split_leaf_and_insert m t leaf key value;
              Some (m, Some t, ok)
            }
          })"

function bptree_leaf_value :: "BPTreeNode \<Rightarrow> int \<Rightarrow> nat \<Rightarrow> ptr option" where
  "bptree_leaf_value leaf key index =
     (if index < num_keys leaf then do {
        k \<leftarrow> arr_get (keys leaf) index;
        if k = key then arr_get (vals leaf) index
        else bptree_leaf_value leaf key (Suc index)
      } else Some NULL)"
  by pat_completeness auto
termination by (relation "measure (\<lambda>(leaf, key, index). num_keys leaf - index)") auto

definition bptree_search :: "'a bpt_mem_scheme \<Rightarrow> BPTree option \<Rightarrow> int \<Rightarrow> ptr option" where
  "bptree_search m tree key = do {
     leaf \<leftarrow> bptree_find_leaf m tree key;
     if leaf = NULL then Some NULL
     else do {
       n \<leftarrow> nodes m leaf;
       bptree_leaf_value n key 0
     }
   }"

declare bptree_leaf_has_key.simps [simp del] bptree_leaf_value.simps [simp del]

declare bptree_find_leaf_from.simps [code] bptree_destroy_node_from.simps [code]
  bptree_insert_into_parent.simps [code]

end
