(* ===== verification/BPTree_Abs.thy ===== *)
theory BPTree_Abs
  imports BPTree "HOL-Library.Multiset"
begin

section \<open>Addressed trees\<close>

datatype atree =
    Lf (addr: ptr) "(int \<times> ptr) list"
  | Nd (addr: ptr) "int list" "atree list"

fun addrs :: "atree \<Rightarrow> ptr list" where
  "addrs (Lf a kvs) = [a]"
| "addrs (Nd a ks ts) = a # concat (map addrs ts)"

fun leaves :: "atree \<Rightarrow> (ptr \<times> (int \<times> ptr) list) list" where
  "leaves (Lf a kvs) = [(a, kvs)]"
| "leaves (Nd a ks ts) = concat (map leaves ts)"

definition pairs :: "atree \<Rightarrow> (int \<times> ptr) list" where
  "pairs t = concat (map snd (leaves t))"

fun weave :: "'a list list \<Rightarrow> 'a list \<Rightarrow> 'a list" where
  "weave [] ks = []"
| "weave (x # xs) [] = x @ weave xs []"
| "weave (x # xs) (k # ks) = x @ k # weave xs ks"

definition wtail :: "'a list list \<Rightarrow> 'a list \<Rightarrow> 'a list" where
  "wtail xs ks = (case ks of [] \<Rightarrow> weave xs [] | k # ks' \<Rightarrow> k # weave xs ks')"

fun flat :: "atree \<Rightarrow> int list" where
  "flat (Lf a kvs) = map (\<lambda>(k, v). 2 * k + 1) kvs"
| "flat (Nd a ks ts) = weave (map flat ts) (map ((*) 2) ks)"

fun height :: "atree \<Rightarrow> nat" where
  "height (Lf a kvs) = 0"
| "height (Nd a ks ts) = (case ts of [] \<Rightarrow> 1 | t # _ \<Rightarrow> Suc (height t))"

fun bal :: "nat \<Rightarrow> atree \<Rightarrow> bool" where
  "bal n (Lf a kvs) = (n = 0)"
| "bal n (Nd a ks ts) = (case n of 0 \<Rightarrow> False | Suc n' \<Rightarrow> (\<forall>t \<in> set ts. bal n' t))"

fun filled :: "atree \<Rightarrow> bool" where
  "filled (Lf a kvs) = (2 \<le> length kvs \<and> length kvs \<le> 3)"
| "filled (Nd a ks ts) =
     (1 \<le> length ks \<and> length ks \<le> 3 \<and> length ts = Suc (length ks) \<and> (\<forall>t \<in> set ts. filled t))"

fun root_filled :: "atree \<Rightarrow> bool" where
  "root_filled (Lf a kvs) = (1 \<le> length kvs \<and> length kvs \<le> 3)"
| "root_filled (Nd a ks ts) = filled (Nd a ks ts)"

definition wf_tree :: "atree \<Rightarrow> bool" where
  "wf_tree t \<longleftrightarrow> root_filled t \<and> bal (height t) t \<and> sorted_wrt (<) (flat t)"

section \<open>Representation in the heap\<close>

definition leaf_node :: "BPTreeNode \<Rightarrow> ptr \<Rightarrow> (int \<times> ptr) list \<Rightarrow> bool" where
  "leaf_node n p kvs \<longleftrightarrow> is_leaf n \<and> parent n = p \<and> num_keys n = length kvs \<and>
     length (keys n) = 3 \<and> length (vals n) = 3 \<and> length (children n) = 4 \<and>
     take (length kvs) (keys n) = map fst kvs \<and> take (length kvs) (vals n) = map snd kvs"

definition int_node :: "BPTreeNode \<Rightarrow> ptr \<Rightarrow> int list \<Rightarrow> ptr list \<Rightarrow> bool" where
  "int_node n p ks cs \<longleftrightarrow> \<not> is_leaf n \<and> parent n = p \<and> num_keys n = length ks \<and>
     length (keys n) = 3 \<and> length (vals n) = 3 \<and> length (children n) = 4 \<and>
     take (length ks) (keys n) = ks \<and> take (Suc (length ks)) (children n) = cs"

fun rep :: "(ptr \<Rightarrow> BPTreeNode option) \<Rightarrow> ptr \<Rightarrow> atree \<Rightarrow> bool" where
  "rep h p (Lf a kvs) = (case h a of None \<Rightarrow> False | Some n \<Rightarrow> leaf_node n p kvs)"
| "rep h p (Nd a ks ts) =
     ((case h a of None \<Rightarrow> False | Some n \<Rightarrow> int_node n p ks (map addr ts)) \<and>
      (\<forall>t \<in> set ts. rep h a t))"

fun chain :: "(ptr \<Rightarrow> BPTreeNode option) \<Rightarrow> ptr list \<Rightarrow> ptr \<Rightarrow> bool" where
  "chain h [] z = True"
| "chain h (a # as) z = (map_option next_leaf (h a) = Some (hd (as @ [z])) \<and> chain h as z)"

definition tree_rep :: "'a bpt_mem_scheme \<Rightarrow> ptr \<Rightarrow> atree \<Rightarrow> bool" where
  "tree_rep m r t \<longleftrightarrow> r = addr t \<and> rep (nodes m) NULL t \<and> distinct (addrs t) \<and>
     (\<forall>a \<in> set (addrs t). NULL < a \<and> a < brk m) \<and> chain (nodes m) (map fst (leaves t)) NULL \<and>
     dom (nodes m) = set (addrs t)"

section \<open>Contexts\<close>

datatype frame = Fr ptr "int list" "atree list" "atree list"

fun hole_parent :: "frame list \<Rightarrow> ptr" where
  "hole_parent [] = NULL"
| "hole_parent (Fr a ks ls rs # fs) = a"

fun plug :: "frame list \<Rightarrow> atree \<Rightarrow> atree" where
  "plug [] t = t"
| "plug (Fr a ks ls rs # fs) t = plug fs (Nd a ks (ls @ t # rs))"

fun ctx_rep :: "(ptr \<Rightarrow> BPTreeNode option) \<Rightarrow> frame list \<Rightarrow> ptr \<Rightarrow> bool" where
  "ctx_rep h [] c = True"
| "ctx_rep h (Fr a ks ls rs # fs) c =
     ((case h a of None \<Rightarrow> False | Some n \<Rightarrow> int_node n (hole_parent fs) ks (map addr ls @ c # map addr rs)) \<and>
      (\<forall>t \<in> set ls \<union> set rs. rep h a t) \<and> ctx_rep h fs a)"

fun ctx_addrs :: "frame list \<Rightarrow> ptr list" where
  "ctx_addrs [] = []"
| "ctx_addrs (Fr a ks ls rs # fs) = a # concat (map addrs (ls @ rs)) @ ctx_addrs fs"

fun ctx_leaves_l :: "frame list \<Rightarrow> (ptr \<times> (int \<times> ptr) list) list" where
  "ctx_leaves_l [] = []"
| "ctx_leaves_l (Fr a ks ls rs # fs) = ctx_leaves_l fs @ concat (map leaves ls)"

fun ctx_leaves_r :: "frame list \<Rightarrow> (ptr \<times> (int \<times> ptr) list) list" where
  "ctx_leaves_r [] = []"
| "ctx_leaves_r (Fr a ks ls rs # fs) = concat (map leaves rs) @ ctx_leaves_r fs"

fun ctx_flat_l :: "frame list \<Rightarrow> int list" where
  "ctx_flat_l [] = []"
| "ctx_flat_l (Fr a ks ls rs # fs) =
     ctx_flat_l fs @ weave (map flat ls) (map ((*) 2) (take (length ls) ks))"

fun ctx_flat_r :: "frame list \<Rightarrow> int list" where
  "ctx_flat_r [] = []"
| "ctx_flat_r (Fr a ks ls rs # fs) =
     wtail (map flat rs) (map ((*) 2) (drop (length ls) ks)) @ ctx_flat_r fs"

fun ctx_filled :: "frame list \<Rightarrow> bool" where
  "ctx_filled [] = True"
| "ctx_filled (Fr a ks ls rs # fs) =
     (1 \<le> length ks \<and> length ks \<le> 3 \<and> length ls + length rs = length ks \<and>
      (\<forall>t \<in> set ls \<union> set rs. filled t) \<and> ctx_filled fs)"

fun ctx_bal :: "nat \<Rightarrow> frame list \<Rightarrow> bool" where
  "ctx_bal n [] = True"
| "ctx_bal n (Fr a ks ls rs # fs) =
     ((\<forall>t \<in> set ls \<union> set rs. bal n t) \<and> ctx_bal (Suc n) fs)"

section \<open>Weaving\<close>

lemma weave_append: "length xs = length ks \<Longrightarrow> weave (xs @ ys) (ks @ ls) = weave xs ks @ weave ys ls"
  by (induction xs ks rule: list_induct2) auto

lemma wtail_simps [simp]:
  "wtail xs [] = weave xs []"
  "wtail xs (k # ks) = k # weave xs ks"
  by (simp_all add: wtail_def)

lemma weave_Cons: "weave (x # xs) ks = x @ wtail xs ks"
  by (cases ks) auto

lemma weave_snoc: "length xs = Suc (length ks) \<Longrightarrow> weave xs (ks @ [k]) = weave xs ks @ [k]"
proof (induction ks arbitrary: xs)
  case Nil
  then show ?case by (cases xs) auto
next
  case (Cons k' ks)
  then show ?case by (cases xs) auto
qed

lemma weave_hole:
  assumes "length ls \<le> length ks"
  shows "weave (ls @ x # rs) ks = weave ls (take (length ls) ks) @ x @ wtail rs (drop (length ls) ks)"
proof -
  have "weave (ls @ x # rs) (take (length ls) ks @ drop (length ls) ks) =
    weave ls (take (length ls) ks) @ weave (x # rs) (drop (length ls) ks)"
    by (rule weave_append) (use assms in simp)
  then show ?thesis by (simp add: weave_Cons)
qed

lemma weave_ins:
  assumes "length ls \<le> length ks"
  shows "weave (ls @ x # y # rs) (ins_at (length ls) k ks) =
    weave ls (take (length ls) ks) @ x @ k # y @ wtail rs (drop (length ls) ks)"
proof -
  have "weave (ls @ x # y # rs) (take (length ls) ks @ k # drop (length ls) ks) =
    weave ls (take (length ls) ks) @ weave (x # y # rs) (k # drop (length ls) ks)"
    by (rule weave_append) (use assms in simp)
  then show ?thesis by (simp add: weave_Cons [of y] ins_at_def)
qed

lemma weave_split:
  assumes "length ks = 4" "length xs = 5"
  shows "weave xs ks = weave (take 3 xs) (take 2 ks) @ ks ! 2 # weave (drop 3 xs) (drop 3 ks)"
proof -
  have k3: "take 3 ks = take 2 ks @ [ks ! 2]"
    using assms take_Suc_conv_app_nth [of 2 ks] by (simp add: eval_nat_numeral)
  have "weave xs ks = weave (take 3 xs @ drop 3 xs) (take 3 ks @ drop 3 ks)" by simp
  also have "\<dots> = weave (take 3 xs) (take 3 ks) @ weave (drop 3 xs) (drop 3 ks)"
    by (rule weave_append) (use assms in simp)
  also have "weave (take 3 xs) (take 3 ks) = weave (take 3 xs) (take 2 ks) @ [ks ! 2]"
    unfolding k3 by (rule weave_snoc) (use assms in simp)
  finally show ?thesis by simp
qed

lemma set_weave:
  assumes "length xs = Suc (length ks)"
  shows "set (weave xs ks) = \<Union> (set ` set xs) \<union> set ks"
  using assms
proof (induction ks arbitrary: xs)
  case Nil
  then show ?case by (cases xs) auto
next
  case (Cons k ks)
  then show ?case by (cases xs) auto
qed

section \<open>Plugging\<close>

lemma leaves_plug: "leaves (plug fs t) = ctx_leaves_l fs @ leaves t @ ctx_leaves_r fs"
  by (induction fs t rule: plug.induct) auto

lemma flat_plug: "ctx_filled fs \<Longrightarrow> flat (plug fs t) = ctx_flat_l fs @ flat t @ ctx_flat_r fs"
  by (induction fs t rule: plug.induct) (auto simp: weave_hole take_map drop_map)

lemma mset_addrs_plug: "mset (addrs (plug fs t)) = mset (addrs t @ ctx_addrs fs)"
  by (induction fs t rule: plug.induct) auto

lemma set_addrs_plug: "set (addrs (plug fs t)) = set (addrs t) \<union> set (ctx_addrs fs)"
  using mset_addrs_plug [of fs t] by (metis set_append set_mset_mset)

lemma distinct_addrs_plug: "distinct (addrs (plug fs t)) = distinct (addrs t @ ctx_addrs fs)"
  using mset_addrs_plug [of fs t] by (rule mset_eq_imp_distinct_iff)

lemma filled_plug: "fs \<noteq> [] \<Longrightarrow> root_filled (plug fs t) = (filled t \<and> ctx_filled fs)"
proof (induction fs t rule: plug.induct)
  case (2 a ks ls rs fs t)
  show ?case
  proof (cases fs)
    case Nil
    then show ?thesis by auto
  next
    case (Cons f fs')
    with 2 show ?thesis by auto
  qed
qed simp

lemma rep_plug: "rep h NULL (plug fs t) = (rep h (hole_parent fs) t \<and> ctx_rep h fs (addr t))"
  by (induction fs t rule: plug.induct) (auto split: option.splits)


lemma bal_plug: "bal (n + length fs) (plug fs t) = (bal n t \<and> ctx_bal n fs)"
proof (induction fs t arbitrary: n rule: plug.induct)
  case (2 a ks ls rs fs t)
  from "2.IH" [of "Suc n"] show ?case by auto
qed simp

lemma filled_imp_root_filled: "filled t \<Longrightarrow> root_filled t"
  by (cases t) auto

lemma bal_height: "bal n t \<Longrightarrow> root_filled t \<Longrightarrow> height t = n"
proof (induction t arbitrary: n)
  case (Lf a kvs)
  then show ?case by simp
next
  case (Nd a ks ts)
  then obtain t ts' where ts: "ts = t # ts'" by (cases ts) auto
  with Nd.prems obtain n' where n: "n = Suc n'" and "bal n' t" "filled t" by (cases n) auto
  then have "height t = n'" using Nd.IH [of t n'] ts filled_imp_root_filled by simp
  with n ts show ?case by simp
qed

lemma wf_treeI: "root_filled t \<Longrightarrow> bal n t \<Longrightarrow> sorted_wrt (<) (flat t) \<Longrightarrow> wf_tree t"
  using bal_height wf_tree_def by metis

section \<open>Keys in order\<close>

lemma pairs_Lf [simp]: "pairs (Lf a kvs) = kvs"
  by (simp add: pairs_def)

lemma pairs_Nd: "pairs (Nd a ks ts) = concat (map pairs ts)"
  by (induction ts) (auto simp: pairs_def)

lemma odd_flat: "root_filled t \<Longrightarrow> filter odd (flat t) = map (\<lambda>(k, v). 2 * k + 1) (pairs t)"
proof (induction t)
  case (Lf a kvs)
  show ?case by (induction kvs) (auto simp: pairs_def)
next
  case (Nd a ks ts)
  have "length us = Suc (length ls) \<Longrightarrow> set us \<subseteq> set ts \<Longrightarrow>
    filter odd (weave (map flat us) (map ((*) 2) ls)) =
    map (\<lambda>(k, v). 2 * k + 1) (concat (map pairs us))" for us ls
  proof (induction ls arbitrary: us)
    case Nil
    then obtain u where "us = [u]" by (cases us) auto
    with Nil show ?case using Nd filled_imp_root_filled by auto
  next
    case (Cons l ls)
    then obtain u us' where us: "us = u # us'" by (cases us) auto
    with Cons.prems have "filter odd (flat u) = map (\<lambda>(k, v). 2 * k + 1) (pairs u)"
      using Nd filled_imp_root_filled by auto
    with us Cons show ?case by auto
  qed
  from this [of ts ks] Nd.prems show ?case
    by (simp add: pairs_Nd)
qed

lemma sorted_pairs:
  assumes "root_filled t" "sorted_wrt (<) (flat t)"
  shows "sorted_wrt (<) (map fst (pairs t))"
proof -
  have "sorted_wrt (<) (filter odd (flat t))" using assms(2) by (rule sorted_wrt_filter)
  then show ?thesis
    unfolding odd_flat [OF assms(1)] sorted_wrt_map
    by (rule sorted_wrt_mono_rel [rotated]) auto
qed

lemma key_in_flat:
  assumes "root_filled t"
  shows "2 * key + 1 \<in> set (flat t) \<longleftrightarrow> key \<in> fst ` set (pairs t)"
proof -
  have "2 * key + 1 \<in> set (flat t) \<longleftrightarrow> 2 * key + 1 \<in> set (filter odd (flat t))" by simp
  also have "\<dots> \<longleftrightarrow> key \<in> fst ` set (pairs t)"
    unfolding odd_flat [OF assms] by force
  finally show ?thesis .
qed

section \<open>The search path\<close>

definition child_ix :: "int \<Rightarrow> int list \<Rightarrow> nat" where
  "child_ix key ks = length (takeWhile (\<lambda>k. k \<le> key) ks)"

function path :: "int \<Rightarrow> frame list \<Rightarrow> atree \<Rightarrow> frame list \<times> atree" where
  "path key fs (Lf a kvs) = (fs, Lf a kvs)"
| "path key fs (Nd a ks ts) =
     (let i = child_ix key ks
      in if i < length ts then path key (Fr a ks (take i ts) (drop (Suc i) ts) # fs) (ts ! i)
         else (fs, Nd a ks ts))"
  by pat_completeness auto
termination
proof (relation "measure (\<lambda>(key, fs, t). size t)")
  fix key a i fs and ks :: "int list" and ts :: "atree list"
  assume "i < length ts"
  then have "size (ts ! i) < Suc (size_list size ts)"
    by (metis less_Suc_eq_le nth_mem order_refl size_list_estimation')
  then show "((key, Fr a ks (take i ts) (drop (Suc i) ts) # fs, ts ! i), key, fs, Nd a ks ts)
      \<in> measure (\<lambda>(key, fs, t). size t)"
    by simp
qed auto

lemma child_ix_le: "child_ix key ks \<le> length ks"
  by (simp add: child_ix_def length_takeWhile_le)

lemma child_ix_lower: "i < child_ix key ks \<Longrightarrow> ks ! i \<le> key"
  unfolding child_ix_def by (metis nth_mem set_takeWhileD takeWhile_nth)

lemma child_ix_upper: "child_ix key ks < length ks \<Longrightarrow> key < ks ! child_ix key ks"
  unfolding child_ix_def using nth_length_takeWhile [of "\<lambda>k. k \<le> key" ks] by auto

lemma plug_path: "path key fs t = (fs', l) \<Longrightarrow> plug fs' l = plug fs t"
  by (induction key fs t rule: path.induct)
    (auto simp: Let_def id_take_nth_drop [symmetric] split: if_splits)

lemma path_leaf:
  assumes "path key fs t = (fs', l)" "root_filled t" "ctx_filled fs"
  shows "ctx_filled fs' \<and> (\<exists>a kvs. l = Lf a kvs)"
  using assms
proof (induction key fs t rule: path.induct)
  case (2 key fs a ks ts)
  define i where "i = child_ix key ks"
  have i: "i < length ts" using child_ix_le [of key ks] "2.prems"(2) by (simp add: i_def)
  have "filled (ts ! i)" using i "2.prems"(2) by auto
  moreover have "ctx_filled (Fr a ks (take i ts) (drop (Suc i) ts) # fs)"
    using i "2.prems"(2,3) by (auto dest: in_set_takeD in_set_dropD)
  moreover have "path key (Fr a ks (take i ts) (drop (Suc i) ts) # fs) (ts ! i) = (fs', l)"
    using "2.prems"(1) i by (simp add: i_def [symmetric])
  ultimately show ?case
    using "2.IH" [OF i_def i] filled_imp_root_filled by blast
qed auto

lemma weave_upper:
  assumes "sorted_wrt (<) (weave xs ks)" "length xs = length ks" "x \<in> set (weave xs ks)"
  shows "(x::int) \<le> last ks"
proof (cases ks rule: rev_cases)
  case Nil
  with assms show ?thesis by simp
next
  case (snoc ks' k)
  then have "weave xs ks = weave xs ks' @ [k]" using assms(2) weave_snoc [of xs ks' k] by simp
  with assms snoc show ?thesis by (auto simp: sorted_wrt_append)
qed

lemma wtail_lower:
  assumes "sorted_wrt (<) (wtail xs ks)" "length xs = length ks" "x \<in> set (wtail xs ks)"
  shows "hd ks \<le> (x::int)"
  using assms by (cases ks) auto

lemma path_bounds:
  assumes "path key fs t = (fs', l)" "root_filled t" "ctx_filled fs"
    "sorted_wrt (<) (flat t)"
    "\<forall>x \<in> set (ctx_flat_l fs). x < 2 * key + 1" "\<forall>x \<in> set (ctx_flat_r fs). 2 * key + 1 < x"
  shows "(\<forall>x \<in> set (ctx_flat_l fs'). x < 2 * key + 1) \<and> (\<forall>x \<in> set (ctx_flat_r fs'). 2 * key + 1 < x)"
  using assms
proof (induction key fs t rule: path.induct)
  case (2 key fs a ks ts)
  define i where "i = child_ix key ks"
  define f where "f = Fr a ks (take i ts) (drop (Suc i) ts)"
  have ik: "i \<le> length ks" by (simp add: i_def child_ix_le)
  have i: "i < length ts" using ik "2.prems"(2) by simp
  have fl: "filled (ts ! i)" using i "2.prems"(2) by auto
  have cf: "ctx_filled (f # fs)"
    using i "2.prems"(2,3) by (auto simp: f_def dest: in_set_takeD in_set_dropD)
  have p: "path key (f # fs) (ts ! i) = (fs', l)"
    using "2.prems"(1) i by (simp add: i_def [symmetric] f_def)
  let ?L = "weave (map flat (take i ts)) (map ((*) 2) (take i ks))"
  let ?R = "wtail (map flat (drop (Suc i) ts)) (map ((*) 2) (drop i ks))"
  have "flat (Nd a ks (take i ts @ ts ! i # drop (Suc i) ts)) = ?L @ flat (ts ! i) @ ?R"
    using i ik by (simp add: weave_hole take_map drop_map)
  then have fe: "flat (Nd a ks ts) = ?L @ flat (ts ! i) @ ?R"
    using i by (simp add: id_take_nth_drop [symmetric])
  have s: "sorted_wrt (<) ?L" "sorted_wrt (<) (flat (ts ! i))" "sorted_wrt (<) ?R"
    using "2.prems"(4) unfolding fe by (simp_all add: sorted_wrt_append)
  have L: "x < 2 * key + 1" if "x \<in> set ?L" for x
  proof -
    have "x \<le> last (map ((*) 2) (take i ks))" using weave_upper [OF s(1) _ that] i ik by simp
    moreover have "i \<noteq> 0" using that by (cases i) auto
    moreover have "ks ! (i - 1) \<le> key" using \<open>i \<noteq> 0\<close> child_ix_lower [of "i - 1" key ks] by (simp add: i_def)
    moreover have "last (map ((*) 2) (take i ks)) = 2 * ks ! (i - 1)"
      using \<open>i \<noteq> 0\<close> ik by (subst last_conv_nth) auto
    ultimately show ?thesis by simp
  qed
  have R: "2 * key + 1 < x" if "x \<in> set ?R" for x
  proof -
    have len: "length (drop (Suc i) ts) = length (drop i ks)" using "2.prems"(2) by simp
    have "hd (map ((*) 2) (drop i ks)) \<le> x" using wtail_lower [OF s(3) _ that] len by simp
    moreover have ne: "i < length ks"
    proof (rule ccontr)
      assume "\<not> i < length ks"
      with len that show False by simp
    qed
    moreover have "key < ks ! i" using ne child_ix_upper [of key ks] by (simp add: i_def)
    ultimately show ?thesis by (simp add: hd_map hd_drop_conv_nth)
  qed
  have "(\<forall>x \<in> set (ctx_flat_l (f # fs)). x < 2 * key + 1) \<and>
        (\<forall>x \<in> set (ctx_flat_r (f # fs)). 2 * key + 1 < x)"
    using L R "2.prems"(5,6) i by (auto simp: f_def)
  then show ?case
    using "2.IH" [OF i_def i p [unfolded f_def]] fl cf s(2) filled_imp_root_filled
    by (simp add: f_def)
qed auto


section \<open>Insertion of a split node into its context\<close>

fun insert_up :: "ptr \<Rightarrow> frame list \<Rightarrow> atree \<Rightarrow> int \<Rightarrow> atree \<Rightarrow> atree" where
  "insert_up new [] l k r = Nd new [k] [l, r]"
| "insert_up new (Fr a ks ls rs # fs) l k r =
     (let ks' = ins_at (length ls) k ks; ts' = ls @ l # r # rs
      in if length ks < 3 then plug fs (Nd a ks' ts')
         else insert_up (Suc new) fs (Nd a (take 2 ks') (take 3 ts')) (ks' ! 2)
                (Nd new (drop 3 ks') (drop 3 ts')))"

fun new_nodes :: "frame list \<Rightarrow> nat" where
  "new_nodes [] = 1"
| "new_nodes (Fr a ks ls rs # fs) = (if length ks < 3 then 0 else Suc (new_nodes fs))"

lemma length_ins_at [simp]: "length (ins_at i x xs) = Suc (length xs)"
  by (simp add: ins_at_def)

lemma take_drop_map_concat:
  "concat (map f (take n xs)) @ concat (map f (drop n xs)) = concat (map f xs)"
  by (metis append_take_drop_id concat_append map_append)

lemma leaves_insert_up:
  "leaves (insert_up new fs l k r) = ctx_leaves_l fs @ leaves l @ leaves r @ ctx_leaves_r fs"
proof (induction new fs l k r rule: insert_up.induct)
  case (2 new a ks ls rs fs l k r)
  note take_append [simp del] drop_append [simp del]
  show ?case
  proof (cases "length ks < 3")
    case True
    then show ?thesis by (simp add: leaves_plug)
  next
    case False
    have "concat (map leaves (take 3 (ls @ l # r # rs))) @ concat (map leaves (drop 3 (ls @ l # r # rs))) =
      concat (map leaves (ls @ l # r # rs))"
      by (rule take_drop_map_concat)
    with False "2.IH" [OF refl refl False] show ?thesis by (simp add: Let_def)
  qed
qed simp

lemma mset_addrs_insert_up:
  "mset (addrs (insert_up new fs l k r)) =
   mset (addrs l @ addrs r @ ctx_addrs fs @ [new ..< new + new_nodes fs])"
proof (induction new fs l k r rule: insert_up.induct)
  case (2 new a ks ls rs fs l k r)
  note take_append [simp del] drop_append [simp del]
  show ?case
  proof (cases "length ks < 3")
    case True
    then show ?thesis by (simp add: mset_addrs_plug)
  next
    case False
    have "mset (concat (map addrs (take 3 (ls @ l # r # rs)))) + mset (concat (map addrs (drop 3 (ls @ l # r # rs)))) =
      mset (concat (map addrs (ls @ l # r # rs)))"
      by (metis mset_append take_drop_map_concat)
    moreover have "[new ..< Suc (new + new_nodes fs)] = new # [Suc new ..< Suc new + new_nodes fs]"
      by (simp add: upt_rec)
    ultimately show ?thesis using False "2.IH" [OF refl refl False]
      by (simp add: Let_def del: upt_Suc mset_upt)
  qed
qed simp

lemma ball_take_drop:
  assumes "\<forall>x \<in> set xs. P x"
  shows "\<forall>x \<in> set (take n xs). P x" "\<forall>x \<in> set (drop n xs). P x"
  using assms by (auto dest: in_set_takeD in_set_dropD)

lemma split_lengths:
  assumes "ctx_filled (Fr a ks ls rs # fs)" "\<not> length ks < 3"
  shows "length (ins_at (length ls) k ks) = 4" "length (ls @ l # r # rs) = 5"
  using assms by auto

lemma flat_insert_up:
  assumes "ctx_filled fs"
  shows "flat (insert_up new fs l k r) = ctx_flat_l fs @ flat l @ 2 * k # flat r @ ctx_flat_r fs"
  using assms
proof (induction new fs l k r rule: insert_up.induct)
  case (2 new a ks ls rs fs l k r)
  note take_append [simp del] drop_append [simp del]
  let ?ks = "ins_at (length ls) k ks" and ?ts = "ls @ l # r # rs"
  have w: "weave (map flat ?ts) (map ((*) 2) ?ks) =
    weave (map flat ls) (map ((*) 2) (take (length ls) ks)) @ flat l @ 2 * k # flat r @
    wtail (map flat rs) (map ((*) 2) (drop (length ls) ks))"
  proof -
    have "map ((*) 2) ?ks = ins_at (length (map flat ls)) (2 * k) (map ((*) 2) ks)"
      by (simp add: ins_at_def take_map drop_map)
    then show ?thesis using weave_ins [of "map flat ls" "map ((*) 2) ks" "flat l" "flat r" "map flat rs" "2 * k"]
      "2.prems" by (simp add: take_map drop_map)
  qed
  show ?case
  proof (cases "length ks < 3")
    case True
    then show ?thesis using w "2.prems" by (simp add: flat_plug)
  next
    case False
    note len = split_lengths [OF "2.prems" False]
    have "weave (map flat ?ts) (map ((*) 2) ?ks) =
      flat (Nd a (take 2 ?ks) (take 3 ?ts)) @ 2 * ?ks ! 2 # flat (Nd new (drop 3 ?ks) (drop 3 ?ts))"
      using weave_split [of "map ((*) 2) ?ks" "map flat ?ts"] len(1) [of k] len(2) [of l r]
      by (simp add: take_map drop_map del: map_append)
    moreover have "ctx_filled fs" using "2.prems" by simp
    ultimately show ?thesis using "2.IH" [OF refl refl False] False w by (simp add: Let_def)
  qed
qed simp

lemma filled_insert_up:
  assumes "ctx_filled fs" "filled l" "filled r"
  shows "root_filled (insert_up new fs l k r)"
  using assms
proof (induction new fs l k r rule: insert_up.induct)
  case (2 new a ks ls rs fs l k r)
  note take_append [simp del] drop_append [simp del]
  let ?ks = "ins_at (length ls) k ks" and ?ts = "ls @ l # r # rs"
  have all: "\<forall>t \<in> set ?ts. filled t" using "2.prems" by auto
  show ?case
  proof (cases "length ks < 3")
    case True
    then have "filled (Nd a ?ks ?ts)" using "2.prems" all by simp
    then have "root_filled (plug fs (Nd a ?ks ?ts))"
      using "2.prems" by (cases "fs = []") (auto simp: filled_plug)
    with True show ?thesis by simp
  next
    case False
    note len = split_lengths [OF "2.prems"(1) False]
    have "filled (Nd a (take 2 ?ks) (take 3 ?ts))" "filled (Nd new (drop 3 ?ks) (drop 3 ?ts))"
      using len(1) [of k] len(2) [of l r] ball_take_drop [OF all, of 3] by simp_all
    with "2.IH" [OF refl refl False] False "2.prems" show ?thesis by (simp add: Let_def)
  qed
qed simp

lemma bal_insert_up:
  assumes "ctx_bal n fs" "bal n l" "bal n r"
  shows "\<exists>h. bal h (insert_up new fs l k r)"
  using assms
proof (induction new fs l k r arbitrary: n rule: insert_up.induct)
  case (1 new l k r)
  then have "bal (Suc n) (insert_up new [] l k r)" by simp
  then show ?case by blast
next
  case (2 new a ks ls rs fs l k r)
  note take_append [simp del] drop_append [simp del]
  let ?ks = "ins_at (length ls) k ks" and ?ts = "ls @ l # r # rs"
  have all: "\<forall>t \<in> set ?ts. bal n t" using "2.prems" by auto
  show ?case
  proof (cases "length ks < 3")
    case True
    then have "bal (Suc n + length fs) (insert_up new (Fr a ks ls rs # fs) l k r)"
      using "2.prems" all by (simp only: insert_up.simps Let_def if_True bal_plug) simp
    then show ?thesis by blast
  next
    case False
    have "bal (Suc n) (Nd a (take 2 ?ks) (take 3 ?ts))" "bal (Suc n) (Nd new (drop 3 ?ks) (drop 3 ?ts))"
      using ball_take_drop [OF all, of 3] by simp_all
    with "2.IH" [OF refl refl False, of "Suc n"] False "2.prems" show ?thesis by (simp add: Let_def)
  qed
qed

end
