(* ===== verification/BPTree_Refine.thy ===== *)
theory BPTree_Refine
  imports BPTree_Abs
begin

section \<open>Loops over the arrays of a node\<close>

lemma find_insert_index_from:
  assumes "n \<le> length ks" "i \<le> n"
  shows "bptree_find_insert_index ks n key i = Some (i + length (takeWhile (\<lambda>k. k < key) (drop i (take n ks))))"
  using assms
proof (induction ks n key i rule: bptree_find_insert_index.induct)
  case (1 ks n key i)
  show ?case
  proof (cases "i < n")
    case True
    then have "drop i (take n ks) = ks ! i # drop (Suc i) (take n ks)"
      using "1.prems" by (metis Cons_nth_drop_Suc length_take min.absorb2 nth_take)
    with True "1.IH" "1.prems" show ?thesis
      by (subst bptree_find_insert_index.simps) simp
  next
    case False
    then show ?thesis using "1.prems" by (subst bptree_find_insert_index.simps) simp
  qed
qed

lemma child_index_from:
  assumes "n \<le> length ks" "i \<le> n"
  shows "bptree_child_index ks n key i = Some (i + length (takeWhile (\<lambda>k. k \<le> key) (drop i (take n ks))))"
  using assms
proof (induction ks n key i rule: bptree_child_index.induct)
  case (1 ks n key i)
  show ?case
  proof (cases "i < n")
    case True
    then have "drop i (take n ks) = ks ! i # drop (Suc i) (take n ks)"
      using "1.prems" by (metis Cons_nth_drop_Suc length_take min.absorb2 nth_take)
    with True "1.IH" "1.prems" show ?thesis
      by (subst bptree_child_index.simps) simp
  next
    case False
    then show ?thesis using "1.prems" by (subst bptree_child_index.simps) simp
  qed
qed

lemma child_position_from:
  assumes "n < length cs" "i \<le> j" "j \<le> n" "cs ! j = left" "\<forall>k < j. cs ! k \<noteq> left"
  shows "bptree_child_position cs n left i = Some j"
  using assms
proof (induction cs n left i rule: bptree_child_position.induct)
  case (1 cs n left i)
  then show ?case
    by (subst bptree_child_position.simps) (cases "i = j", auto)
qed

lemma leaf_has_key_from:
  assumes "n \<le> length ks"
  shows "bptree_leaf_has_key ks n key i = Some (key \<in> set (drop i (take n ks)))"
  using assms
proof (induction ks n key i rule: bptree_leaf_has_key.induct)
  case (1 ks n key i)
  show ?case
  proof (cases "i < n")
    case True
    then have "drop i (take n ks) = ks ! i # drop (Suc i) (take n ks)"
      using "1.prems" by (metis Cons_nth_drop_Suc length_take min.absorb2 nth_take)
    with True "1.IH" "1.prems" show ?thesis
      by (subst bptree_leaf_has_key.simps) simp
  next
    case False
    then show ?thesis by (subst bptree_leaf_has_key.simps) simp
  qed
qed

lemma leaf_value_from:
  assumes "leaf_node n p kvs" "i \<le> length kvs"
  shows "bptree_leaf_value n key i =
    Some (case map_of (drop i kvs) key of None \<Rightarrow> NULL | Some v \<Rightarrow> v)"
  using assms(2)
proof (induction "length kvs - i" arbitrary: i)
  case 0
  then show ?case using assms(1) by (subst bptree_leaf_value.simps) (simp add: leaf_node_def)
next
  case (Suc x)
  then have i: "i < length kvs" by simp
  have len: "length (take (length kvs) (keys n)) = length kvs" "length (take (length kvs) (vals n)) = length kvs"
    using assms(1) by (simp_all add: leaf_node_def)
  have k: "keys n ! i = fst (kvs ! i)"
    using i assms(1) len nth_take [OF i, of "keys n"] by (simp add: leaf_node_def)
  have v: "vals n ! i = snd (kvs ! i)"
    using i assms(1) len nth_take [OF i, of "vals n"] by (simp add: leaf_node_def)
  have l: "length (keys n) > i" "length (vals n) > i"
    using i len by auto
  have "map_of (drop i kvs) key = (if fst (kvs ! i) = key then Some (snd (kvs ! i)) else map_of (drop (Suc i) kvs) key)"
    using i by (simp add: Cons_nth_drop_Suc [symmetric])
  with Suc i k v l assms(1) show ?case
    by (subst bptree_leaf_value.simps) (auto simp: leaf_node_def)
qed

section \<open>Shifting an array to make room\<close>

lemma arr_shift_spec:
  assumes "p \<le> n" "n < length xs"
  shows "\<exists>ys. arr_shift xs p n = Some ys \<and> length ys = length xs \<and>
    (\<forall>x. ys[p := x] = ins_at p x (take n xs) @ drop (Suc n) xs)"
  using assms
proof (induction n arbitrary: xs)
  case 0
  then show ?case by (auto simp: ins_at_def Cons_nth_drop_Suc [symmetric] neq_Nil_conv)
next
  case (Suc n)
  show ?case
  proof (cases "p = Suc n")
    case True
    with Suc.prems show ?thesis by (simp add: ins_at_def upd_conv_take_nth_drop)
  next
    case False
    define xs' where "xs' = xs[Suc n := xs ! n]"
    have "p \<le> n" "n < length xs'" using Suc.prems False by (simp_all add: xs'_def)
    from Suc.IH [OF this] obtain ys where ys: "arr_shift xs' p n = Some ys" "length ys = length xs'"
      "\<And>x. ys[p := x] = ins_at p x (take n xs') @ drop (Suc n) xs'" by blast
    have "take n xs' = take n xs" by (simp add: xs'_def)
    moreover have "drop (Suc n) xs' = xs ! n # drop (Suc (Suc n)) xs"
      using Suc.prems by (simp add: xs'_def drop_update_swap Cons_nth_drop_Suc [symmetric])
    moreover have "ins_at p x (take n xs) @ [xs ! n] = ins_at p x (take (Suc n) xs)" for x
      using Suc.prems \<open>p \<le> n\<close> by (simp add: ins_at_def take_Suc_conv_app_nth)
    ultimately have "ys[p := x] = ins_at p x (take (Suc n) xs) @ drop (Suc (Suc n)) xs" for x
      using ys(3) [of x] by (metis append.assoc append_Cons append_Nil)
    moreover have "arr_shift xs p (Suc n) = Some ys"
      using ys(1) Suc.prems \<open>p \<le> n\<close> by (simp add: xs'_def)
    ultimately show ?thesis using ys(2) by (simp add: xs'_def)
  qed
qed

lemma leaf_shift_arr_shift:
  assumes "arr_shift (keys n) p i = Some ks" "arr_shift (vals n) p i = Some vs"
  shows "bptree_leaf_shift n p i = Some (n\<lparr>keys := ks, vals := vs\<rparr>)"
  using assms
proof (induction n p i rule: bptree_leaf_shift.induct)
  case (2 leaf p i)
  show ?case
  proof (cases "Suc i > p")
    case True
    with "2.prems" obtain k ks' v vs' where
      a: "arr_get (keys leaf) i = Some k" "arr_set (keys leaf) (Suc i) k = Some ks'" "arr_shift ks' p i = Some ks"
      "arr_get (vals leaf) i = Some v" "arr_set (vals leaf) (Suc i) v = Some vs'" "arr_shift vs' p i = Some vs"
      by (auto simp: bind_eq_Some_conv)
    with True "2.IH" [OF True a(1,2,4,5)] show ?thesis by simp
  next
    case False
    with "2.prems" show ?thesis by simp
  qed
qed simp


section \<open>Frames of the representation\<close>

lemma addr_in_addrs [simp]: "addr t \<in> set (addrs t)"
  by (cases t) auto

lemma rep_cong:
  assumes "\<And>a. a \<in> set (addrs t) \<Longrightarrow> h' a = h a"
  shows "rep h' p t = rep h p t"
  using assms by (induction t arbitrary: p) auto

lemma ctx_rep_cong:
  assumes "\<And>a. a \<in> set (ctx_addrs fs) \<Longrightarrow> h' a = h a"
  shows "ctx_rep h' fs c = ctx_rep h fs c"
  using assms
proof (induction fs arbitrary: c)
  case (Cons f fs)
  obtain a ks ls rs where f: "f = Fr a ks ls rs" by (cases f)
  have "rep h' a t = rep h a t" if "t \<in> set ls \<union> set rs" for t
    using that Cons.prems f by (intro rep_cong) auto
  with Cons f show ?case by auto
qed simp

lemma leaf_node_parent: "leaf_node n p kvs \<Longrightarrow> leaf_node (n\<lparr>parent := q\<rparr>) q kvs"
  by (simp add: leaf_node_def)

lemma int_node_parent: "int_node n p ks cs \<Longrightarrow> int_node (n\<lparr>parent := q\<rparr>) q ks cs"
  by (simp add: int_node_def)

lemma rep_reparent:
  assumes "rep h p t" "distinct (addrs t)"
    "h' (addr t) = map_option (parent_update (\<lambda>_. q)) (h (addr t))"
    "\<And>a. a \<in> set (addrs t) \<Longrightarrow> a \<noteq> addr t \<Longrightarrow> h' a = h a"
  shows "rep h' q t"
proof (cases t)
  case (Lf a kvs)
  with assms(1,3) show ?thesis by (auto intro: leaf_node_parent split: option.splits)
next
  case (Nd a ks ts)
  have "rep h' a u" if "u \<in> set ts" for u
  proof -
    have "rep h' a u = rep h a u"
      using that Nd assms(2,4) by (intro rep_cong) auto
    with that Nd assms(1) show ?thesis by simp
  qed
  with Nd assms(1,3) show ?thesis by (auto intro: int_node_parent split: option.splits)
qed

lemma rep_node: "rep h p t \<Longrightarrow> \<exists>n. h (addr t) = Some n \<and> parent n = p"
  by (cases t) (auto simp: leaf_node_def int_node_def split: option.splits)

section \<open>Allocation\<close>

definition no_oom :: "'a alloc_mem_scheme \<Rightarrow> bool" where
  "no_oom m \<longleftrightarrow> (\<forall>i. alloc_ok m (allocs m + i))"

definition mem_upd :: "'a bpt_mem_scheme \<Rightarrow> nat \<Rightarrow> (ptr \<Rightarrow> BPTreeNode option) \<Rightarrow> 'a bpt_mem_scheme" where
  "mem_upd m j h = m\<lparr>brk := brk m + j, allocs := allocs m + j, nodes := h\<rparr>"

lemma mem_upd_simps [simp]:
  "nodes (mem_upd m j h) = h" "brk (mem_upd m j h) = brk m + j"
  "allocs (mem_upd m j h) = allocs m + j" "alloc_ok (mem_upd m j h) = alloc_ok m"
  "bpt_mem.more (mem_upd m j h) = bpt_mem.more m"
  "mem_upd (mem_upd m i g) j h = mem_upd m (i + j) h"
  "set_node (mem_upd m j h) a n = mem_upd m j (h(a \<mapsto> n))"
  "blocks (mem_upd m j h) = blocks m"
  by (simp_all add: mem_upd_def set_node_def add.assoc)

lemma block_nodes [simp]: "nodes (take_block m p) = nodes m" "nodes (drop_block m p) = nodes m"
  by (simp_all add: take_block_def drop_block_def)

lemma mem_upd_id: "mem_upd m 0 (nodes m) = m"
  by (simp add: mem_upd_def)

lemma set_node_mem_upd: "set_node m a n = mem_upd m 0 ((nodes m)(a \<mapsto> n))"
  by (simp add: mem_upd_def set_node_def)

lemma no_oom_mem_upd [simp]: "no_oom m \<Longrightarrow> no_oom (mem_upd m j h)"
  by (simp add: no_oom_def add.assoc)

lemma no_oom_now: "no_oom m \<Longrightarrow> alloc_ok m (allocs m)"
  using no_oom_def [of m] by (metis add_0_right)

lemma create_node_now:
  assumes "alloc_ok m (allocs m)" "0 < brk m"
  shows "bptree_create_node m leaf =
    (mem_upd m 1 ((nodes m)(brk m \<mapsto> zero_node\<lparr>is_leaf := leaf\<rparr>)), brk m)"
  using assms by (simp add: bptree_create_node_def alloc_def mem_upd_def set_node_def)

lemmas create_node_ok = create_node_now [OF no_oom_now]

lemma set_parent_mem_upd:
  "set_parent m a q = map_option (\<lambda>n. mem_upd m 0 ((nodes m)(a \<mapsto> n\<lparr>parent := q\<rparr>))) (nodes m a)"
  by (cases "nodes m a") (simp_all add: set_parent_def set_node_mem_upd)

section \<open>Descent to a leaf\<close>

lemma find_leaf_path:
  assumes "path key fs t = (fs', l)" "rep (nodes m) p t" "root_filled t"
  shows "bptree_find_leaf_from m (addr t) key = Some (addr l)"
  using assms
proof (induction key fs t arbitrary: p rule: path.induct)
  case (1 key fs a kvs)
  then show ?case
    by (subst bptree_find_leaf_from.simps) (auto simp: leaf_node_def split: option.splits)
next
  case (2 key fs a ks ts)
  define i where "i = child_ix key ks"
  have ik: "i \<le> length ks" by (simp add: i_def child_ix_le)
  have i: "i < length ts" using ik "2.prems"(3) by simp
  obtain n where n: "nodes m a = Some n" "int_node n p ks (map addr ts)"
    using "2.prems"(2) by (auto split: option.splits)
  have "bptree_child_index (keys n) (num_keys n) key 0 = Some i"
    using child_index_from [of "num_keys n" "keys n" 0 key] n(2) "2.prems"(3)
    by (simp add: int_node_def i_def child_ix_def)
  moreover have "arr_get (children n) i = Some (addr (ts ! i))"
  proof -
    have "take (Suc (length ks)) (children n) ! i = map addr ts ! i" using n(2) by (simp add: int_node_def)
    moreover have "i < length (children n)" using n(2) ik "2.prems"(3) by (simp add: int_node_def)
    ultimately show ?thesis using i ik by simp
  qed
  moreover have "bptree_find_leaf_from m (addr (ts ! i)) key = Some (addr l)"
  proof -
    have "path key (Fr a ks (take i ts) (drop (Suc i) ts) # fs) (ts ! i) = (fs', l)"
      using "2.prems"(1) i by (simp add: i_def [symmetric])
    moreover have "rep (nodes m) a (ts ! i)" "filled (ts ! i)" using "2.prems"(2,3) i by auto
    ultimately show ?thesis using "2.IH" [OF i_def i] filled_imp_root_filled by blast
  qed
  ultimately show ?case using n
    by (subst bptree_find_leaf_from.simps) (simp add: int_node_def)
qed

lemma length3: "length xs = 3 \<Longrightarrow> \<exists>a b c. xs = [a, b, c]"
  by (auto simp: eval_nat_numeral length_Suc_conv)

lemma length4: "length xs = 4 \<Longrightarrow> \<exists>a b c d. xs = [a, b, c, d]"
  by (auto simp: eval_nat_numeral length_Suc_conv)

lemma tmp_copy_from:
  assumes "i \<le> n" "n \<le> length xs" "n \<le> length tmp"
  shows "tmp_copy tmp xs i n = Some (take i tmp @ map Some (drop i (take n xs)) @ drop n tmp)"
  using assms
proof (induction tmp xs i n rule: tmp_copy.induct)
  case (1 tmp xs i n)
  show ?case
  proof (cases "i < n")
    case True
    then have d: "drop i (take n xs) = xs ! i # drop (Suc i) (take n xs)"
      using "1.prems" by (metis Cons_nth_drop_Suc length_take min.absorb2 nth_take)
    have t: "take (Suc i) (tmp[i := Some (xs ! i)]) = take i tmp @ [Some (xs ! i)]"
      using True "1.prems" by (simp add: take_Suc_conv_app_nth)
    from True "1" t d show ?thesis by (subst tmp_copy.simps) simp
  next
    case False
    then show ?thesis using "1.prems" by (subst tmp_copy.simps) simp
  qed
qed

lemma tmp_shift_map:
  assumes "n < length xs" "\<And>i. i < n \<Longrightarrow> xs ! i \<noteq> None"
  shows "tmp_shift xs p n = arr_shift xs p n"
  using assms
proof (induction n arbitrary: xs)
  case (Suc n)
  then obtain x where "xs ! n = Some x" by blast
  with Suc show ?case by (auto simp: tmp_get_def)
qed simp

lemma tmp_get_map [simp]: "i < length xs \<Longrightarrow> tmp_get (map Some xs) i = Some (xs ! i)"
  by (simp add: tmp_get_def)

text \<open>The three loops that build a temporary array with one more element.\<close>

lemma tmp_insert:
  assumes "n \<le> length xs" "p \<le> n" "k = Suc n"
  shows "do { t \<leftarrow> tmp_copy (replicate k None) xs 0 n; t \<leftarrow> tmp_shift t p n; arr_set t p (Some x) } =
    Some (map Some (ins_at p x (take n xs)))"
proof -
  have d: "drop n (None # replicate n None) = [None]" by (induction n) auto
  define t where "t = map Some (take n xs) @ [None]"
  have c: "tmp_copy (replicate k None) xs 0 n = Some t"
    using assms tmp_copy_from [of 0 n xs "replicate k None"] d by (simp add: t_def)
  have lt: "length t = Suc n" using assms by (simp add: t_def)
  obtain ys where ys: "arr_shift t p n = Some ys" "length ys = length t"
    "\<And>x. ys[p := x] = ins_at p x (take n t) @ drop (Suc n) t"
    using arr_shift_spec [of p n t] assms lt by auto
  have "tmp_shift t p n = arr_shift t p n"
    by (rule tmp_shift_map) (use assms lt in \<open>auto simp: t_def nth_append\<close>)
  moreover have "ys[p := Some x] = map Some (ins_at p x (take n xs))"
    using ys(3) [of "Some x"] assms by (simp add: t_def ins_at_def take_map drop_map)
  moreover have "p < length ys" using ys(2) lt assms by simp
  ultimately show ?thesis using c ys(1) by simp
qed


section \<open>Splitting an internal node\<close>

lemma set_child_parent_mem_upd:
  assumes "a \<noteq> NULL" "nodes m a = Some n"
  shows "set_child_parent m a q = Some (mem_upd m 0 ((nodes m)(a \<mapsto> n\<lparr>parent := q\<rparr>)))"
  using assms by (simp add: set_child_parent_def set_parent_mem_upd)

lemma fill_left_parent:
  assumes "nodes m par = Some n" "keys n = [k0, k1, k2]" "children n = [c0, c1, c2, c3]" "num_keys n = 0"
    "distinct [par, e0, e1]" "e0 \<noteq> NULL" "e1 \<noteq> NULL" "nodes m e0 = Some x0" "nodes m e1 = Some x1"
  shows "bptree_fill_left_parent m par (map Some [a, b, c, d]) (map Some [e0, e1, e2, e3, e4]) 0 2 =
    Some (mem_upd m 0 ((nodes m)(e0 \<mapsto> x0\<lparr>parent := par\<rparr>, e1 \<mapsto> x1\<lparr>parent := par\<rparr>,
      par \<mapsto> n\<lparr>keys := [a, b, k2], children := [e0, e1, c2, c3], num_keys := 2\<rparr>)))"
  using assms
  by (simp add: bptree_fill_left_parent.simps tmp_get_def arr_get_def arr_set_def set_node_mem_upd
      set_child_parent_mem_upd fun_upd_twist numeral_2_eq_2)

lemma fill_right_parent:
  assumes "nodes m par = Some n" "keys n = [k0, k1, k2]" "children n = [c0, c1, c2, c3]" "num_keys n = 0"
    "par \<noteq> e3" "e3 \<noteq> NULL" "nodes m e3 = Some x3"
  shows "bptree_fill_right_parent m par (map Some [a, b, c, d]) (map Some [e0, e1, e2, e3, e4]) 3 4 =
    Some (mem_upd m 0 ((nodes m)(e3 \<mapsto> x3\<lparr>parent := par\<rparr>,
      par \<mapsto> n\<lparr>keys := [d, k1, k2], children := [e3, c1, c2, c3], num_keys := 1\<rparr>)))"
  using assms
  by (simp add: bptree_fill_right_parent.simps tmp_get_def arr_get_def arr_set_def set_node_mem_upd
      set_child_parent_mem_upd fun_upd_twist eval_nat_numeral)


lemma zero_node_simps [simp]:
  "is_leaf zero_node = False" "num_keys zero_node = 0" "keys zero_node = [0, 0, 0]"
  "vals zero_node = [NULL, NULL, NULL]" "children zero_node = [NULL, NULL, NULL, NULL]"
  "parent zero_node = NULL" "next_leaf zero_node = NULL"
  by (simp_all add: zero_node_def eval_nat_numeral)

lemma internal_temps:
  assumes "keys n = [k0, k1, k2]" "children n = [c0, c1, c2, c3]" "num_keys n = 3" "i \<le> 3"
  shows "bptree_internal_temps n i key right =
    Some (map Some (ins_at i key [k0, k1, k2]), map Some (ins_at (Suc i) right [c0, c1, c2, c3]))"
proof -
  obtain t1 t2 where t: "tmp_copy (replicate 4 None) [k0, k1, k2] 0 3 = Some t1" "tmp_shift t1 i 3 = Some t2"
    "arr_set t2 i (Some key) = Some (map Some (ins_at i key [k0, k1, k2]))"
    using tmp_insert [of 3 "[k0, k1, k2]" i 4 key] assms(4) by (auto simp: bind_eq_Some_conv)
  obtain s1 s2 where s: "tmp_copy (replicate 5 None) [c0, c1, c2, c3] 0 4 = Some s1" "tmp_shift s1 (Suc i) 4 = Some s2"
    "arr_set s2 (Suc i) (Some right) = Some (map Some (ins_at (Suc i) right [c0, c1, c2, c3]))"
    using tmp_insert [of 4 "[c0, c1, c2, c3]" "Suc i" 5 right] assms(4) by (auto simp: bind_eq_Some_conv)
  show ?thesis using t s assms by (simp add: bptree_internal_temps_def)
qed

lemma mem_upd2_eqI:
  assumes "i + j = k" "\<And>a. g a = h a"
  shows "Some (mem_upd (mem_upd m i f) j g) = Some (mem_upd m k h)"
proof -
  have "g = h" using assms(2) by (rule ext)
  then show ?thesis using assms(1) by simp
qed

lemma internal_distribute:
  assumes n: "nodes m par = Some n" "keys n = [k0, k1, k2]" "children n = [c0, c1, c2, c3]"
    and new: "nodes m new = Some rn" "keys rn = [r0, r1, r2]" "children rn = [d0, d1, d2, d3]" "num_keys rn = 0"
    and dist: "distinct [par, new, e0, e1, e2, e3, e4]" "NULL \<notin> {e0, e1, e2, e3, e4}"
    and xs: "nodes m e0 = Some x0" "nodes m e1 = Some x1" "nodes m e2 = Some x2" "nodes m e3 = Some x3"
      "nodes m e4 = Some x4"
  shows "bptree_internal_distribute m par new (map Some [a, b, c, d]) (map Some [e0, e1, e2, e3, e4]) =
    Some (mem_upd m 0 ((nodes m)(
      e0 \<mapsto> x0\<lparr>parent := par\<rparr>, e1 \<mapsto> x1\<lparr>parent := par\<rparr>, e2 \<mapsto> x2\<lparr>parent := par\<rparr>,
      e3 \<mapsto> x3\<lparr>parent := new\<rparr>, e4 \<mapsto> x4\<lparr>parent := new\<rparr>,
      par \<mapsto> n\<lparr>keys := [a, b, k2], children := [e0, e1, e2, c3], num_keys := 2\<rparr>,
      new \<mapsto> rn\<lparr>keys := [d, r1, r2], children := [e3, e4, d2, d3], num_keys := 1, parent := parent n\<rparr>)), c)"
proof -
  have ne: "e0 \<noteq> par" "e1 \<noteq> par" "e2 \<noteq> par" "e3 \<noteq> par" "e4 \<noteq> par"
    "e0 \<noteq> new" "e1 \<noteq> new" "e2 \<noteq> new" "e3 \<noteq> new" "e4 \<noteq> new" "par \<noteq> new"
    "e1 \<noteq> e0" "e2 \<noteq> e0" "e3 \<noteq> e0" "e4 \<noteq> e0" "e2 \<noteq> e1" "e3 \<noteq> e1" "e4 \<noteq> e1" "e3 \<noteq> e2" "e4 \<noteq> e2" "e4 \<noteq> e3"
    using dist(1) by auto
  note neq = ne ne [symmetric]
  have nz: "0 < e0" "0 < e1" "0 < e2" "0 < e3" "0 < e4" using dist(2) by auto
  let ?h1 = "(nodes m)(e0 \<mapsto> x0\<lparr>parent := par\<rparr>, e1 \<mapsto> x1\<lparr>parent := par\<rparr>,
      par \<mapsto> n\<lparr>keys := [a, b, k2], children := [e0, e1, c2, c3], num_keys := 2\<rparr>)"
  have fl: "bptree_fill_left_parent (mem_upd m 0 ((nodes m)(par \<mapsto> n\<lparr>num_keys := 0\<rparr>))) par (map Some [a, b, c, d])
      (map Some [e0, e1, e2, e3, e4]) 0 2 = Some (mem_upd m 0 ?h1)"
    using n xs neq nz
    by (subst fill_left_parent [where n = "n\<lparr>num_keys := 0\<rparr>" and ?x0.0 = x0 and ?x1.0 = x1], (simp_all)[9])
       (rule mem_upd2_eqI, simp_all)
  let ?h2 = "(nodes m)(e0 \<mapsto> x0\<lparr>parent := par\<rparr>, e1 \<mapsto> x1\<lparr>parent := par\<rparr>, e2 \<mapsto> x2\<lparr>parent := par\<rparr>,
      par \<mapsto> n\<lparr>keys := [a, b, k2], children := [e0, e1, e2, c3], num_keys := 2\<rparr>)"
  have sc: "set_child_parent (mem_upd m 0 (?h1(par \<mapsto> n\<lparr>keys := [a, b, k2], num_keys := 2, children := [e0, e1, e2, c3]\<rparr>))) e2 par =
      Some (mem_upd m 0 ?h2)"
    using xs neq nz 
    by (subst set_child_parent_mem_upd [where n = x2], (simp_all)[2]) (rule mem_upd2_eqI, simp_all)
  let ?h3 = "?h2(e3 \<mapsto> x3\<lparr>parent := new\<rparr>,
      new \<mapsto> rn\<lparr>keys := [d, r1, r2], children := [e3, d1, d2, d3], num_keys := 1, parent := parent n\<rparr>)"
  have fr: "bptree_fill_right_parent (mem_upd m 0 (?h2(new \<mapsto> rn\<lparr>parent := parent n\<rparr>))) new (map Some [a, b, c, d])
      (map Some [e0, e1, e2, e3, e4]) 3 4 = Some (mem_upd m 0 ?h3)"
    using new xs neq nz
    by (subst fill_right_parent [where n = "rn\<lparr>parent := parent n\<rparr>" and ?x3.0 = x3], (simp_all)[7])
       (rule mem_upd2_eqI, simp_all)
  let ?h4 = "(nodes m)(
      e0 \<mapsto> x0\<lparr>parent := par\<rparr>, e1 \<mapsto> x1\<lparr>parent := par\<rparr>, e2 \<mapsto> x2\<lparr>parent := par\<rparr>,
      e3 \<mapsto> x3\<lparr>parent := new\<rparr>, e4 \<mapsto> x4\<lparr>parent := new\<rparr>,
      par \<mapsto> n\<lparr>keys := [a, b, k2], children := [e0, e1, e2, c3], num_keys := 2\<rparr>,
      new \<mapsto> rn\<lparr>keys := [d, r1, r2], children := [e3, e4, d2, d3], num_keys := 1, parent := parent n\<rparr>)"
  have sc': "set_child_parent (mem_upd m 0 (?h3(new \<mapsto> rn\<lparr>keys := [d, r1, r2],
      num_keys := 1, parent := parent n, children := [e3, e4, d2, d3]\<rparr>))) e4 new = Some (mem_upd m 0 ?h4)"
    using xs neq nz 
    by (subst set_child_parent_mem_upd [where n = x4], (simp_all)[2]) (rule mem_upd2_eqI, simp_all)
  have g: "tmp_get (map Some [e0, e1, e2, e3, e4]) 2 = Some e2" "tmp_get (map Some [e0, e1, e2, e3, e4]) 4 = Some e4"
    "tmp_get (map Some [a, b, c, d]) 2 = Some c" by (simp_all del: list.map)
  have u: "[e0, e1, c2, c3][2 := e2] = [e0, e1, e2, c3]" "[e3, d1, d2, d3][Suc 0 := e4] = [e3, e4, d2, d3]"
    by (simp_all add: numeral_2_eq_2)
  have "4 div 2 = (2::nat)" by simp
  show ?thesis
    using n new neq fl fr sc sc' g u
    by (simp add: bptree_internal_distribute_def set_node_mem_upd [of m] del: list.map)
qed

lemma int_node_full:
  assumes "int_node n p ks cs" "length ks = 3"
  shows "keys n = ks" "children n = cs" "length cs = 4" "num_keys n = 3"
  using assms by (auto simp: int_node_def)

lemma length5: "length xs = 5 \<Longrightarrow> \<exists>a b c d e. xs = [a, b, c, d, e]"
  by (auto simp: eval_nat_numeral length_Suc_conv)

lemma split_internal_spec:
  assumes n: "nodes m par = Some n" "int_node n p ks cs" "length ks = 3" and i: "i \<le> 3"
    and ks': "ks' = ins_at i key ks" and cs': "cs' = ins_at (Suc i) right cs"
    and mem: "no_oom m" "0 < brk m" "brk m \<notin> set cs'" "brk m \<noteq> par"
    and dist: "distinct (par # cs')" "NULL \<notin> set cs'" "\<forall>c \<in> set cs'. nodes m c \<noteq> None"
  shows "\<exists>h n1 n2. bptree_split_internal m par i key right = Some (mem_upd m 1 h, Some (ks' ! 2, brk m)) \<and>
    h par = Some n1 \<and> int_node n1 p (take 2 ks') (take 3 cs') \<and> next_leaf n1 = next_leaf n \<and>
    h (brk m) = Some n2 \<and> int_node n2 p (drop 3 ks') (drop 3 cs') \<and>
    (\<forall>c \<in> set (take 3 cs'). h c = map_option (parent_update (\<lambda>_. par)) (nodes m c)) \<and>
    (\<forall>c \<in> set (drop 3 cs'). h c = map_option (parent_update (\<lambda>_. brk m)) (nodes m c)) \<and>
    (\<forall>a. a \<notin> insert par (insert (brk m) (set cs')) \<longrightarrow> h a = nodes m a)"
proof -
  note full = int_node_full [OF n(2,3)]
  obtain k0 k1 k2 where k: "ks = [k0, k1, k2]" using length3 [OF n(3)] by blast
  obtain c0 c1 c2 c3 where c: "cs = [c0, c1, c2, c3]" using length4 [OF full(3)] by blast
  obtain a b d e where ke: "ks' = [a, b, d, e]" using length4 [of ks'] n(3) by (auto simp: ks')
  obtain e0 e1 e2 e3 e4 where es: "cs' = [e0, e1, e2, e3, e4]"
    using length5 [of cs'] full(3) by (auto simp: cs')
  obtain x0 x1 x2 x3 x4 where x: "nodes m e0 = Some x0" "nodes m e1 = Some x1" "nodes m e2 = Some x2"
    "nodes m e3 = Some x3" "nodes m e4 = Some x4" using dist(3) es by auto
  let ?m = "mem_upd m 1 ((nodes m)(brk m \<mapsto> zero_node\<lparr>is_leaf := False\<rparr>))"
  have t: "bptree_internal_temps n i key right = Some (map Some [a, b, d, e], map Some [e0, e1, e2, e3, e4])"
    using internal_temps [of n k0 k1 k2 c0 c1 c2 c3 i key right] full k c i ks' cs' ke es by simp
  have ne: "distinct [par, brk m, e0, e1, e2, e3, e4]" using dist(1) mem(3,4) es by auto
  have ne': "e0 \<noteq> par" "e1 \<noteq> par" "e2 \<noteq> par" "e3 \<noteq> par" "e4 \<noteq> par"
    "e1 \<noteq> e0" "e2 \<noteq> e0" "e3 \<noteq> e0" "e4 \<noteq> e0" "e2 \<noteq> e1" "e3 \<noteq> e1" "e4 \<noteq> e1" "e3 \<noteq> e2" "e4 \<noteq> e2" "e4 \<noteq> e3"
    "e0 \<noteq> brk m" "e1 \<noteq> brk m" "e2 \<noteq> brk m" "e3 \<noteq> brk m" "e4 \<noteq> brk m" using ne by auto
  define h where "h = (nodes m)(brk m \<mapsto> zero_node\<lparr>is_leaf := False\<rparr>,
      e0 \<mapsto> x0\<lparr>parent := par\<rparr>, e1 \<mapsto> x1\<lparr>parent := par\<rparr>, e2 \<mapsto> x2\<lparr>parent := par\<rparr>,
      e3 \<mapsto> x3\<lparr>parent := brk m\<rparr>, e4 \<mapsto> x4\<lparr>parent := brk m\<rparr>,
      par \<mapsto> n\<lparr>keys := [a, b, k2], children := [e0, e1, e2, c3], num_keys := 2\<rparr>,
      brk m \<mapsto> zero_node\<lparr>is_leaf := False, keys := [e, 0, 0], children := [e3, e4, NULL, NULL], num_keys := 1, parent := parent n\<rparr>)"
  have d: "bptree_internal_distribute ?m par (brk m) (map Some [a, b, d, e]) (map Some [e0, e1, e2, e3, e4]) =
    Some (mem_upd m 1 h, d)"
    using internal_distribute [of ?m par n k0 k1 k2 c0 c1 c2 c3 "brk m" "zero_node\<lparr>is_leaf := False\<rparr>" 0 0 0 0 0 0 0
        e0 e1 e2 e3 e4 x0 x1 x2 x3 x4 a b d e] n(1) full k c x ne ne' dist(2) es
    by (simp add: h_def del: list.map)
  have "bptree_split_internal m par i key right = Some (mem_upd m 1 h, Some (ks' ! 2, brk m))"
    using n(1) t d ne mem by (simp add: bptree_split_internal_def create_node_ok ke del: list.map)
  moreover have "h par = Some (n\<lparr>keys := [a, b, k2], children := [e0, e1, e2, c3], num_keys := 2\<rparr>)"
    "h (brk m) = Some (zero_node\<lparr>is_leaf := False, keys := [e, 0, 0], children := [e3, e4, NULL, NULL], num_keys := 1, parent := parent n\<rparr>)"
    using ne by (simp_all add: h_def)
  moreover have "int_node (n\<lparr>keys := [a, b, k2], children := [e0, e1, e2, c3], num_keys := 2\<rparr>) p (take 2 ks') (take 3 cs')"
    "int_node (zero_node\<lparr>is_leaf := False, keys := [e, 0, 0], children := [e3, e4, NULL, NULL], num_keys := 1, parent := parent n\<rparr>) p
      (drop 3 ks') (drop 3 cs')"
    using n(2) by (simp_all add: int_node_def ke es eval_nat_numeral)
  moreover have "\<forall>c \<in> set (take 3 cs'). h c = map_option (parent_update (\<lambda>_. par)) (nodes m c)"
    "\<forall>c \<in> set (drop 3 cs'). h c = map_option (parent_update (\<lambda>_. brk m)) (nodes m c)"
    using ne ne' x by (simp_all add: es h_def eval_nat_numeral)
  moreover have "\<forall>a. a \<notin> insert par (insert (brk m) (set cs')) \<longrightarrow> h a = nodes m a"
    by (simp add: es h_def)
  ultimately show ?thesis by (intro exI conjI) (assumption | simp)+
qed

lemma insert_into_internal_spec:
  assumes n: "nodes m par = Some n" "int_node n p ks cs" "length ks < 3" and i: "i \<le> length ks"
    and cs: "length cs = Suc (length ks)" and r: "nodes m right = Some x" "right \<noteq> par"
  shows "\<exists>n1. bptree_insert_into_internal m par i key right =
      Some (mem_upd m 0 ((nodes m)(right \<mapsto> x\<lparr>parent := par\<rparr>, par \<mapsto> n1))) \<and>
    int_node n1 p (ins_at i key ks) (ins_at (Suc i) right cs) \<and> next_leaf n1 = next_leaf n"
proof -
  have ln: "num_keys n = length ks" "length (keys n) = 3" "length (children n) = 4"
    "take (length ks) (keys n) = ks" "take (Suc (length ks)) (children n) = cs"
    using n(2) by (simp_all add: int_node_def)
  obtain ys where ys: "arr_shift (keys n) i (length ks) = Some ys" "length ys = 3"
    "\<And>x. ys[i := x] = ins_at i x ks @ drop (Suc (length ks)) (keys n)"
    using arr_shift_spec [of i "length ks" "keys n"] ln n(3) i by auto
  obtain zs where zs: "arr_shift (children n) (Suc i) (Suc (length ks)) = Some zs" "length zs = 4"
    "\<And>x. zs[Suc i := x] = ins_at (Suc i) x cs @ drop (Suc (Suc (length ks))) (children n)"
    using arr_shift_spec [of "Suc i" "Suc (length ks)" "children n"] ln n(3) i by auto
  let ?n1 = "n\<lparr>keys := ys[i := key], children := zs[Suc i := right], num_keys := Suc (length ks)\<rparr>"
  have "bptree_insert_into_internal m par i key right =
      Some (mem_upd m 0 ((nodes m)(right \<mapsto> x\<lparr>parent := par\<rparr>, par \<mapsto> ?n1)))"
    using n(1,3) ln ys(1,2) zs(1,2) r i
    by (simp add: bptree_insert_into_internal_def set_node_mem_upd set_parent_mem_upd del: arr_shift.simps)
  moreover have "int_node ?n1 p (ins_at i key ks) (ins_at (Suc i) right cs)"
    using n(2,3) ys zs cs by (simp add: int_node_def)
  ultimately show ?thesis by (intro exI conjI) (assumption | simp)+
qed

section \<open>Insertion into the parent refines \<open>insert_up\<close>\<close>

definition next_of :: "(ptr \<Rightarrow> BPTreeNode option) \<Rightarrow> ptr \<Rightarrow> ptr option" where
  "next_of h a = map_option next_leaf (h a)"

lemma next_of_parent_update [simp]:
  "map_option next_leaf (map_option (parent_update f) x) = map_option next_leaf x"
  by (cases x) auto

lemma addrs_disjoint: "set (addrs t) \<inter> S = {} \<Longrightarrow> addr t \<notin> S"
  using addr_in_addrs [of t] by (simp only: disjoint_iff) blast

lemma addr_plug_cong: "addr t = addr u \<Longrightarrow> addr (plug fs t) = addr (plug fs u)"
  by (induction fs arbitrary: t u) (auto, metis atree.sel(2) frame.exhaust plug.simps(2))

definition up_post ::
  "'a bpt_mem_scheme \<Rightarrow> (ptr \<Rightarrow> BPTreeNode option) \<Rightarrow> BPTree \<Rightarrow> atree \<Rightarrow> bool" where
  "up_post m h tree t \<longleftrightarrow> rep h NULL t \<and> root tree = addr t \<and>
     (\<forall>a. a \<notin> set (addrs t) \<longrightarrow> h a = nodes m a) \<and> (\<forall>a < brk m. next_of h a = next_of (nodes m) a)"

definition up_pre ::
  "'a bpt_mem_scheme \<Rightarrow> BPTree \<Rightarrow> frame list \<Rightarrow> atree \<Rightarrow> atree \<Rightarrow> bool" where
  "up_pre m tree fs l r \<longleftrightarrow> rep (nodes m) (hole_parent fs) l \<and> (\<exists>q. rep (nodes m) q r) \<and>
     ctx_rep (nodes m) fs (addr l) \<and> ctx_filled fs \<and>
     distinct (addrs l @ addrs r @ ctx_addrs fs) \<and>
     (\<forall>a \<in> set (addrs l @ addrs r @ ctx_addrs fs). NULL < a \<and> a < brk m) \<and>
     no_oom m \<and> root tree = addr (plug fs l)"

lemma create_new_root_spec:
  assumes pre: "up_pre m tree [] l r"
  shows "\<exists>h tree'. bptree_create_new_root m tree (addr l) k (addr r) = Some (mem_upd m 1 h, tree', True) \<and>
    up_post m h tree' (Nd (brk m) [k] [l, r])"
proof -
  obtain nl where nl: "nodes m (addr l) = Some nl" using pre rep_node unfolding up_pre_def by metis
  obtain nr where nr: "nodes m (addr r) = Some nr" using pre rep_node unfolding up_pre_def by metis
  have lr: "addr l \<notin> set (addrs r)" "addr r \<notin> set (addrs l)"
    using pre by (auto intro!: addrs_disjoint simp: up_pre_def)
  then have "addr l \<noteq> addr r" by (metis addr_in_addrs)
  note lr = this lr
  have b: "addr l < brk m" "addr r < brk m" using pre by (auto simp: up_pre_def)
  then have b0: "0 < brk m" "addr l \<noteq> brk m" "addr r \<noteq> brk m" by simp_all
  have nb: "brk m \<notin> set (addrs l)" "brk m \<notin> set (addrs r)" using pre by (auto simp: up_pre_def)
  note b = b0 nb
  let ?n = "zero_node\<lparr>is_leaf := False, keys := [k, 0, 0], children := [addr l, addr r, NULL, NULL], num_keys := 1\<rparr>"
  let ?h = "(nodes m)(brk m \<mapsto> ?n, addr l \<mapsto> nl\<lparr>parent := brk m\<rparr>, addr r \<mapsto> nr\<lparr>parent := brk m\<rparr>)"
  have run: "bptree_create_new_root m tree (addr l) k (addr r) =
    Some (mem_upd m 1 ?h, tree\<lparr>root := brk m\<rparr>, True)"
    using pre nl nr lr b
    by (simp add: bptree_create_new_root_def create_node_ok up_pre_def set_parent_mem_upd arr_set_def)
  obtain q where q: "rep (nodes m) NULL l" "rep (nodes m) q r" "distinct (addrs l)" "distinct (addrs r)"
    using pre by (auto simp: up_pre_def)
  have "rep ?h (brk m) l"
    using lr nl b by (intro rep_reparent [OF q(1,3)]) auto
  moreover have "rep ?h (brk m) r"
    using lr nr b by (intro rep_reparent [OF q(2,4)]) auto
  moreover have "int_node ?n NULL [k] [addr l, addr r]" by (simp add: int_node_def eval_nat_numeral)
  ultimately have "rep ?h NULL (Nd (brk m) [k] [l, r])" using b by auto
  moreover have "?h a = nodes m a" if "a \<notin> set (addrs (Nd (brk m) [k] [l, r]))" for a
    using that by auto
  moreover have "next_of ?h a = next_of (nodes m) a" if "a < brk m" for a
    using that nl nr by (auto simp: next_of_def)
  ultimately have "up_post m ?h (tree\<lparr>root := brk m\<rparr>) (Nd (brk m) [k] [l, r])"
    by (simp add: up_post_def)
  with run show ?thesis by blast
qed

lemma nodes_of_frame:
  assumes "ctx_rep h (Fr a ks ls rs # fs) (addr l)" "distinct (addrs l @ addrs r @ ctx_addrs (Fr a ks ls rs # fs))"
    "length ls + length rs = length ks" "length ks \<le> 3"
  shows "\<exists>n. h a = Some n \<and> int_node n (hole_parent fs) ks (map addr (ls @ l # rs)) \<and>
    bptree_child_position (children n) (num_keys n) (addr l) 0 = Some (length ls)"
proof -
  obtain n where n: "h a = Some n" "int_node n (hole_parent fs) ks (map addr (ls @ l # rs))"
    using assms(1) by (auto split: option.splits)
  have ch: "children n ! j = map addr (ls @ l # rs) ! j" if "j \<le> length ks" for j
    using n(2) that nth_take [of j "Suc (length ks)" "children n"] by (simp add: int_node_def)
  have ne: "children n ! j \<noteq> addr l" if "j < length ls" for j
  proof -
    have "children n ! j = addr (ls ! j)" using ch [of j] that assms(3) by (simp add: nth_append)
    moreover have "addr (ls ! j) \<in> set (concat (map addrs ls))" using that by (auto intro!: bexI [of _ "ls ! j"])
    moreover have "addr l \<notin> set (concat (map addrs ls))"
      using assms(2) by (intro addrs_disjoint) auto
    ultimately show ?thesis by metis
  qed
  have "bptree_child_position (children n) (num_keys n) (addr l) 0 = Some (length ls)"
    using n(2) assms(3,4) ch [of "length ls"] ne
    by (intro child_position_from) (auto simp: int_node_def nth_append)
  with n show ?thesis by blast
qed

lemma ins_at_map_addr:
  "ins_at (Suc (length ls)) (addr r) (map addr (ls @ l # rs)) = map addr (ls @ l # r # rs)"
  by (simp add: ins_at_def)

lemma insert_into_internal_up:
  assumes pre: "up_pre m tree (Fr a ks ls rs # fs) l r" and ks: "length ks < 3"
  shows "\<exists>h. bptree_insert_into_internal m a (length ls) k (addr r) = Some (mem_upd m 0 h) \<and>
    up_post m h tree (plug fs (Nd a (ins_at (length ls) k ks) (ls @ l # r # rs)))"
proof -
  have len: "length ls + length rs = length ks" using pre by (simp add: up_pre_def)
  have dist: "distinct (addrs l @ addrs r @ ctx_addrs (Fr a ks ls rs # fs))" using pre by (simp add: up_pre_def)
  obtain q where q: "rep (nodes m) q r" using pre by (auto simp: up_pre_def)
  obtain n where n: "nodes m a = Some n" "int_node n (hole_parent fs) ks (map addr (ls @ l # rs))"
    using nodes_of_frame [OF _ dist len, of "nodes m"] pre ks by (auto simp: up_pre_def)
  obtain x where x: "nodes m (addr r) = Some x" using q rep_node by metis
  have rd: "addr r \<notin> set (addrs l @ ctx_addrs (Fr a ks ls rs # fs))"
    using dist by (intro addrs_disjoint) auto
  then have ra: "addr r \<noteq> a" by auto
  from insert_into_internal_spec [OF n ks _ _ x ra, of "length ls" k] len obtain n1 where
    run: "bptree_insert_into_internal m a (length ls) k (addr r) =
      Some (mem_upd m 0 ((nodes m)(addr r \<mapsto> x\<lparr>parent := a\<rparr>, a \<mapsto> n1)))"
    and n1: "int_node n1 (hole_parent fs) (ins_at (length ls) k ks) (map addr (ls @ l # r # rs))"
      "next_leaf n1 = next_leaf n"
    by (auto simp: ins_at_map_addr simp del: map_append)
  let ?h = "(nodes m)(addr r \<mapsto> x\<lparr>parent := a\<rparr>, a \<mapsto> n1)"
  let ?t = "Nd a (ins_at (length ls) k ks) (ls @ l # r # rs)"
  have frame: "?h b = nodes m b" if "b \<noteq> a" "b \<noteq> addr r" for b using that by simp
  have "rep ?h a t" if "t \<in> set (ls @ l # r # rs)" for t
  proof (cases "t = r")
    case True
    have "a \<notin> set (addrs r)" "distinct (addrs r)" using dist by auto
    with ra x show ?thesis unfolding True by (intro rep_reparent [OF q]) auto
  next
    case False
    with that have t: "t = l \<or> t \<in> set ls \<or> t \<in> set rs" by auto
    have "a \<notin> set (addrs t)" "addr r \<notin> set (addrs t)"
      using dist t rd by auto
    then have "rep ?h a t = rep (nodes m) a t" by (intro rep_cong) auto
    then show ?thesis using pre t by (auto simp: up_pre_def)
  qed
  with n1(1) have "rep ?h (hole_parent fs) ?t" by simp
  moreover have "ctx_rep ?h fs a"
  proof -
    have "ctx_rep ?h fs a = ctx_rep (nodes m) fs a"
      using dist rd by (intro ctx_rep_cong) auto
    then show ?thesis using pre by (simp add: up_pre_def)
  qed
  ultimately have "rep ?h NULL (plug fs ?t)" by (simp add: rep_plug)
  moreover have "root tree = addr (plug fs ?t)"
    using pre addr_plug_cong [of "Nd a ks (ls @ l # rs)" ?t fs] by (simp add: up_pre_def)
  moreover have "?h b = nodes m b" if "b \<notin> set (addrs (plug fs ?t))" for b
    using that by (intro frame) (auto simp: set_addrs_plug)
  moreover have "next_of ?h b = next_of (nodes m) b" for b
    using n n1(2) x by (auto simp: next_of_def)
  ultimately have "up_post m ?h tree (plug fs ?t)" by (simp add: up_post_def)
  with run show ?thesis by blast
qed

lemma distinct_concat_unique:
  assumes "distinct (concat (map f ts))" "t \<in> set ts" "u \<in> set ts" "x \<in> set (f t)" "x \<in> set (f u)"
  shows "t = u"
  using assms by (induction ts) auto

lemma split_internal_up:
  assumes pre: "up_pre m tree (Fr a ks ls rs # fs) l r" and ks: "length ks = 3"
    and ks': "ks' = ins_at (length ls) k ks" and ts': "ts' = ls @ l # r # rs"
  shows "\<exists>h. bptree_split_internal m a (length ls) k (addr r) = Some (mem_upd m 1 h, Some (ks' ! 2, brk m)) \<and>
    up_pre (mem_upd m 1 h) tree fs (Nd a (take 2 ks') (take 3 ts')) (Nd (brk m) (drop 3 ks') (drop 3 ts')) \<and>
    (\<forall>b. b \<notin> insert a (insert (brk m) (set (concat (map addrs ts')))) \<longrightarrow> h b = nodes m b) \<and>
    (\<forall>b < brk m. next_of h b = next_of (nodes m) b)"
proof -
  have len: "length ls + length rs = length ks" using pre by (simp add: up_pre_def)
  have dist: "distinct (addrs l @ addrs r @ ctx_addrs (Fr a ks ls rs # fs))" using pre by (simp add: up_pre_def)
  have bound: "0 < b" "b < brk m" if "b \<in> set (concat (map addrs ts')) \<union> set (a # ctx_addrs fs)" for b
    using that pre by (auto simp: up_pre_def ts')
  have dts: "distinct (concat (map addrs ts'))" "a \<notin> set (concat (map addrs ts'))"
    "set (concat (map addrs ts')) \<inter> set (ctx_addrs fs) = {}" "a \<notin> set (ctx_addrs fs)" "distinct (ctx_addrs fs)"
    using dist by (auto simp: ts')
  have reps: "\<exists>q. rep (nodes m) q t" if "t \<in> set ts'" for t
    using that pre by (auto simp: up_pre_def ts')
  obtain n where n: "nodes m a = Some n" "int_node n (hole_parent fs) ks (map addr (ls @ l # rs))"
    using nodes_of_frame [OF _ dist len, of "nodes m"] pre ks by (auto simp: up_pre_def)
  define cs' where "cs' = map addr ts'"
  have cs': "cs' = ins_at (Suc (length ls)) (addr r) (map addr (ls @ l # rs))"
    by (simp only: cs'_def ts' ins_at_map_addr)
  have sub: "set cs' \<subseteq> set (concat (map addrs ts'))" by (auto simp: cs'_def)
  have dcs: "distinct cs'"
  proof -
    have "distinct (concat (map addrs us)) \<Longrightarrow> distinct (map addr us)" for us
    proof (induction us)
      case (Cons u us)
      have "addr u \<notin> set (concat (map addrs us))" using Cons.prems by (intro addrs_disjoint) auto
      then have "addr u \<notin> addr ` set us" using addr_in_addrs by auto
      with Cons show ?case by simp
    qed simp
    with dts(1) show ?thesis by (simp add: cs'_def)
  qed
  have newb: "brk m \<notin> set cs'" "brk m \<noteq> a" "0 < brk m" "NULL \<notin> set cs'"
  proof -
    show "brk m \<notin> set cs'" using bound(2) [of "brk m"] sub by blast
    show "brk m \<noteq> a" "0 < brk m" using bound [of a] by auto
    show "NULL \<notin> set cs'" using bound(1) [of 0] sub by blast
  qed
  have alloc: "\<forall>c \<in> set cs'. nodes m c \<noteq> None"
    using reps rep_node by (fastforce simp: cs'_def)
  have oom: "no_oom m" using pre by (simp add: up_pre_def)
  have da: "distinct (a # cs')" using dcs dts(2) sub by auto
  from split_internal_spec [OF n ks _ ks' cs' oom newb(3,1,2) da newb(4) alloc] len ks
  obtain h n1 n2 where
    run: "bptree_split_internal m a (length ls) k (addr r) = Some (mem_upd m 1 h, Some (ks' ! 2, brk m))"
    and n1: "h a = Some n1" "int_node n1 (hole_parent fs) (take 2 ks') (take 3 cs')" "next_leaf n1 = next_leaf n"
    and n2: "h (brk m) = Some n2" "int_node n2 (hole_parent fs) (drop 3 ks') (drop 3 cs')"
    and hl: "\<forall>c \<in> set (take 3 cs'). h c = map_option (parent_update (\<lambda>_. a)) (nodes m c)"
    and hr: "\<forall>c \<in> set (drop 3 cs'). h c = map_option (parent_update (\<lambda>_. brk m)) (nodes m c)"
    and frame: "\<forall>b. b \<notin> insert a (insert (brk m) (set cs')) \<longrightarrow> h b = nodes m b"
    by auto
  have inner: "h b = nodes m b" if "t \<in> set ts'" "b \<in> set (addrs t)" "b \<noteq> addr t" for t b
  proof -
    have "b \<notin> set cs'"
    proof
      assume "b \<in> set cs'"
      then obtain u where u: "u \<in> set ts'" "b = addr u" by (auto simp: cs'_def)
      then have "t = u" using distinct_concat_unique [OF dts(1) that(1) u(1) that(2)] by simp
      with u that show False by simp
    qed
    moreover have "b \<noteq> a" "b \<noteq> brk m" using that(1,2) dts(2) bound [of b] by auto
    ultimately show ?thesis using frame by simp
  qed
  have dt: "distinct (addrs t)" if "t \<in> set ts'" for t
    using that dts(1) by (simp add: distinct_concat_iff)
  have re: "rep h p t" if tt: "t \<in> set ts'" and ht: "h (addr t) = map_option (parent_update (\<lambda>_. p)) (nodes m (addr t))" for t p
  proof -
    obtain q where q: "rep (nodes m) q t" using reps [OF tt] by blast
    show ?thesis
      by (rule rep_reparent [of "nodes m" q t h p]) (use q dt inner tt ht in auto)
  qed
  have "rep h a t" if "t \<in> set (take 3 ts')" for t
    using that hl by (intro re) (auto simp: cs'_def take_map dest: in_set_takeD)
  with n1 have l': "rep h (hole_parent fs) (Nd a (take 2 ks') (take 3 ts'))"
    by (simp add: cs'_def take_map)
  have "rep h (brk m) t" if "t \<in> set (drop 3 ts')" for t
    using that hr by (intro re) (auto simp: cs'_def drop_map dest: in_set_dropD)
  with n2 have r': "rep h (hole_parent fs) (Nd (brk m) (drop 3 ks') (drop 3 ts'))"
    by (simp add: cs'_def drop_map)
  have fsame: "h b = nodes m b" if "b \<in> set (ctx_addrs fs)" for b
  proof -
    have "b \<notin> set cs'" using that dts(3) sub by blast
    moreover have "b \<noteq> a" "b \<noteq> brk m" using that dts(4) bound(2) [of b] by auto
    ultimately show ?thesis using frame by simp
  qed
  have c': "ctx_rep h fs a"
    using ctx_rep_cong [of fs h "nodes m" a] fsame pre by (simp add: up_pre_def)
  have "mset (concat (map addrs (take 3 ts'))) + mset (concat (map addrs (drop 3 ts'))) = mset (concat (map addrs ts'))"
    by (metis mset_append take_drop_map_concat)
  then have perm: "mset (addrs (Nd a (take 2 ks') (take 3 ts')) @ addrs (Nd (brk m) (drop 3 ks') (drop 3 ts')) @ ctx_addrs fs) =
    mset (a # brk m # concat (map addrs ts') @ ctx_addrs fs)" by simp
  have "distinct (a # brk m # concat (map addrs ts') @ ctx_addrs fs)"
    using dts newb bound [of "brk m"] by auto
  then have d': "distinct (addrs (Nd a (take 2 ks') (take 3 ts')) @ addrs (Nd (brk m) (drop 3 ks') (drop 3 ts')) @ ctx_addrs fs)"
    using perm mset_eq_imp_distinct_iff by blast
  have seq: "set (addrs (Nd a (take 2 ks') (take 3 ts')) @ addrs (Nd (brk m) (drop 3 ks') (drop 3 ts')) @ ctx_addrs fs) =
    set (a # brk m # concat (map addrs ts') @ ctx_addrs fs)"
    using perm by (metis set_mset_mset)
  have b': "0 < b \<and> b < brk m + 1" if "b \<in> set (addrs (Nd a (take 2 ks') (take 3 ts')) @
      addrs (Nd (brk m) (drop 3 ks') (drop 3 ts')) @ ctx_addrs fs)" for b
  proof (cases "b = brk m")
    case False
    then have "b \<in> set (concat (map addrs ts')) \<union> set (a # ctx_addrs fs)" using that unfolding seq by auto
    from bound [OF this] show ?thesis by simp
  qed (use newb(3) in simp)
  have root': "root tree = addr (plug fs (Nd a (take 2 ks') (take 3 ts')))"
    using pre addr_plug_cong [of "Nd a ks (ls @ l # rs)" "Nd a (take 2 ks') (take 3 ts')" fs] by (simp add: up_pre_def)
  have "up_pre (mem_upd m 1 h) tree fs (Nd a (take 2 ks') (take 3 ts')) (Nd (brk m) (drop 3 ks') (drop 3 ts'))"
    using l' r' c' d' b' root' pre unfolding up_pre_def by (auto simp del: addrs.simps rep.simps)
  moreover have "h b = nodes m b" if "b \<notin> insert a (insert (brk m) (set (concat (map addrs ts'))))" for b
    using that frame sub by blast
  moreover have "next_of h b = next_of (nodes m) b" if "b < brk m" for b
  proof (cases "b \<in> set cs'")
    case True
    then have "b \<in> set (take 3 cs') \<or> b \<in> set (drop 3 cs')" by (metis Un_iff append_take_drop_id set_append)
    with hl hr show ?thesis by (auto simp: next_of_def)
  next
    case False
    with n n1 that frame show ?thesis by (cases "b = a") (auto simp: next_of_def)
  qed
  ultimately show ?thesis using run by blast
qed

theorem insert_into_parent_refines:
  assumes "up_pre m tree fs l r"
  shows "\<exists>h tree'. bptree_insert_into_parent m tree (addr l) k (addr r) =
      Some (mem_upd m (new_nodes fs) h, tree', True) \<and> up_post m h tree' (insert_up (brk m) fs l k r)"
  using assms
proof (induction fs arbitrary: m l k r)
  case Nil
  obtain nl where "nodes m (addr l) = Some nl" "parent nl = NULL"
    using Nil rep_node unfolding up_pre_def by (metis hole_parent.simps(1))
  then have "bptree_insert_into_parent m tree (addr l) k (addr r) =
    bptree_create_new_root m tree (addr l) k (addr r)"
    by (subst bptree_insert_into_parent.simps) simp
  with create_new_root_spec [OF Nil, of k] show ?case by simp
next
  case (Cons f fs)
  obtain a ks ls rs where f: "f = Fr a ks ls rs" by (cases f)
  note pre = Cons.prems [unfolded f]
  have len: "length ls + length rs = length ks" "length ks \<le> 3" "0 < a" using pre by (auto simp: up_pre_def)
  obtain nl where nl: "nodes m (addr l) = Some nl" "parent nl = a"
    using pre rep_node unfolding up_pre_def by (metis hole_parent.simps(2))
  obtain n where n: "nodes m a = Some n" "int_node n (hole_parent fs) ks (map addr (ls @ l # rs))"
    "bptree_child_position (children n) (num_keys n) (addr l) 0 = Some (length ls)"
    using nodes_of_frame [of "nodes m" a ks ls rs fs l r] pre len by (auto simp: up_pre_def)
  have nk: "num_keys n = length ks" using n(2) by (simp add: int_node_def)
  show ?case
  proof (cases "length ks < 3")
    case True
    from insert_into_internal_up [OF pre True, of k] obtain h where
      h: "bptree_insert_into_internal m a (length ls) k (addr r) = Some (mem_upd m 0 h)"
        "up_post m h tree (plug fs (Nd a (ins_at (length ls) k ks) (ls @ l # r # rs)))" by blast
    then have "bptree_insert_into_parent m tree (addr l) k (addr r) = Some (mem_upd m 0 h, tree, True)"
      using nl n nk True len by (subst bptree_insert_into_parent.simps) simp
    moreover have "insert_up (brk m) (f # fs) l k r = plug fs (Nd a (ins_at (length ls) k ks) (ls @ l # r # rs))"
      "new_nodes (f # fs) = 0"
      using True by (simp_all add: f Let_def)
    ultimately show ?thesis using h(2) by metis
  next
    case False
    define ks' ts' where "ks' = ins_at (length ls) k ks" and "ts' = ls @ l # r # rs"
    let ?l = "Nd a (take 2 ks') (take 3 ts')" and ?r = "Nd (brk m) (drop 3 ks') (drop 3 ts')"
    have ks: "length ks = 3" using False len by simp
    from split_internal_up [OF pre ks ks'_def ts'_def] obtain h where
      run: "bptree_split_internal m a (length ls) k (addr r) = Some (mem_upd m 1 h, Some (ks' ! 2, brk m))"
      and pre': "up_pre (mem_upd m 1 h) tree fs ?l ?r"
      and fr: "\<forall>b. b \<notin> insert a (insert (brk m) (set (concat (map addrs ts')))) \<longrightarrow> h b = nodes m b"
        "\<forall>b < brk m. next_of h b = next_of (nodes m) b"
      by blast
    from Cons.IH [OF pre', of "ks' ! 2"] obtain h' tree' where
      run': "bptree_insert_into_parent (mem_upd m 1 h) tree a (ks' ! 2) (brk m) =
        Some (mem_upd m (Suc (new_nodes fs)) h', tree', True)"
      and post: "up_post (mem_upd m 1 h) h' tree' (insert_up (Suc (brk m)) fs ?l (ks' ! 2) ?r)"
      by (auto simp del: insert_up.simps)
    let ?t = "insert_up (Suc (brk m)) fs ?l (ks' ! 2) ?r"
    have "bptree_insert_into_parent m tree (addr l) k (addr r) =
      Some (mem_upd m (Suc (new_nodes fs)) h', tree', True)"
      using nl n nk False len run run' by (subst bptree_insert_into_parent.simps) simp
    moreover have sub: "insert a (insert (brk m) (set (concat (map addrs ts')))) \<subseteq> set (addrs ?t)"
    proof -
      have "set (addrs ?t) = set (addrs ?l @ addrs ?r @ ctx_addrs fs @ [Suc (brk m) ..< Suc (brk m) + new_nodes fs])"
        using mset_addrs_insert_up by (metis set_mset_mset)
      moreover have "set (concat (map addrs ts')) = set (concat (map addrs (take 3 ts'))) \<union> set (concat (map addrs (drop 3 ts')))"
        by (metis set_append take_drop_map_concat)
      ultimately show ?thesis by auto
    qed
    moreover have "h' b = nodes m b" if "b \<notin> set (addrs ?t)" for b
      using that post fr(1) contra_subsetD [OF sub that] by (simp add: up_post_def)
    then have "up_post m h' tree' ?t"
      using post fr(2) by (simp add: up_post_def)
    moreover have "insert_up (brk m) (f # fs) l k r = ?t"
      using False by (simp add: f Let_def ks'_def ts'_def)
    moreover have "new_nodes (f # fs) = Suc (new_nodes fs)" using False by (simp add: f)
    ultimately show ?thesis by metis
  qed
qed

section \<open>Sorted association lists\<close>

definition ins_kv :: "int \<Rightarrow> 'v \<Rightarrow> (int \<times> 'v) list \<Rightarrow> (int \<times> 'v) list" where
  "ins_kv key v kvs = ins_at (length (takeWhile (\<lambda>k. k < key) (map fst kvs))) (key, v) kvs"

lemma ins_kv_Nil [simp]: "ins_kv key v [] = [(key, v)]"
  by (simp add: ins_kv_def ins_at_def)

lemma ins_kv_Cons:
  "ins_kv key v (kv # kvs) = (if fst kv < key then kv # ins_kv key v kvs else (key, v) # kv # kvs)"
  by (simp add: ins_kv_def ins_at_def)

lemma length_ins_kv [simp]: "length (ins_kv key v kvs) = Suc (length kvs)"
  by (simp add: ins_kv_def)

lemma set_ins_kv: "set (ins_kv key v kvs) = insert (key, v) (set kvs)"
  by (induction kvs) (auto simp: ins_kv_Cons)

lemma ins_kv_append:
  assumes "\<forall>kv \<in> set xs. fst kv < key" "\<forall>kv \<in> set zs. key < fst kv"
  shows "ins_kv key v (xs @ ys @ zs) = xs @ ins_kv key v ys @ zs"
proof -
  have "ins_kv key v (ys @ zs) = ins_kv key v ys @ zs"
    using assms(2) by (induction ys) (cases zs; auto simp: ins_kv_Cons)+
  with assms(1) show ?thesis by (induction xs) (auto simp: ins_kv_Cons)
qed

lemma sorted_ins_kv:
  assumes "sorted_wrt (<) (map fst kvs)" "key \<notin> fst ` set kvs"
  shows "sorted_wrt (<) (map fst (ins_kv key v kvs))"
  using assms
proof (induction kvs)
  case (Cons kv kvs)
  then have "fst kv \<noteq> key" by auto
  with Cons show ?case by (auto simp: ins_kv_Cons set_ins_kv)
qed simp

lemma map_of_ins_kv:
  assumes "sorted_wrt (<) (map fst kvs)" "key \<notin> fst ` set kvs"
  shows "map_of (ins_kv key v kvs) = (map_of kvs)(key \<mapsto> v)"
  using assms
proof (induction kvs)
  case (Cons kv kvs)
  then show ?case by (cases kv) (auto simp: ins_kv_Cons fun_eq_iff)
qed simp

lemma ins_kv_last:
  assumes "\<forall>kv \<in> set kvs. fst kv < key"
  shows "ins_kv key v kvs = kvs @ [(key, v)]"
  using ins_kv_append [of kvs key "[]" v "[]"] assms by simp

section \<open>Insertion on addressed trees\<close>

definition ins_tree :: "ptr \<Rightarrow> int \<Rightarrow> ptr \<Rightarrow> atree \<Rightarrow> atree" where
  "ins_tree new key v t =
     (case path key [] t of
        (fs, Lf a kvs) \<Rightarrow>
          let kvs' = ins_kv key v kvs
          in if length kvs < 3 then plug fs (Lf a kvs')
             else insert_up (Suc new) fs (Lf a (take 2 kvs')) (fst (kvs' ! 2)) (Lf new (drop 2 kvs'))
      | (fs, Nd a ks ts) \<Rightarrow> t)"

lemma weave_sup: "x \<in> set xs \<Longrightarrow> set x \<subseteq> set (weave xs ks)"
  by (induction xs ks rule: weave.induct) auto

lemma wtail_sup: "x \<in> set xs \<Longrightarrow> set x \<subseteq> set (wtail xs ks)"
  by (cases ks) (auto dest: weave_sup)

definition ctx_pairs_l :: "frame list \<Rightarrow> (int \<times> ptr) list" where
  "ctx_pairs_l fs = concat (map snd (ctx_leaves_l fs))"

definition ctx_pairs_r :: "frame list \<Rightarrow> (int \<times> ptr) list" where
  "ctx_pairs_r fs = concat (map snd (ctx_leaves_r fs))"

lemma pairs_plug: "pairs (plug fs t) = ctx_pairs_l fs @ pairs t @ ctx_pairs_r fs"
  by (simp add: pairs_def leaves_plug ctx_pairs_l_def ctx_pairs_r_def)

lemma pairs_insert_up:
  "pairs (insert_up new fs l k r) = ctx_pairs_l fs @ pairs l @ pairs r @ ctx_pairs_r fs"
  by (simp add: pairs_def leaves_insert_up ctx_pairs_l_def ctx_pairs_r_def)

lemma concat_snd_leaves: "concat (map snd (concat (map leaves ts))) = concat (map pairs ts)"
  by (induction ts) (auto simp: pairs_def)

lemma ctx_pairs_simps [simp]:
  "ctx_pairs_l [] = []" "ctx_pairs_l (Fr a ks ls rs # fs) = ctx_pairs_l fs @ concat (map pairs ls)"
  "ctx_pairs_r [] = []" "ctx_pairs_r (Fr a ks ls rs # fs) = concat (map pairs rs) @ ctx_pairs_r fs"
  by (simp_all add: ctx_pairs_l_def ctx_pairs_r_def concat_snd_leaves)

lemma ctx_pairs_flat:
  assumes "ctx_filled fs"
  shows "kv \<in> set (ctx_pairs_l fs) \<Longrightarrow> 2 * fst kv + 1 \<in> set (ctx_flat_l fs)"
    and "kv \<in> set (ctx_pairs_r fs) \<Longrightarrow> 2 * fst kv + 1 \<in> set (ctx_flat_r fs)"
proof -
  have key: "2 * fst kv + 1 \<in> set (flat t)" if "filled t" "kv \<in> set (pairs t)" for t kv
    using that key_in_flat [of t "fst kv"] filled_imp_root_filled by blast
  have "(kv \<in> set (ctx_pairs_l fs) \<longrightarrow> 2 * fst kv + 1 \<in> set (ctx_flat_l fs)) \<and>
    (kv \<in> set (ctx_pairs_r fs) \<longrightarrow> 2 * fst kv + 1 \<in> set (ctx_flat_r fs))"
    using assms
  proof (induction fs)
    case (Cons f fs)
    obtain a ks ls rs where f: "f = Fr a ks ls rs" by (cases f)
    have l: "2 * fst kv + 1 \<in> set (weave (map flat ls) qs)" if "t \<in> set ls" "kv \<in> set (pairs t)" for t qs
      using that key [of t kv] Cons.prems weave_sup [of "flat t" "map flat ls" qs] by (auto simp: f)
    have r: "2 * fst kv + 1 \<in> set (wtail (map flat rs) qs)" if "t \<in> set rs" "kv \<in> set (pairs t)" for t qs
      using that key [of t kv] Cons.prems wtail_sup [of "flat t" "map flat rs" qs] by (auto simp: f)
    from Cons l r show ?case by (auto simp: f)
  qed simp
  then show "kv \<in> set (ctx_pairs_l fs) \<Longrightarrow> 2 * fst kv + 1 \<in> set (ctx_flat_l fs)"
    and "kv \<in> set (ctx_pairs_r fs) \<Longrightarrow> 2 * fst kv + 1 \<in> set (ctx_flat_r fs)" by blast+
qed

text \<open>What the path to the leaf of a key gives in a well-formed tree.\<close>

lemma path_wf:
  assumes "wf_tree t" "path key [] t = (fs, l)"
  shows "plug fs l = t" "ctx_filled fs" "\<exists>a kvs. l = Lf a kvs"
    "\<forall>x \<in> set (ctx_flat_l fs). x < 2 * key + 1" "\<forall>x \<in> set (ctx_flat_r fs). 2 * key + 1 < x"
    "\<forall>kv \<in> set (ctx_pairs_l fs). fst kv < key" "\<forall>kv \<in> set (ctx_pairs_r fs). key < fst kv"
    "flat t = ctx_flat_l fs @ flat l @ ctx_flat_r fs"
    "pairs t = ctx_pairs_l fs @ pairs l @ ctx_pairs_r fs"
proof -
  have t: "root_filled t" "sorted_wrt (<) (flat t)" using assms(1) by (simp_all add: wf_tree_def)
  show p: "plug fs l = t" using plug_path [OF assms(2)] by simp
  show c: "ctx_filled fs" and "\<exists>a kvs. l = Lf a kvs" using path_leaf [OF assms(2) t(1)] by auto
  show b: "\<forall>x \<in> set (ctx_flat_l fs). x < 2 * key + 1" "\<forall>x \<in> set (ctx_flat_r fs). 2 * key + 1 < x"
    using path_bounds [OF assms(2) t(1) _ t(2)] by auto
  show "\<forall>kv \<in> set (ctx_pairs_l fs). fst kv < key" "\<forall>kv \<in> set (ctx_pairs_r fs). key < fst kv"
    using ctx_pairs_flat [OF c] b by fastforce+
  show "flat t = ctx_flat_l fs @ flat l @ ctx_flat_r fs" using flat_plug [OF c, of l] p by simp
  show "pairs t = ctx_pairs_l fs @ pairs l @ ctx_pairs_r fs" using pairs_plug [of fs l] p by simp
qed

lemma map_of_path:
  assumes "wf_tree t" "path key [] t = (fs, Lf a kvs)"
  shows "map_of (pairs t) key = map_of kvs key"
proof -
  note w = path_wf [OF assms]
  have "key \<notin> fst ` set (ctx_pairs_l fs)" "key \<notin> fst ` set (ctx_pairs_r fs)" using w(6,7) by force+
  then have "map_of (ctx_pairs_l fs) key = None" "map_of (ctx_pairs_r fs) key = None"
    by (simp_all add: map_of_eq_None_iff)
  then show ?thesis using w(9) by (auto simp: map_add_def split: option.splits)
qed

lemma pairs_ins_tree:
  assumes "wf_tree t"
  shows "pairs (ins_tree new key v t) = ins_kv key v (pairs t)"
proof -
  obtain fs l where p: "path key [] t = (fs, l)" by (cases "path key [] t")
  note w = path_wf [OF assms p]
  from w(3) obtain a kvs where l: "l = Lf a kvs" by blast
  have "pairs (ins_tree new key v t) = ctx_pairs_l fs @ ins_kv key v kvs @ ctx_pairs_r fs"
  proof (cases "length kvs < 3")
    case True
    then show ?thesis by (simp add: ins_tree_def p l Let_def pairs_plug)
  next
    case False
    then show ?thesis
      using append_take_drop_id [of 2 "ins_kv key v kvs"]
      by (simp add: ins_tree_def p l Let_def pairs_insert_up del: append_take_drop_id)
  qed
  also have "\<dots> = ins_kv key v (pairs t)" using w by (simp add: ins_kv_append l)
  finally show ?thesis .
qed


lemma path_bal:
  assumes "path key fs t = (fs', l)" "root_filled t" "bal n t" "ctx_bal n fs"
  shows "ctx_bal 0 fs'"
  using assms
proof (induction key fs t arbitrary: n rule: path.induct)
  case (2 key fs a ks ts)
  define i where "i = child_ix key ks"
  have i: "i < length ts" using child_ix_le [of key ks] "2.prems"(2) by (simp add: i_def)
  obtain n' where n: "n = Suc n'" using "2.prems"(3) by (cases n) auto
  have "filled (ts ! i)" "bal n' (ts ! i)" using i "2.prems"(2,3) n by auto
  moreover have "ctx_bal n' (Fr a ks (take i ts) (drop (Suc i) ts) # fs)"
    using i "2.prems"(3,4) n by (auto dest: in_set_takeD in_set_dropD)
  moreover have "path key (Fr a ks (take i ts) (drop (Suc i) ts) # fs) (ts ! i) = (fs', l)"
    using "2.prems"(1) i by (simp add: i_def [symmetric])
  ultimately show ?case
    using "2.IH" [OF i_def i] filled_imp_root_filled by blast
qed auto

lemma leaf_of_path:
  assumes "wf_tree t" "path key [] t = (fs, Lf a kvs)"
  shows "1 \<le> length kvs" "length kvs \<le> 3" "fs \<noteq> [] \<Longrightarrow> 2 \<le> length kvs"
    "ctx_bal 0 fs" "sorted_wrt (<) (map fst kvs)"
proof -
  note w = path_wf [OF assms]
  have t: "root_filled (plug fs (Lf a kvs))" "bal (height t) t" "sorted_wrt (<) (flat t)"
    using assms(1) w(1) by (simp_all add: wf_tree_def)
  show two: "fs \<noteq> [] \<Longrightarrow> 2 \<le> length kvs" using t(1) filled_plug [of fs "Lf a kvs"] by auto
  show "1 \<le> length kvs" "length kvs \<le> 3" using t(1) filled_plug [of fs "Lf a kvs"] by (cases "fs = []"; auto)+
  show "ctx_bal 0 fs" using path_bal [OF assms(2) _ t(2)] t(1) w(1) by simp
  have "sorted_wrt (<) (map (\<lambda>(k, v). 2 * k + 1) kvs)" using t(3) w(8) by (simp add: sorted_wrt_append)
  then show "sorted_wrt (<) (map fst kvs)"
    unfolding sorted_wrt_map by (rule sorted_wrt_mono_rel [rotated]) auto
qed

lemma sorted_insert_mid:
  assumes "sorted_wrt (<) (xs @ ys @ (zs :: int list))" "sorted_wrt (<) ys'" "set ys' \<subseteq> insert b (set ys)"
    "\<forall>x \<in> set xs. x < b" "\<forall>x \<in> set zs. b < x"
  shows "sorted_wrt (<) (xs @ ys' @ zs)"
proof -
  have "x < y" if "x \<in> set xs" "y \<in> set ys'" for x y
    using that assms(1,3,4) by (auto simp: sorted_wrt_append)
  moreover have "y < z" if "y \<in> set ys'" "z \<in> set zs" for y z
    using that assms(1,3,5) by (auto simp: sorted_wrt_append)
  ultimately show ?thesis using assms(1,2) by (auto simp: sorted_wrt_append)
qed

lemma sorted_insert_sep:
  assumes "sorted_wrt (<) (xs @ ys @ zs)" "\<forall>x \<in> set (xs @ ys). x < b" "\<forall>x \<in> set zs. (b::int) < x"
  shows "sorted_wrt (<) (xs @ ys @ b # zs)"
  using assms by (auto simp: sorted_wrt_append)

lemma flat_leaf_sorted:
  "sorted_wrt (<) (map fst kvs) \<Longrightarrow> sorted_wrt (<) (map (\<lambda>(k, v). 2 * k + 1 :: int) kvs)"
  unfolding sorted_wrt_map by (erule sorted_wrt_mono_rel [rotated]) auto

lemma split_leaf_sep:
  fixes kvs :: "(int \<times> 'v) list"
  assumes "sorted_wrt (<) (map fst kvs)" "length kvs = 4" "k = fst (kvs ! 2)"
  shows "\<forall>x \<in> set (map (\<lambda>(k, v). 2 * k + 1) (take 2 kvs)). x < 2 * k"
    "\<forall>x \<in> set (map (\<lambda>(k, v). 2 * k + 1) (drop 2 kvs)). 2 * k < x"
proof -
  obtain p0 p1 p2 p3 where "kvs = [p0, p1, p2, p3]" using length4 [OF assms(2)] by blast
  with assms show "\<forall>x \<in> set (map (\<lambda>(k, v). 2 * k + 1) (take 2 kvs)). x < 2 * k"
    "\<forall>x \<in> set (map (\<lambda>(k, v). 2 * k + 1) (drop 2 kvs)). 2 * k < x"
    by (auto simp: eval_nat_numeral split: prod.splits)
qed

theorem wf_ins_tree:
  assumes "wf_tree t" "key \<notin> fst ` set (pairs t)"
  shows "wf_tree (ins_tree new key v t)"
proof -
  obtain fs l where p: "path key [] t = (fs, l)" by (cases "path key [] t")
  note w = path_wf [OF assms(1) p]
  from w(3) obtain a kvs where l: "l = Lf a kvs" by blast
  note lf = leaf_of_path [OF assms(1) p [unfolded l]]
  define kvs' where "kvs' = ins_kv key v kvs"
  have nk: "key \<notin> fst ` set kvs" using assms(2) w(9) l by auto
  have s': "sorted_wrt (<) (map fst kvs')" unfolding kvs'_def by (rule sorted_ins_kv [OF lf(5) nk])
  let ?fl = "map (\<lambda>(k, v). 2 * k + 1 :: int)"
  have sf: "sorted_wrt (<) (ctx_flat_l fs @ ?fl kvs @ ctx_flat_r fs)"
    using assms(1) w(8) l by (simp add: wf_tree_def)
  have sub: "set (?fl kvs') \<subseteq> insert (2 * key + 1) (set (?fl kvs))" by (auto simp: kvs'_def set_ins_kv)
  have sorted': "sorted_wrt (<) (ctx_flat_l fs @ ?fl kvs' @ ctx_flat_r fs)"
    by (rule sorted_insert_mid [OF sf flat_leaf_sorted [OF s'] sub w(4,5)])
  show ?thesis
  proof (cases "length kvs < 3")
    case True
    then have T: "ins_tree new key v t = plug fs (Lf a kvs')" by (simp add: ins_tree_def p l Let_def kvs'_def)
    have "root_filled (plug fs (Lf a kvs'))"
      using True lf(1,3) w(2) by (cases "fs = []") (auto simp: filled_plug kvs'_def)
    moreover have "bal (0 + length fs) (plug fs (Lf a kvs'))" unfolding bal_plug using lf(4) by simp
    moreover have "sorted_wrt (<) (flat (plug fs (Lf a kvs')))" using sorted' w(2) by (simp add: flat_plug)
    ultimately show ?thesis unfolding T by (rule wf_treeI)
  next
    case False
    let ?l = "Lf a (take 2 kvs')" and ?r = "Lf new (drop 2 kvs')" and ?k = "fst (kvs' ! 2)"
    have len: "length kvs' = 4" using False lf(2) by (simp add: kvs'_def)
    have T: "ins_tree new key v t = insert_up (Suc new) fs ?l ?k ?r"
      using False by (simp add: ins_tree_def p l Let_def kvs'_def)
    have fill: "root_filled (insert_up (Suc new) fs ?l ?k ?r)"
      by (rule filled_insert_up [OF w(2)]) (simp_all add: len)
    obtain h where bal: "bal h (insert_up (Suc new) fs ?l ?k ?r)"
      using bal_insert_up [OF lf(4), of ?l ?r] by auto
    note sep = split_leaf_sep [OF s' len refl]
    have cat: "?fl (take 2 kvs') @ ?fl (drop 2 kvs') = ?fl kvs'"
      by (metis append_take_drop_id map_append)
    have s4: "sorted_wrt (<) (ctx_flat_l fs @ ?fl (take 2 kvs') @ ?fl (drop 2 kvs') @ ctx_flat_r fs)"
      using sorted' cat by (metis append.assoc)
    have "?fl (take 2 kvs') \<noteq> []" "?fl (drop 2 kvs') \<noteq> []" using len by auto
    then obtain x y where x: "x \<in> set (?fl (take 2 kvs'))" and y: "y \<in> set (?fl (drop 2 kvs'))"
      using hd_in_set by blast
    have lo: "z < 2 * ?k" if "z \<in> set (ctx_flat_l fs @ ?fl (take 2 kvs'))" for z
    proof (cases "z \<in> set (?fl (take 2 kvs'))")
      case False
      with that have "z \<in> set (ctx_flat_l fs)" by simp
      then have "z < x" using s4 x by (auto simp: sorted_wrt_append)
      then show ?thesis using sep(1) x by fastforce
    qed (use sep(1) in blast)
    have hi: "2 * ?k < z" if "z \<in> set (?fl (drop 2 kvs') @ ctx_flat_r fs)" for z
    proof (cases "z \<in> set (?fl (drop 2 kvs'))")
      case False
      with that have "z \<in> set (ctx_flat_r fs)" by simp
      then have "y < z" using s4 y by (auto simp: sorted_wrt_append)
      then show ?thesis using sep(2) y by fastforce
    qed (use sep(2) in blast)
    have "sorted_wrt (<) (ctx_flat_l fs @ ?fl (take 2 kvs') @ 2 * ?k # ?fl (drop 2 kvs') @ ctx_flat_r fs)"
      by (rule sorted_insert_sep [OF s4]) (use lo hi in blast)+
    then have "sorted_wrt (<) (flat (insert_up (Suc new) fs ?l ?k ?r))"
      using flat_insert_up [OF w(2)] by simp
    with fill bal show ?thesis unfolding T by (rule wf_treeI)
  qed
qed

section \<open>Leaves\<close>

lemma leaf_position:
  assumes "leaf_node n p kvs"
  shows "bptree_find_insert_index (keys n) (num_keys n) key 0 =
    Some (length (takeWhile (\<lambda>k. k < key) (map fst kvs)))"
  using find_insert_index_from [of "num_keys n" "keys n" 0 key] assms
    min.absorb1 [of "length kvs" 3] length_take [of "length kvs" "keys n"]
  by (auto simp: leaf_node_def)

lemma position_le: "length (takeWhile P (map fst kvs)) \<le> length kvs"
  by (metis length_map length_takeWhile_le)

lemma insert_into_leaf_spec:
  assumes n: "nodes m a = Some n" "leaf_node n p kvs" "length kvs < 3"
  shows "\<exists>n'. bptree_insert_into_leaf m a key v = Some (mem_upd m 0 ((nodes m)(a \<mapsto> n'))) \<and>
    leaf_node n' p (ins_kv key v kvs) \<and> next_leaf n' = next_leaf n"
proof -
  define i where "i = length (takeWhile (\<lambda>k. k < key) (map fst kvs))"
  have i: "i \<le> length kvs" by (simp add: i_def position_le)
  have ln: "num_keys n = length kvs" "length (keys n) = 3" "length (vals n) = 3"
    "take (length kvs) (keys n) = map fst kvs" "take (length kvs) (vals n) = map snd kvs"
    using n(2) by (simp_all add: leaf_node_def)
  obtain ys where ys: "arr_shift (keys n) i (length kvs) = Some ys" "length ys = 3"
    "\<And>x. ys[i := x] = ins_at i x (map fst kvs) @ drop (Suc (length kvs)) (keys n)"
    using arr_shift_spec [of i "length kvs" "keys n"] ln n(3) i by auto
  obtain zs where zs: "arr_shift (vals n) i (length kvs) = Some zs" "length zs = 3"
    "\<And>x. zs[i := x] = ins_at i x (map snd kvs) @ drop (Suc (length kvs)) (vals n)"
    using arr_shift_spec [of i "length kvs" "vals n"] ln n(3) i by auto
  let ?n = "n\<lparr>keys := ys[i := key], vals := zs[i := v], num_keys := Suc (length kvs)\<rparr>"
  have "bptree_leaf_shift n i (length kvs) = Some (n\<lparr>keys := ys, vals := zs\<rparr>)"
    by (rule leaf_shift_arr_shift [OF ys(1) zs(1)])
  then have "bptree_insert_into_leaf m a key v = Some (mem_upd m 0 ((nodes m)(a \<mapsto> ?n)))"
    using n ln ys(2) zs(2) i leaf_position [OF n(2), of key, folded i_def]
    by (simp add: bptree_insert_into_leaf_def set_node_mem_upd)
  moreover have "map fst (ins_kv key v kvs) = ins_at i key (map fst kvs)"
    "map snd (ins_kv key v kvs) = ins_at i v (map snd kvs)"
    by (simp_all add: ins_kv_def i_def ins_at_def take_map drop_map)
  then have "leaf_node ?n p (ins_kv key v kvs)"
    using n(2,3) ys zs by (simp add: leaf_node_def)
  ultimately show ?thesis by (intro exI conjI) (assumption | simp)+
qed

lemma leaf_temps:
  assumes "keys n = [k0, k1, k2]" "vals n = [v0, v1, v2]" "num_keys n = 3" "i \<le> 3"
  shows "bptree_leaf_temps n i key v =
    Some (map Some (ins_at i key [k0, k1, k2]), map Some (ins_at i v [v0, v1, v2]))"
proof -
  have "i = 0 \<or> i = 1 \<or> i = 2 \<or> i = 3" using assms(4) by auto
  then show ?thesis
    using assms
    by (elim disjE) (simp_all add: bptree_leaf_temps_def bptree_merge_leaf.simps ins_at_def eval_nat_numeral)
qed

lemma fill_left_leaf:
  assumes "keys n = [k0, k1, k2]" "vals n = [v0, v1, v2]" "num_keys n = 0"
  shows "bptree_fill_left_leaf n (map Some [x0, x1, x2, x3]) (map Some [y0, y1, y2, y3]) 0 2 =
    Some (n\<lparr>keys := [x0, x1, k2], vals := [y0, y1, v2], num_keys := 2\<rparr>)"
  using assms
  by (simp add: bptree_fill_left_leaf.simps tmp_get_def arr_get_def arr_set_def eval_nat_numeral)

lemma fill_right_leaf:
  assumes "keys n = [k0, k1, k2]" "vals n = [v0, v1, v2]" "num_keys n = 0"
  shows "bptree_fill_right_leaf n (map Some [x0, x1, x2, x3]) (map Some [y0, y1, y2, y3]) 2 4 =
    Some (n\<lparr>keys := [x2, x3, k2], vals := [y2, y3, v2], num_keys := 2\<rparr>)"
  using assms
  by (simp add: bptree_fill_right_leaf.simps tmp_get_def arr_get_def arr_set_def eval_nat_numeral)

lemma leaf_distribute:
  assumes n: "nodes m a = Some n" "keys n = [k0, k1, k2]" "vals n = [v0, v1, v2]"
    and rn: "nodes m b = Some rn" "keys rn = [r0, r1, r2]" "vals rn = [s0, s1, s2]" "num_keys rn = 0" and "a \<noteq> b"
  shows "bptree_leaf_distribute m a b (map Some [x0, x1, x2, x3]) (map Some [y0, y1, y2, y3]) =
    Some (mem_upd m 0 ((nodes m)(b \<mapsto> rn\<lparr>parent := parent n, keys := [x2, x3, r2],
        vals := [y2, y3, s2], num_keys := 2, next_leaf := next_leaf n\<rparr>,
      a \<mapsto> n\<lparr>keys := [x0, x1, k2], vals := [y0, y1, v2], num_keys := 2, next_leaf := b\<rparr>)))"
  using assms
  by (simp add: bptree_leaf_distribute_def fill_left_leaf fill_right_leaf set_node_mem_upd
      fun_upd_twist [of a b] del: list.map)

lemma split_leaf_now:
  assumes n: "nodes m a = Some n" "leaf_node n p kvs" "length kvs = 3"
    and kvs': "kvs' = ins_kv key v kvs" and mem: "alloc_ok m (allocs m)" "0 < brk m" "a \<noteq> brk m"
  shows "\<exists>n1 n2. bptree_split_leaf_and_insert m tree a key v =
      bptree_insert_into_parent (mem_upd m 1 ((nodes m)(brk m \<mapsto> n2, a \<mapsto> n1))) tree a (fst (kvs' ! 2)) (brk m) \<and>
    leaf_node n1 p (take 2 kvs') \<and> next_leaf n1 = brk m \<and>
    leaf_node n2 p (drop 2 kvs') \<and> next_leaf n2 = next_leaf n"
proof -
  define i where "i = length (takeWhile (\<lambda>k. k < key) (map fst kvs))"
  have i: "i \<le> 3" using position_le [of "\<lambda>k. k < key" kvs] n(3) by (simp add: i_def)
  have ln: "num_keys n = 3" "keys n = map fst kvs" "vals n = map snd kvs" "is_leaf n" "parent n = p" "length (children n) = 4"
    using n(2,3) by (auto simp: leaf_node_def)
  obtain p0 p1 p2 where ps: "kvs = [p0, p1, p2]" using length3 [OF n(3)] by blast
  obtain q0 q1 q2 q3 where qs: "kvs' = [q0, q1, q2, q3]" using length4 [of kvs'] n(3) by (auto simp: kvs')
  have kv: "map fst kvs' = ins_at i key (map fst kvs)" "map snd kvs' = ins_at i v (map snd kvs)"
    by (simp_all add: kvs' ins_kv_def i_def ins_at_def take_map drop_map)
  let ?m = "mem_upd m 1 ((nodes m)(brk m \<mapsto> zero_node\<lparr>is_leaf := True\<rparr>))"
  have t: "bptree_leaf_temps n i key v = Some (map Some (map fst kvs'), map Some (map snd kvs'))"
    unfolding kv using leaf_temps [of n "fst p0" "fst p1" "fst p2" "snd p0" "snd p1" "snd p2" i key v] ln i ps
    by simp
  let ?n1 = "n\<lparr>keys := [fst q0, fst q1, fst p2], vals := [snd q0, snd q1, snd p2], num_keys := 2, next_leaf := brk m\<rparr>"
  let ?n2 = "zero_node\<lparr>is_leaf := True, parent := parent n, keys := [fst q2, fst q3, 0],
        vals := [snd q2, snd q3, NULL], num_keys := 2, next_leaf := next_leaf n\<rparr>"
  have d: "bptree_leaf_distribute ?m a (brk m) (map Some (map fst kvs')) (map Some (map snd kvs')) =
    Some (mem_upd m 1 ((nodes m)(brk m \<mapsto> ?n2, a \<mapsto> ?n1)))"
    using leaf_distribute [of ?m a n "fst p0" "fst p1" "fst p2" "snd p0" "snd p1" "snd p2" "brk m"
        "zero_node\<lparr>is_leaf := True\<rparr>" 0 0 0 0 0 0 "fst q0" "fst q1" "fst q2" "fst q3" "snd q0" "snd q1" "snd q2" "snd q3"]
      n(1) ln ps qs mem by simp
  have "bptree_split_leaf_and_insert m tree a key v =
      bptree_insert_into_parent (mem_upd m 1 ((nodes m)(brk m \<mapsto> ?n2, a \<mapsto> ?n1))) tree a (fst (kvs' ! 2)) (brk m)"
    using n(1) leaf_position [OF n(2), of key, folded i_def] t d mem qs
    by (simp add: bptree_split_leaf_and_insert_def create_node_now del: list.map)
  moreover have "leaf_node ?n1 p (take 2 kvs')" "leaf_node ?n2 p (drop 2 kvs')"
    using ln qs by (simp_all add: leaf_node_def eval_nat_numeral)
  ultimately show ?thesis by (intro exI conjI) (assumption | simp)+
qed

lemmas split_leaf_spec = split_leaf_now [OF _ _ _ _ no_oom_now]

section \<open>The leaf chain\<close>

lemma chain_cong:
  assumes "\<And>a. a \<in> set as \<Longrightarrow> next_of h' a = next_of h a"
  shows "chain h' as z = chain h as z"
  using assms by (induction as) (auto simp: next_of_def)

lemma chain_append: "chain h (xs @ ys) z = (chain h xs (hd (ys @ [z])) \<and> chain h ys z)"
proof (induction xs)
  case (Cons x xs)
  then show ?case by (cases xs) auto
qed simp

lemma chain_split:
  assumes "chain h (xs @ a # ys) z" "next_of h' a = Some b" "next_of h' b = next_of h a"
    "\<And>c. c \<in> set xs \<union> set ys \<Longrightarrow> next_of h' c = next_of h c"
  shows "chain h' (xs @ a # b # ys) z"
proof -
  have "chain h xs a" "chain h (a # ys) z" using assms(1) by (simp_all add: chain_append)
  moreover have "chain h' xs a = chain h xs a" "chain h' ys z = chain h ys z"
    using assms(4) by (auto intro!: chain_cong)
  ultimately show ?thesis using assms(2,3) by (simp add: chain_append next_of_def)
qed

lemma leaves_in_addrs: "fst ` set (leaves t) \<subseteq> set (addrs t)"
  by (induction t) fastforce+

lemma ctx_leaves_in_addrs: "fst ` set (ctx_leaves_l fs) \<union> fst ` set (ctx_leaves_r fs) \<subseteq> set (ctx_addrs fs)"
proof (induction fs)
  case (Cons f fs)
  obtain a ks ls rs where f: "f = Fr a ks ls rs" by (cases f)
  from Cons leaves_in_addrs show ?case by (fastforce simp: f)
qed simp

section \<open>Insertion into a tree that is represented\<close>

lemma rep_dom: "rep h p t \<Longrightarrow> set (addrs t) \<subseteq> dom h"
  by (induction t arbitrary: p) (auto split: option.splits)

lemma insert_leaf_rep:
  assumes rep: "tree_rep m r (plug fs (Lf a kvs))" and n: "nodes m a = Some n" "leaf_node n' (hole_parent fs) kvs'"
    "next_leaf n' = next_leaf n"
  shows "tree_rep (mem_upd m 0 ((nodes m)(a \<mapsto> n'))) r (plug fs (Lf a kvs'))"
proof -
  let ?h = "(nodes m)(a \<mapsto> n')"
  have d: "distinct (a # ctx_addrs fs)" using rep by (simp add: tree_rep_def distinct_addrs_plug)
  have "ctx_rep ?h fs a = ctx_rep (nodes m) fs a" using d by (intro ctx_rep_cong) auto
  then have "rep ?h NULL (plug fs (Lf a kvs'))" using rep n by (simp add: tree_rep_def rep_plug)
  moreover have "addr (plug fs (Lf a kvs')) = addr (plug fs (Lf a kvs))" by (rule addr_plug_cong) simp
  moreover have "chain ?h (map fst (leaves (plug fs (Lf a kvs')))) NULL"
  proof -
    have "chain ?h (map fst (leaves (plug fs (Lf a kvs)))) NULL = chain (nodes m) (map fst (leaves (plug fs (Lf a kvs)))) NULL"
      using n by (intro chain_cong) (auto simp: next_of_def)
    then show ?thesis using rep by (simp add: tree_rep_def leaves_plug)
  qed
  moreover have "dom ?h = set (addrs (plug fs (Lf a kvs')))" using rep by (simp add: tree_rep_def set_addrs_plug insert_absorb)
  ultimately show ?thesis
    using rep d by (simp add: tree_rep_def set_addrs_plug distinct_addrs_plug)
qed

lemma split_leaf_rep:
  assumes rep: "tree_rep m (root tree) (plug fs (Lf a kvs))" and wf: "ctx_filled fs" and oom: "no_oom m"
    and n: "nodes m a = Some n" "leaf_node n (hole_parent fs) kvs"
    and n1: "leaf_node n1 (hole_parent fs) l" "next_leaf n1 = brk m"
    and n2: "leaf_node n2 (hole_parent fs) r" "next_leaf n2 = next_leaf n"
  shows "\<exists>h tree'. bptree_insert_into_parent (mem_upd m 1 ((nodes m)(brk m \<mapsto> n2, a \<mapsto> n1))) tree a k (brk m) =
      Some (mem_upd m (Suc (new_nodes fs)) h, tree', True) \<and>
    tree_rep (mem_upd m (Suc (new_nodes fs)) h) (root tree') (insert_up (Suc (brk m)) fs (Lf a l) k (Lf (brk m) r))"
proof -
  let ?b = "brk m" and ?h1 = "(nodes m)(brk m \<mapsto> n2, a \<mapsto> n1)" and ?l = "Lf a l" and ?r = "Lf (brk m) r"
  let ?T = "insert_up (Suc ?b) fs ?l k ?r"
  have d: "distinct (a # ctx_addrs fs)" and bd: "\<And>x. x \<in> set (a # ctx_addrs fs) \<Longrightarrow> 0 < x \<and> x < ?b"
    using rep by (auto simp: tree_rep_def distinct_addrs_plug set_addrs_plug)
  have ab: "a \<noteq> ?b" "0 < ?b" and bc: "?b \<notin> set (ctx_addrs fs)"
    using bd [of a] bd [of ?b] by auto
  have "ctx_rep ?h1 fs a = ctx_rep (nodes m) fs a" using d bc by (intro ctx_rep_cong) auto
  moreover have "root tree = addr (plug fs ?l)"
    using rep addr_plug_cong [of "Lf a kvs" ?l fs] by (simp add: tree_rep_def)
  ultimately have pre: "up_pre (mem_upd m 1 ?h1) tree fs ?l ?r"
    using rep wf oom n1 n2 d bd ab bc by (auto simp: up_pre_def tree_rep_def rep_plug less_SucI)
  from insert_into_parent_refines [OF pre, of k] obtain h tree' where
    run: "bptree_insert_into_parent (mem_upd m 1 ?h1) tree a k ?b = Some (mem_upd m (Suc (new_nodes fs)) h, tree', True)"
    and post: "up_post (mem_upd m 1 ?h1) h tree' ?T" by (auto simp del: insert_up.simps)
  have ms: "mset (addrs ?T) = mset (a # ?b # ctx_addrs fs @ [Suc ?b ..< Suc ?b + new_nodes fs])"
    using mset_addrs_insert_up [of "Suc ?b" fs ?l k ?r] by simp
  have "distinct (a # ?b # ctx_addrs fs @ [Suc ?b ..< Suc ?b + new_nodes fs])"
    using d ab bc bd by fastforce
  then have "distinct (addrs ?T)" using ms mset_eq_imp_distinct_iff by blast
  moreover have st: "set (addrs ?T) = set (a # ?b # ctx_addrs fs @ [Suc ?b ..< Suc ?b + new_nodes fs])"
    using ms by (metis set_mset_mset)
  then have "0 < x \<and> x < ?b + Suc (new_nodes fs)" if "x \<in> set (addrs ?T)" for x
    using that bd [of x] ab by auto
  moreover have "chain h (map fst (leaves ?T)) NULL"
  proof -
    let ?L = "map fst (ctx_leaves_l fs)" and ?R = "map fst (ctx_leaves_r fs)"
    have LR: "set ?L \<union> set ?R \<subseteq> set (ctx_addrs fs)" using ctx_leaves_in_addrs [of fs] by simp
    have "chain (nodes m) (?L @ a # ?R) NULL" using rep by (simp add: tree_rep_def leaves_plug)
    then have "chain ?h1 (?L @ a # ?b # ?R) NULL"
      by (rule chain_split) (use n n1 n2 ab d bc LR in \<open>auto simp: next_of_def\<close>)
    moreover have "chain h (?L @ a # ?b # ?R) NULL = chain ?h1 (?L @ a # ?b # ?R) NULL"
    proof (rule chain_cong)
      fix c assume "c \<in> set (?L @ a # ?b # ?R)"
      then have "c = a \<or> c = ?b \<or> c \<in> set (ctx_addrs fs)" using LR by auto
      then have "c < Suc ?b" using bd [of c] ab bd [of a] by auto
      then show "next_of h c = next_of ?h1 c" using post by (simp add: up_post_def)
    qed
    ultimately show ?thesis by (simp add: leaves_insert_up)
  qed
  moreover have "dom h = set (addrs ?T)"
  proof -
    have "h x = None" if "x \<notin> set (addrs ?T)" for x
    proof -
      have "x \<notin> dom (nodes m)" "x \<noteq> a" "x \<noteq> ?b" using that rep unfolding st by (auto simp: tree_rep_def set_addrs_plug)
      then have "?h1 x = None" by (simp add: domIff)
      moreover have "h x = ?h1 x" using that post unfolding up_post_def by (simp del: insert_up.simps)
      ultimately show ?thesis by simp
    qed
    then have "dom h \<subseteq> set (addrs ?T)" by (metis domIff subsetI)
    moreover have "set (addrs ?T) \<subseteq> dom h" by (rule rep_dom [of h NULL]) (use post in \<open>simp add: up_post_def\<close>)
    ultimately show ?thesis by (rule equalityI)
  qed
  ultimately have "tree_rep (mem_upd m (Suc (new_nodes fs)) h) (root tree') ?T"
    using post by (simp add: tree_rep_def up_post_def)
  with run show ?thesis by blast
qed

end
