(* ===== verification/BPTree_Index.thy ===== *)
theory BPTree_Index
  imports BPTree_Refine
begin

text \<open>
  The B+ tree as an index: \<open>bpt_index m tree kvs\<close> says that the tree stored in memory \<open>m\<close> is well formed
  and holds exactly the association list \<open>kvs\<close>, in key order. The operations of
  \<^verbatim>\<open>src/core/bptree.c\<close> are related to it, the locale \<open>ordered_index\<close> states the contract that the
  table relies on, and the tree is an instance of it. The last part reads the leaf chain, which the
  range scans of the table follow directly.
\<close>

section \<open>The index as a sorted association list\<close>

definition bpt_index :: "'a bpt_mem_scheme \<Rightarrow> BPTree option \<Rightarrow> (int \<times> ptr) list \<Rightarrow> bool" where
  "bpt_index m tree kvs \<longleftrightarrow>
     (case tree of
        None \<Rightarrow> False
      | Some t \<Rightarrow> if root t = NULL then kvs = [] \<and> nodes m = Map.empty
                   else \<exists>at. tree_rep m (root t) at \<and> wf_tree at \<and> pairs at = kvs)"

definition live_mem :: "'a bpt_mem_scheme \<Rightarrow> bool" where
  "live_mem m \<longleftrightarrow> no_oom m \<and> 0 < brk m"

lemma live_mem_upd [simp]: "live_mem m \<Longrightarrow> live_mem (mem_upd m j h)"
  by (simp add: live_mem_def)

lemma live_mem_block [simp]: "live_mem (take_block m p) = live_mem m" "live_mem (drop_block m p) = live_mem m"
  by (simp_all add: live_mem_def no_oom_def)

lemma bpt_index_cases:
  assumes "bpt_index m tree kvs"
  obtains (Empty) t where "tree = Some t" "root t = NULL" "kvs = []" "nodes m = Map.empty"
  | (Tree) t at where "tree = Some t" "root t \<noteq> NULL" "tree_rep m (root t) at" "wf_tree at" "pairs at = kvs"
  using assms by (auto simp: bpt_index_def split: option.splits if_splits)

lemma bpt_index_sorted: "bpt_index m tree kvs \<Longrightarrow> sorted_wrt (<) (map fst kvs)"
  by (erule bpt_index_cases) (auto simp: wf_tree_def intro!: sorted_pairs)

lemma tree_rep_leaf:
  assumes "tree_rep m (root t) at" "wf_tree at" "root t \<noteq> NULL"
  obtains fs a kvs n where "path key [] at = (fs, Lf a kvs)" "bptree_find_leaf m (Some t) key = Some a"
    "a \<noteq> NULL" "nodes m a = Some n" "leaf_node n (hole_parent fs) kvs" "plug fs (Lf a kvs) = at"
proof -
  obtain fs l where p: "path key [] at = (fs, l)" by (cases "path key [] at")
  note w = path_wf [OF assms(2) p]
  from w(3) obtain a kvs where l: "l = Lf a kvs" by blast
  have rf: "root_filled at" using assms(2) by (simp add: wf_tree_def)
  have r: "rep (nodes m) NULL at" "root t = addr at" using assms(1) by (simp_all add: tree_rep_def)
  have "bptree_find_leaf m (Some t) key = Some a"
    using find_leaf_path [OF p r(1) rf] r(2) assms(3) l by (simp add: bptree_find_leaf_def)
  moreover have "rep (nodes m) (hole_parent fs) (Lf a kvs)" using r(1) w(1) l rep_plug by metis
  then obtain n where "nodes m a = Some n" "leaf_node n (hole_parent fs) kvs" by (auto split: option.splits)
  moreover have "a \<in> set (addrs at)" using set_addrs_plug [of fs l] w(1) l by auto
  then have "a \<noteq> NULL" using assms(1) by (auto simp: tree_rep_def)
  ultimately show ?thesis using that p l w(1) by blast
qed

lemma bptree_search_index:
  assumes "bpt_index m tree kvs"
  shows "bptree_search m tree key = Some (case map_of kvs key of None \<Rightarrow> NULL | Some v \<Rightarrow> v)"
  using assms
proof (cases rule: bpt_index_cases)
  case (Empty t)
  then show ?thesis by (simp add: bptree_search_def bptree_find_leaf_def)
next
  case (Tree t at)
  obtain fs a lkvs n where "path key [] at = (fs, Lf a lkvs)" "bptree_find_leaf m (Some t) key = Some a"
    "a \<noteq> NULL" "nodes m a = Some n" "leaf_node n (hole_parent fs) lkvs"
    using tree_rep_leaf [OF Tree(3,4,2)] .
  then show ?thesis
    using Tree map_of_path [of at key fs a lkvs] leaf_value_from [of n "hole_parent fs" lkvs 0 key]
    by (simp add: bptree_search_def)
qed

lemma leaf_dup_iff:
  assumes "leaf_node n p kvs"
  shows "bptree_leaf_has_key (keys n) (num_keys n) key 0 = Some (key \<in> fst ` set kvs)"
proof -
  have "num_keys n \<le> length (keys n)" "take (num_keys n) (keys n) = map fst kvs"
    using assms by (auto simp: leaf_node_def) (metis length_map length_take min.cobounded1)
  then show ?thesis using leaf_has_key_from [of "num_keys n" "keys n" key 0] by simp
qed

lemma bptree_insert_dup:
  assumes "bpt_index m tree kvs" "key \<in> fst ` set kvs"
  shows "bptree_insert m tree key v = Some (m, tree, False)"
  using assms(1)
proof (cases rule: bpt_index_cases)
  case (Tree t at)
  obtain fs a lkvs n where l: "path key [] at = (fs, Lf a lkvs)" "bptree_find_leaf m (Some t) key = Some a"
    "nodes m a = Some n" "leaf_node n (hole_parent fs) lkvs"
    using tree_rep_leaf [OF Tree(3,4,2)] by metis
  have "map_of kvs key \<noteq> None" using assms(2) by (simp add: map_of_eq_None_iff)
  then have "key \<in> fst ` set lkvs" using map_of_path [OF Tree(4) l(1)] Tree(5) map_of_eq_None_iff by metis
  then show ?thesis using Tree l leaf_dup_iff [OF l(4), of key] by (simp add: bptree_insert_def)
qed (use assms(2) in simp)

lemma bptree_insert_new:
  assumes idx: "bpt_index m tree kvs" and live: "live_mem m" and new: "key \<notin> fst ` set kvs"
  shows "\<exists>j h tree'. bptree_insert m tree key v = Some (mem_upd m j h, tree', True) \<and>
    bpt_index (mem_upd m j h) tree' (ins_kv key v kvs)"
  using idx
proof (cases rule: bpt_index_cases)
  case (Empty t)
  have oom: "no_oom m" "0 < brk m" using live by (simp_all add: live_mem_def)
  let ?n = "zero_node\<lparr>is_leaf := True, keys := [key, 0, 0], vals := [v, NULL, NULL], num_keys := 1\<rparr>"
  let ?h = "(nodes m)(brk m \<mapsto> ?n)"
  have "bptree_insert m tree key v = Some (mem_upd m 1 ?h, Some (t\<lparr>root := brk m\<rparr>), True)"
    using Empty oom by (simp add: bptree_insert_def create_node_ok arr_set_def)
  moreover have "tree_rep (mem_upd m 1 ?h) (brk m) (Lf (brk m) [(key, v)])"
    using oom by (simp add: tree_rep_def leaf_node_def eval_nat_numeral Empty)
  moreover have "wf_tree (Lf (brk m) [(key, v)])" by (simp add: wf_tree_def)
  ultimately show ?thesis using Empty oom
    by (intro exI [of _ 1] exI [of _ ?h] exI [of _ "Some (t\<lparr>root := brk m\<rparr>)"])
       (auto simp: bpt_index_def intro!: exI [of _ "Lf (brk m) [(key, v)]"])
next
  case (Tree t at)
  have oom: "no_oom m" "0 < brk m" using live by (simp_all add: live_mem_def)
  obtain fs a lkvs n where l: "path key [] at = (fs, Lf a lkvs)" "bptree_find_leaf m (Some t) key = Some a"
    "nodes m a = Some n" "leaf_node n (hole_parent fs) lkvs" "plug fs (Lf a lkvs) = at"
    using tree_rep_leaf [OF Tree(3,4,2)] by metis
  note w = path_wf [OF Tree(4) l(1)] and lf = leaf_of_path [OF Tree(4) l(1)]
  have nd: "bptree_leaf_has_key (keys n) (num_keys n) key 0 = Some False"
    using leaf_dup_iff [OF l(4), of key] w(9) new Tree(5) by auto
  have nk: "num_keys n = length lkvs" using l(4) by (simp add: leaf_node_def)
  have wf': "wf_tree (ins_tree (brk m) key v at)" using Tree(4,5) new by (intro wf_ins_tree) auto
  have pr': "pairs (ins_tree (brk m) key v at) = ins_kv key v kvs" using pairs_ins_tree [OF Tree(4)] Tree(5) by simp
  show ?thesis
  proof (cases "length lkvs < 3")
    case True
    obtain n' where n': "bptree_insert_into_leaf m a key v = Some (mem_upd m 0 ((nodes m)(a \<mapsto> n')))"
      "leaf_node n' (hole_parent fs) (ins_kv key v lkvs)" "next_leaf n' = next_leaf n"
      using insert_into_leaf_spec [OF l(3,4) True] by blast
    have "tree_rep (mem_upd m 0 ((nodes m)(a \<mapsto> n'))) (root t) (plug fs (Lf a (ins_kv key v lkvs)))"
      using Tree(3) l(3,5) n' by (intro insert_leaf_rep [of m "root t" fs a lkvs]) auto
    moreover have "ins_tree (brk m) key v at = plug fs (Lf a (ins_kv key v lkvs))"
      using True l(1) by (simp add: ins_tree_def Let_def)
    ultimately have "bpt_index (mem_upd m 0 ((nodes m)(a \<mapsto> n'))) (Some t) (ins_kv key v kvs)"
      using Tree(2) wf' pr' by (auto simp: bpt_index_def)
    moreover have "bptree_insert m tree key v = Some (mem_upd m 0 ((nodes m)(a \<mapsto> n')), Some t, True)"
      using Tree(1,2) l(2,3) nd nk True n'(1) by (simp add: bptree_insert_def)
    ultimately show ?thesis by blast
  next
    case False
    define kvs' where "kvs' = ins_kv key v lkvs"
    have len: "length lkvs = 3" using False lf(2) by simp
    have "a < brk m" using Tree(3) l(5) set_addrs_plug [of fs "Lf a lkvs"] by (auto simp: tree_rep_def)
    then obtain n1 n2 where s: "bptree_split_leaf_and_insert m t a key v =
        bptree_insert_into_parent (mem_upd m 1 ((nodes m)(brk m \<mapsto> n2, a \<mapsto> n1))) t a (fst (kvs' ! 2)) (brk m)"
      "leaf_node n1 (hole_parent fs) (take 2 kvs')" "next_leaf n1 = brk m"
      "leaf_node n2 (hole_parent fs) (drop 2 kvs')" "next_leaf n2 = next_leaf n"
      using split_leaf_spec [OF l(3,4) len kvs'_def oom, of t] by auto
    obtain h t' where i: "bptree_split_leaf_and_insert m t a key v = Some (mem_upd m (Suc (new_nodes fs)) h, t', True)"
      "tree_rep (mem_upd m (Suc (new_nodes fs)) h) (root t')
        (insert_up (Suc (brk m)) fs (Lf a (take 2 kvs')) (fst (kvs' ! 2)) (Lf (brk m) (drop 2 kvs')))"
      using split_leaf_rep [OF Tree(3) [folded l(5)] w(2) oom(1) l(3,4) s(2-5)] s(1) by metis
    have T: "ins_tree (brk m) key v at =
      insert_up (Suc (brk m)) fs (Lf a (take 2 kvs')) (fst (kvs' ! 2)) (Lf (brk m) (drop 2 kvs'))"
      using False l(1) by (simp add: ins_tree_def Let_def kvs'_def)
    have "root t' \<noteq> NULL" using i(2) addr_in_addrs unfolding tree_rep_def by fastforce
    then have "bpt_index (mem_upd m (Suc (new_nodes fs)) h) (Some t') (ins_kv key v kvs)"
      using i(2) wf' pr' unfolding T by (auto simp: bpt_index_def)
    moreover have "bptree_insert m tree key v = Some (mem_upd m (Suc (new_nodes fs)) h, Some t', True)"
      using Tree(1,2) l(2,3) nd nk False i(1) by (simp add: bptree_insert_def)
    ultimately show ?thesis by blast
  qed
qed

lemma bptree_create_index:
  assumes "live_mem m"
  shows "bptree_create m = (take_block (mem_upd m 1 (nodes m)) (brk m), Some \<lparr>root = NULL, header = brk m\<rparr>)"
    "nodes m' = Map.empty \<Longrightarrow> bpt_index m' (Some \<lparr>root = NULL, header = p\<rparr>) []"
proof -
  have "alloc_ok m (allocs m)" using assms no_oom_def [of m] unfolding live_mem_def by (metis add_0_right)
  with assms show "bptree_create m = (take_block (mem_upd m 1 (nodes m)) (brk m), Some \<lparr>root = NULL, header = brk m\<rparr>)"
    by (simp add: bptree_create_def alloc_def live_mem_def mem_upd_def)
  show "nodes m' = Map.empty \<Longrightarrow> bpt_index m' (Some \<lparr>root = NULL, header = p\<rparr>) []" by (simp add: bpt_index_def)
qed

lemma bpt_index_frame:
  assumes "bpt_index m tree kvs" "nodes m' = nodes m" "brk m \<le> brk m'"
  shows "bpt_index m' tree kvs"
proof -
  have "tree_rep m' r t" if "tree_rep m r t" for r t
    using that assms(2,3) unfolding tree_rep_def by (auto intro: less_le_trans)
  then show ?thesis using assms(1,2) unfolding bpt_index_def by (auto split: option.splits if_splits)
qed

text \<open>An insertion leaves the header of the tree where it is.\<close>

definition index_block :: "BPTree option \<Rightarrow> ptr" where
  "index_block tree = (case tree of None \<Rightarrow> NULL | Some t \<Rightarrow> header t)"

lemma index_block_simps [simp]: "index_block None = NULL" "index_block (Some t) = header t"
  by (simp_all add: index_block_def)

lemma new_root_header: "bptree_create_new_root m tree l k r = Some y \<Longrightarrow> header (fst (snd y)) = header tree"
  by (auto simp: bptree_create_new_root_def split: prod.splits if_splits Option.bind_splits)

lemma into_parent_header:
  assumes "bptree_insert_into_parent m tree l k r = Some (m', tree', ok)"
  shows "header tree' = header tree"
proof -
  have "header (fst (snd y)) = header tree" if "bptree_insert_into_parent m tree l k r = Some y" for y
  proof (rule bptree_insert_into_parent.raw_induct [where P = "\<lambda>m tree l k r y. header (fst (snd y)) = header tree", OF _ that], goal_cases)
    case (1 f m tree l k r y)
    then show ?case
      by (auto simp: Let_def split: option.splits if_splits Option.bind_splits prod.splits dest: new_root_header)
  qed
  from this [OF assms] show ?thesis by simp
qed

lemma bptree_insert_header:
  assumes "bptree_insert m tree k v = Some (m', tree', ok)"
  shows "index_block tree' = index_block tree"
  using assms
  by (auto simp: bptree_insert_def bptree_split_leaf_and_insert_def Let_def
      split: option.splits if_splits Option.bind_splits prod.splits dest: into_parent_header)

section \<open>The contract of an ordered index\<close>

text \<open>
  What a client of the index relies on. \<open>repr m i kvs\<close> is the abstraction, \<open>live m\<close> says that memory is
  left, \<open>used m\<close> bounds the addresses handed out so far, \<open>rest m\<close> is the part of the memory that belongs
  to the client, \<open>keeps m m'\<close> holds of the client's own steps, which do not touch the index, and \<open>block i\<close> is the address by which
  the index is freed.
\<close>

lemma map_add_single_old: "m k \<noteq> None \<Longrightarrow> [k \<mapsto> v] ++ m = m"
  by (auto simp: map_add_def fun_eq_iff split: option.splits)

lemma map_add_single_new: "m k = None \<Longrightarrow> [k \<mapsto> v] ++ m = m(k \<mapsto> v)"
  by (auto simp: map_add_def fun_eq_iff split: option.splits)

primrec run_inserts ::
  "('m \<Rightarrow> 'i \<Rightarrow> int \<Rightarrow> ptr \<Rightarrow> ('m \<times> 'i \<times> bool) option) \<Rightarrow> 'm \<Rightarrow> 'i \<Rightarrow> (int \<times> ptr) list \<Rightarrow>
   ('m \<times> 'i \<times> bool list) option" where
  "run_inserts ins m i [] = Some (m, i, [])"
| "run_inserts ins m i (x # xs) = do {
     (m, i, ok) \<leftarrow> ins m i (fst x) (snd x);
     (m, i, oks) \<leftarrow> run_inserts ins m i xs;
     Some (m, i, ok # oks)
   }"

primrec insert_flags :: "int set \<Rightarrow> (int \<times> ptr) list \<Rightarrow> bool list" where
  "insert_flags K [] = []"
| "insert_flags K (x # xs) = (fst x \<notin> K) # insert_flags (insert (fst x) K) xs"

locale ordered_index =
  fixes insert :: "'m \<Rightarrow> 'i \<Rightarrow> int \<Rightarrow> ptr \<Rightarrow> ('m \<times> 'i \<times> bool) option"
    and search :: "'m \<Rightarrow> 'i \<Rightarrow> int \<Rightarrow> ptr option"
    and repr :: "'m \<Rightarrow> 'i \<Rightarrow> (int \<times> ptr) list \<Rightarrow> bool"
    and live :: "'m \<Rightarrow> bool"
    and used :: "'m \<Rightarrow> ptr"
    and rest :: "'m \<Rightarrow> 'r"
    and keeps :: "'m \<Rightarrow> 'm \<Rightarrow> bool"
    and block :: "'i \<Rightarrow> ptr"
  assumes repr_sorted: "repr m i kvs \<Longrightarrow> sorted_wrt (<) (map fst kvs)"
    and repr_keeps: "repr m i kvs \<Longrightarrow> keeps m m' \<Longrightarrow> repr m' i kvs"
    and search_repr: "repr m i kvs \<Longrightarrow>
      search m i k = Some (case map_of kvs k of None \<Rightarrow> NULL | Some v \<Rightarrow> v)"
    and insert_dup: "repr m i kvs \<Longrightarrow> k \<in> fst ` set kvs \<Longrightarrow> insert m i k v = Some (m, i, False)"
    and insert_new: "repr m i kvs \<Longrightarrow> live m \<Longrightarrow> k \<notin> fst ` set kvs \<Longrightarrow>
      \<exists>m' i'. insert m i k v = Some (m', i', True) \<and> repr m' i' (ins_kv k v kvs) \<and> live m' \<and>
        rest m' = rest m \<and> used m \<le> used m' \<and> block i' = block i"
begin

lemma insert_last:
  assumes "repr m i kvs" "live m" "\<forall>kv \<in> set kvs. fst kv < k"
  shows "\<exists>m' i'. insert m i k v = Some (m', i', True) \<and> repr m' i' (kvs @ [(k, v)]) \<and> live m' \<and>
    rest m' = rest m \<and> used m \<le> used m' \<and> block i' = block i"
  using insert_new [OF assms(1,2), of k v] ins_kv_last [OF assms(3)] assms(3) by fastforce

lemma insert_step:
  assumes "repr m i kvs" "live m"
  obtains m' i' kvs' where "insert m i k v = Some (m', i', k \<notin> dom (map_of kvs))" "repr m' i' kvs'" "live m'"
    "map_of kvs' = [k \<mapsto> v] ++ map_of kvs" "rest m' = rest m" "block i' = block i"
proof (cases "k \<in> fst ` set kvs")
  case True
  then have "map_of kvs k \<noteq> None" by (simp add: map_of_eq_None_iff)
  with insert_dup [OF assms(1) True, of v] assms that map_add_single_old [of "map_of kvs" k v]
  show ?thesis by (metis domIff)
next
  case False
  then have "map_of kvs k = None" by (simp add: map_of_eq_None_iff)
  with insert_new [OF assms False, of v] map_of_ins_kv [OF repr_sorted [OF assms(1)] False, of v] that
    map_add_single_new [of "map_of kvs" k v]
  show ?thesis by (metis domIff)
qed

lemma run_inserts_repr:
  assumes "repr m i kvs" "live m"
  shows "\<exists>m' i' kvs'. run_inserts insert m i xs = Some (m', i', insert_flags (dom (map_of kvs)) xs) \<and>
    repr m' i' kvs' \<and> live m' \<and> map_of kvs' = map_of xs ++ map_of kvs \<and> rest m' = rest m \<and> block i' = block i"
  using assms
proof (induction xs arbitrary: m i kvs)
  case (Cons x xs)
  obtain m1 i1 kvs1 where s: "insert m i (fst x) (snd x) = Some (m1, i1, fst x \<notin> dom (map_of kvs))"
    "repr m1 i1 kvs1" "live m1" "map_of kvs1 = [fst x \<mapsto> snd x] ++ map_of kvs" "rest m1 = rest m" "block i1 = block i"
    using insert_step [OF Cons.prems] .
  have m: "map_of xs ++ map_of kvs1 = map_of (x # xs) ++ map_of kvs"
    unfolding s(4) by (cases x) (auto simp: map_add_def fun_eq_iff split: option.splits)
  have "dom (map_of kvs1) = Set.insert (fst x) (dom (map_of kvs))" unfolding s(4) by auto
  with Cons.IH [OF s(2,3)] obtain m' i' kvs' where
    "run_inserts insert m1 i1 xs = Some (m', i', insert_flags (Set.insert (fst x) (dom (map_of kvs))) xs)"
    "repr m' i' kvs'" "live m'" "map_of kvs' = map_of (x # xs) ++ map_of kvs" "rest m' = rest m1" "block i' = block i1"
    unfolding m by metis
  then show ?case using s(1) by (intro exI [of _ m'] exI [of _ i'] exI [of _ kvs']) (simp add: s(5,6) del: map_of.simps)
qed auto

lemma run_inserts_search:
  assumes "repr m i []" "live m"
  shows "\<exists>m' i'. run_inserts insert m i xs = Some (m', i', insert_flags {} xs) \<and>
    (\<forall>k. search m' i' k = Some (case map_of xs k of None \<Rightarrow> NULL | Some v \<Rightarrow> v))"
  using run_inserts_repr [OF assms, of xs] search_repr by fastforce

end

interpretation pk: ordered_index bptree_insert bptree_search bpt_index live_mem brk "\<lambda>m. (blocks m, bpt_mem.more m)"
  "\<lambda>m m'. nodes m' = nodes m \<and> brk m \<le> brk m'" index_block
proof
  fix m :: "'a bpt_mem_scheme" and i kvs k v
  assume "bpt_index m i kvs" "live_mem m" "k \<notin> fst ` set kvs"
  from bptree_insert_new [OF this, of v] \<open>live_mem m\<close>
  show "\<exists>m' i'. bptree_insert m i k v = Some (m', i', True) \<and> bpt_index m' i' (ins_kv k v kvs) \<and>
    live_mem m' \<and> (blocks m', bpt_mem.more m') = (blocks m, bpt_mem.more m) \<and> brk m \<le> brk m' \<and> index_block i' = index_block i"
    using live_mem_upd bptree_insert_header by fastforce
qed (use bpt_index_sorted bpt_index_frame bptree_search_index bptree_insert_dup in blast)+

section \<open>The leaf chain\<close>

text \<open>
  \<open>leaf_list h p ls\<close>: following the next-leaf pointers from \<open>p\<close> to the null pointer visits exactly the
  leaves \<open>ls\<close>, given with their addresses and contents.
\<close>

fun leaf_list :: "(ptr \<Rightarrow> BPTreeNode option) \<Rightarrow> ptr \<Rightarrow> (ptr \<times> (int \<times> ptr) list) list \<Rightarrow> bool" where
  "leaf_list h p [] = (p = NULL)"
| "leaf_list h p (l # ls) =
     (p = fst l \<and> p \<noteq> NULL \<and>
      (case h p of None \<Rightarrow> False
       | Some n \<Rightarrow> leaf_node n (parent n) (snd l) \<and> leaf_list h (next_leaf n) ls))"

lemma leaf_node_own_parent: "leaf_node n p kvs \<Longrightarrow> leaf_node n (parent n) kvs"
  by (simp add: leaf_node_def)

lemma rep_leaves:
  "rep h p t \<Longrightarrow> l \<in> set (leaves t) \<Longrightarrow> \<exists>n. h (fst l) = Some n \<and> leaf_node n (parent n) (snd l)"
  by (induction t arbitrary: p) (auto split: option.splits intro: leaf_node_own_parent)

lemma chain_leaf_list:
  assumes "chain h (map fst ls) NULL"
    "\<forall>l \<in> set ls. fst l \<noteq> NULL \<and> (\<exists>n. h (fst l) = Some n \<and> leaf_node n (parent n) (snd l))"
  shows "leaf_list h (hd (map fst ls @ [NULL])) ls"
  using assms by (induction ls) auto

lemma tree_leaf_list:
  assumes "tree_rep m r t" "leaves t = xs @ ls"
  shows "leaf_list (nodes m) (hd (map fst ls @ [NULL])) ls"
proof (rule chain_leaf_list)
  show "chain (nodes m) (map fst ls) NULL"
    using assms by (simp add: tree_rep_def chain_append)
  have "fst l \<noteq> NULL" if "l \<in> set ls" for l
    using that assms leaves_in_addrs [of t] by (fastforce simp: tree_rep_def)
  then show "\<forall>l \<in> set ls. fst l \<noteq> NULL \<and> (\<exists>n. nodes m (fst l) = Some n \<and> leaf_node n (parent n) (snd l))"
    using assms rep_leaves [of "nodes m" NULL t] by (auto simp: tree_rep_def)
qed

lemma find_leaf_scan:
  assumes "bpt_index m (Some t) kvs" "root t \<noteq> NULL"
  obtains a ls pre where "bptree_find_leaf m (Some t) key = Some a" "leaf_list (nodes m) a ls" "ls \<noteq> []"
    "kvs = pre @ concat (map snd ls)" "\<forall>kv \<in> set pre. fst kv < key"
    "\<forall>kv \<in> set (concat (map snd (tl ls))). key < fst kv"
  using assms(1)
proof (cases rule: bpt_index_cases)
  case (Tree t' at)
  with assms have r: "tree_rep m (root t) at" and w: "wf_tree at" and p: "pairs at = kvs" by auto
  obtain fs a lkvs where l: "path key [] at = (fs, Lf a lkvs)" "bptree_find_leaf m (Some t) key = Some a"
    "plug fs (Lf a lkvs) = at"
    using tree_rep_leaf [OF r w assms(2)] by metis
  note pw = path_wf [OF w l(1)]
  have "leaves at = ctx_leaves_l fs @ (a, lkvs) # ctx_leaves_r fs" using leaves_plug [of fs "Lf a lkvs"] l(3) by simp
  from tree_leaf_list [OF r this] have "leaf_list (nodes m) a ((a, lkvs) # ctx_leaves_r fs)" by simp
  moreover have "kvs = ctx_pairs_l fs @ concat (map snd ((a, lkvs) # ctx_leaves_r fs))"
    using pw(9) p by (simp add: ctx_pairs_r_def)
  ultimately show ?thesis
    by (rule that [OF l(2) _ list.distinct(2) _ pw(6)]) (use pw(7) in \<open>simp add: ctx_pairs_r_def\<close>)
qed (use assms in simp)

lemma leftmost_scan:
  assumes "bpt_index m (Some t) kvs" "root t \<noteq> NULL"
  obtains at where "tree_rep m (root t) at" "wf_tree at" "leaf_list (nodes m) (fst (hd (leaves at))) (leaves at)"
    "kvs = concat (map snd (leaves at))"
  using assms(1)
proof (cases rule: bpt_index_cases)
  case (Tree t' at)
  have "leaves at \<noteq> []" using Tree(4,5) path_wf(1) [OF Tree(4)] leaves_plug
    by (metis Nil_is_append_conv leaves.simps(1) list.distinct(1) path_wf(3) [OF Tree(4)] surj_pair)
  then have "leaf_list (nodes m) (fst (hd (leaves at))) (leaves at)"
    using tree_leaf_list [OF Tree(3), of "[]" "leaves at"] by (cases "leaves at") auto
  then show ?thesis using that [of at] Tree assms by (simp add: pairs_def)
qed (use assms in simp)

section \<open>Height\<close>

lemma filled_size: "filled t \<Longrightarrow> bal n t \<Longrightarrow> 2 ^ Suc n \<le> length (pairs t)"
proof (induction t arbitrary: n)
  case (Nd a ks ts)
  then obtain n' where n: "n = Suc n'" by (cases n) auto
  have "2 ^ Suc n' \<le> length (pairs t)" if "t \<in> set ts" for t using Nd that n by auto
  moreover obtain t1 t2 us where "ts = t1 # t2 # us" using Nd.prems(1) by (cases ts rule: remdups_adj.cases) auto
  ultimately have "2 ^ Suc n' \<le> length (pairs t1)" "2 ^ Suc n' \<le> length (pairs t2)" "ts = t1 # t2 # us" by auto
  then show ?case using n by (simp add: pairs_Nd)
qed simp

lemma height_bound:
  assumes "wf_tree t"
  shows "2 ^ height t \<le> length (pairs t)"
proof (cases t)
  case (Nd a ks ts)
  then have "2 ^ Suc (height t) \<le> length (pairs t)"
    using assms by (intro filled_size) (auto simp: wf_tree_def)
  then show ?thesis by simp
qed (use assms in \<open>auto simp: wf_tree_def\<close>)

section \<open>A split whose new root cannot be allocated\<close>

lemma three_keys_one_leaf:
  assumes "bpt_index m (Some t) kvs" "length kvs = 3"
  obtains n where "root t \<noteq> NULL" "root t < brk m" "nodes m (root t) = Some n" "leaf_node n NULL kvs" "next_leaf n = NULL"
proof -
  obtain at where at: "root t \<noteq> NULL" "tree_rep m (root t) at" "wf_tree at" "pairs at = kvs"
    using assms by (auto simp: bpt_index_def split: if_splits)
  obtain a where l: "at = Lf a kvs"
  proof (cases at)
    case (Nd a ks ts)
    then have "2 ^ Suc (height at) \<le> length (pairs at)" using at(3) by (intro filled_size) (auto simp: wf_tree_def)
    moreover have "2 ^ 2 \<le> (2 :: nat) ^ Suc (height at)" using Nd by (intro power_increasing) (auto split: list.splits)
    ultimately show ?thesis using assms(2) at(4) by simp
  qed (use at(4) that in \<open>simp add: pairs_def\<close>)
  show ?thesis using at(1,2) that unfolding l by (auto simp: tree_rep_def split: option.splits)
qed

text \<open>The leaf has then been split, but the insertion reports failure and the tree keeps its old root.\<close>

lemma bptree_insert_no_root:
  assumes idx: "bpt_index m (Some t) kvs" "length kvs = 3" and key: "key \<notin> fst ` set kvs"
    and mem: "0 < brk m" "alloc_ok m (allocs m)" "\<not> alloc_ok m (Suc (allocs m))"
  shows "\<exists>n1 n2. bptree_insert m (Some t) key v =
      Some ((mem_upd m 1 ((nodes m)(brk m \<mapsto> n2, root t \<mapsto> n1)))\<lparr>allocs := Suc (Suc (allocs m))\<rparr>, Some t, False) \<and>
    root t \<noteq> NULL \<and> root t \<noteq> brk m \<and> leaf_node n1 NULL (take 2 (ins_kv key v kvs)) \<and> next_leaf n1 = brk m \<and>
    leaf_node n2 NULL (drop 2 (ins_kv key v kvs)) \<and> next_leaf n2 = NULL"
proof -
  obtain n where n: "root t \<noteq> NULL" "root t < brk m" "nodes m (root t) = Some n" "leaf_node n NULL kvs" "next_leaf n = NULL"
    using three_keys_one_leaf [OF idx] .
  have a: "root t \<noteq> brk m" using n(2) by simp
  obtain n1 n2 where s: "bptree_split_leaf_and_insert m t (root t) key v = bptree_insert_into_parent
      (mem_upd m 1 ((nodes m)(brk m \<mapsto> n2, root t \<mapsto> n1))) t (root t) (fst (ins_kv key v kvs ! 2)) (brk m)"
    "leaf_node n1 NULL (take 2 (ins_kv key v kvs))" "next_leaf n1 = brk m"
    "leaf_node n2 NULL (drop 2 (ins_kv key v kvs))" "next_leaf n2 = NULL"
    using split_leaf_now [OF n(3,4) idx(2) refl mem(2,1) a] n(5) by metis
  let ?m = "mem_upd m 1 ((nodes m)(brk m \<mapsto> n2, root t \<mapsto> n1))"
  have "bptree_insert_into_parent ?m t (root t) k (brk m) = Some (?m\<lparr>allocs := Suc (Suc (allocs m))\<rparr>, t, False)" for k
    using s(2) mem(3)
    by (subst bptree_insert_into_parent.simps)
      (simp add: leaf_node_def bptree_create_new_root_def bptree_create_node_def alloc_def)
  moreover have "bptree_find_leaf m (Some t) key = Some (root t)"
    using n by (simp add: bptree_find_leaf_def bptree_find_leaf_from.simps [of m "root t"] leaf_node_def)
  ultimately have "bptree_insert m (Some t) key v = Some (?m\<lparr>allocs := Suc (Suc (allocs m))\<rparr>, Some t, False)"
    using n(1,3,4) s(1) leaf_dup_iff [OF n(4), of key] key idx(2)
    by (simp add: bptree_insert_def leaf_node_def)
  then show ?thesis using n(1) a s(2-5) by blast
qed

section \<open>Destruction\<close>

lemma free_node_some: "nodes m p = Some n \<Longrightarrow> free_node m p = Some (m\<lparr>nodes := (nodes m)(p := None)\<rparr>)"
  by (simp add: free_node_def)

lemma destroy_node:
  assumes "rep (nodes m) p t" "filled t \<or> root_filled t" "distinct (addrs t)" "NULL \<notin> set (addrs t)"
  shows "bptree_destroy_node_from m (addr t) 0 = Some (m\<lparr>nodes := nodes m |` (- set (addrs t))\<rparr>)"
  using assms
proof (induction t arbitrary: m p)
  case (Lf a kvs)
  then show ?case
    by (auto simp: bptree_destroy_node_from.simps free_node_some leaf_node_def restrict_map_def fun_eq_iff
        split: option.splits intro!: bpt_mem.equality)
next
  case (Nd a ks ts)
  have fl: "\<forall>t \<in> set ts. filled t" "length ts = Suc (length ks)" using Nd.prems by auto
  have step: "bptree_destroy_node_from m' a i =
      Some (m'\<lparr>nodes := nodes m' |` (- insert a (set (concat (map addrs (drop i ts)))))\<rparr>)"
    if "nodes m' a = Some n" "int_node n q ks (map addr ts)" "\<forall>t \<in> set (drop i ts). rep (nodes m') a t" "i \<le> length ts"
    for m' :: "'a bpt_mem_scheme" and i n q
    using that
  proof (induction "length ts - i" arbitrary: i m')
    case 0
    then have i: "i = Suc (length ks)" using fl by simp
    have a: "a \<noteq> NULL" "\<not> is_leaf n" "num_keys n = length ks" using Nd.prems 0 by (auto simp: int_node_def)
    have "bptree_destroy_node_from m' a i = Some (m'\<lparr>nodes := (nodes m')(a := None)\<rparr>)"
      by (subst bptree_destroy_node_from.simps) (use a 0(2) in \<open>simp add: i free_node_some\<close>)
    moreover have "(nodes m')(a := None) = nodes m' |` (- {a})" by (auto simp: restrict_map_def)
    ultimately show ?case using i fl by simp
  next
    case (Suc d)
    then have i: "i < length ts" by simp
    let ?c = "ts ! i"
    let ?m = "m'\<lparr>nodes := nodes m' |` (- set (addrs ?c))\<rparr>"
    have dr: "drop i ts = ?c # drop (Suc i) ts" using i by (simp add: Cons_nth_drop_Suc)
    have a: "a \<noteq> NULL" "\<not> is_leaf n" "num_keys n = length ks" "i \<le> length ks"
      "take (length ts) (children n) = map addr ts" "length (children n) = 4"
      using Nd.prems Suc i fl by (auto simp: int_node_def)
    have c: "arr_get (children n) i = Some (addr ?c)"
    proof -
      have "children n ! i = take (length ts) (children n) ! i" using i by simp
      also have "\<dots> = addr ?c" using i a(5) by simp
      finally show ?thesis using i a(5,6) by (simp add: arr_get_def) (metis length_map length_take min_less_iff_conj)
    qed
    have "distinct (concat (map addrs (drop i ts)))"
      using Nd.prems(3) take_drop_map_concat [of addrs i ts] by (metis addrs.simps(2) distinct.simps(2) distinct_append)
    then have dist: "distinct (addrs ?c)" "NULL \<notin> set (addrs ?c)" "a \<notin> set (addrs ?c)"
      "set (addrs ?c) \<inter> set (concat (map addrs (drop (Suc i) ts))) = {}"
      using Nd.prems(3,4) i unfolding dr by auto
    have "bptree_destroy_node_from m' (addr ?c) 0 = Some ?m"
      using Nd.IH [of ?c m' a] i fl dist(1,2) Suc.prems(3) dr by simp
    moreover have "bptree_destroy_node_from ?m a (Suc i) =
      Some (?m\<lparr>nodes := nodes ?m |` (- insert a (set (concat (map addrs (drop (Suc i) ts)))))\<rparr>)"
    proof (rule Suc.hyps(1))
      show "\<forall>t \<in> set (drop (Suc i) ts). rep (nodes ?m) a t"
      proof
        fix t assume t: "t \<in> set (drop (Suc i) ts)"
        then have "rep (nodes ?m) a t = rep (nodes m') a t" using dist(4) by (intro rep_cong) (auto simp: restrict_map_def)
        then show "rep (nodes ?m) a t" using t Suc.prems(3) dr by simp
      qed
    qed (use Suc dist(3) i in \<open>auto simp: restrict_map_def\<close>)
    moreover have "- set (addrs ?c) \<inter> - insert a (set (concat (map addrs (drop (Suc i) ts)))) =
      - insert a (set (concat (map addrs (drop i ts))))" unfolding dr by auto
    ultimately show ?case
      by (subst bptree_destroy_node_from.simps) (simp add: a Suc.prems(1) c del: set_concat Compl_insert)
  qed
  obtain n where "nodes m a = Some n" "int_node n p ks (map addr ts)" using Nd.prems(1) by (auto split: option.splits)
  then show ?case using step [of m n p 0] Nd.prems(1) by simp
qed

lemma bptree_destroy_index:
  assumes "bpt_index m tree kvs" "index_block tree \<in> blocks m" "index_block tree \<noteq> NULL"
  shows "bptree_destroy m tree = Some (m\<lparr>nodes := Map.empty, blocks := blocks m - {index_block tree}\<rparr>)"
  using assms(1)
proof (cases rule: bpt_index_cases)
  case (Empty t)
  then show ?thesis using assms(2,3)
    by (simp add: bptree_destroy_def bptree_destroy_node_from.simps free_block_in drop_block_def)
next
  case (Tree t at)
  have "dom (nodes m) = set (addrs at)" using Tree(3) by (simp add: tree_rep_def)
  then have "nodes m |` (- set (addrs at)) = Map.empty" by (auto simp: restrict_map_def fun_eq_iff domIff)
  then show ?thesis
    using destroy_node [of m NULL at] Tree assms(2,3)
    by (auto simp: bptree_destroy_def tree_rep_def wf_tree_def free_block_in drop_block_def)
qed

section \<open>Properties\<close>

definition mem0 :: bpt_mem where
  "mem0 = \<lparr>brk = 1, alloc_ok = (\<lambda>_. True), allocs = 0, blocks = {}, nodes = Map.empty\<rparr>"

definition mem1 :: bpt_mem where
  "mem1 = \<lparr>brk = 3, alloc_ok = (\<lambda>_. True), allocs = 2, blocks = {2},
     nodes = [1 \<mapsto> zero_node\<lparr>is_leaf := True, keys := [5, 0, 0], vals := [7, NULL, NULL], num_keys := 1\<rparr>]\<rparr>"

lemma mem0_live: "live_mem mem0" "nodes mem0 = Map.empty"
  by (simp_all add: mem0_def live_mem_def no_oom_def)

lemma mem1_index: "live_mem mem1" "bpt_index mem1 (Some \<lparr>root = 1, header = 2\<rparr>) [(5, 7)]"
proof -
  show "live_mem mem1" by (simp add: mem1_def live_mem_def no_oom_def)
  have "tree_rep mem1 1 (Lf 1 [(5, 7)])" by (simp add: tree_rep_def mem1_def leaf_node_def eval_nat_numeral)
  moreover have "wf_tree (Lf 1 [(5, 7)])" by (simp add: wf_tree_def)
  ultimately show "bpt_index mem1 (Some \<lparr>root = 1, header = 2\<rparr>) [(5, 7)]"
    unfolding bpt_index_def by (auto intro!: exI [of _ "Lf 1 [(5, 7)]"])
qed

lemma create_run:
  assumes "live_mem m" "nodes m = Map.empty"
  obtains m1 t m' t' kvs where "bptree_create m = (m1, Some t)"
    "run_inserts bptree_insert m1 (Some t) xs = Some (m', Some t', insert_flags {} xs)"
    "bpt_index m' (Some t') kvs" "live_mem m'" "map_of kvs = map_of xs"
    "blocks m' = insert (header t) (blocks m)" "header t' = header t" "header t = brk m" "0 < brk m"
proof -
  let ?m = "take_block (mem_upd m 1 (nodes m)) (brk m)" and ?t = "\<lparr>root = NULL, header = brk m\<rparr>"
  have c: "bptree_create m = (?m, Some ?t)" using bptree_create_index(1) [OF assms(1)] .
  have i: "bpt_index ?m (Some ?t) []" using assms(2) by (intro bptree_create_index(2) [OF assms(1)]) simp
  have l: "live_mem ?m" "0 < brk m" using assms(1) live_mem_upd [OF assms(1)] by (simp_all add: live_mem_def [of m])
  obtain m' i' kvs where r: "run_inserts bptree_insert ?m (Some ?t) xs = Some (m', i', insert_flags {} xs)"
    "bpt_index m' i' kvs" "live_mem m'" "map_of kvs = map_of xs" "blocks m' = blocks ?m" "index_block i' = brk m"
    using pk.run_inserts_repr [OF i l(1), of xs] by auto
  then obtain t' where "i' = Some t'" by (auto simp: bpt_index_def split: option.splits)
  then show ?thesis using that [OF c] r l(2) by simp
qed

text \<open>
  C6. Insertion into the B+ tree refines insertion into a sorted association list. In a well-formed
  tree holding the pairs \<open>kvs\<close>, and with memory available, the pointer code runs without undefined
  behaviour; it returns 1 exactly when the key is new, the tree afterwards is well formed again (sorted,
  balanced, with correct parent pointers and leaf chain) and holds the pairs with the new one in its
  sorted place, nothing outside the index changes, and a duplicate key changes nothing at all.
\<close>

theorem bptree_insert_refines:
  assumes "bpt_index m tree kvs" "live_mem m"
  shows "\<exists>m' tree'. bptree_insert m tree key v = Some (m', tree', key \<notin> fst ` set kvs) \<and>
    bpt_index m' tree' (if key \<in> fst ` set kvs then kvs else ins_kv key v kvs) \<and> live_mem m' \<and>
    bpt_mem.more m' = bpt_mem.more m \<and> blocks m' = blocks m \<and> index_block tree' = index_block tree \<and>
    (key \<in> fst ` set kvs \<longrightarrow> m' = m \<and> tree' = tree)"
  using pk.insert_dup [OF assms(1), of key v] pk.insert_new [OF assms, of key v] assms
  by (cases "key \<in> fst ` set kvs") auto

theorem bptree_insert_refines_witness:
  "bpt_index mem1 (Some \<lparr>root = 1, header = 2\<rparr>) [(5, 7)] \<and> live_mem mem1 \<and>
   (\<exists>m' tree'. bptree_insert mem1 (Some \<lparr>root = 1, header = 2\<rparr>) 3 8 = Some (m', tree', True) \<and>
      bpt_index m' tree' [(3, 8), (5, 7)])"
  using bptree_insert_refines [OF mem1_index(2,1), of 3 8] mem1_index by (auto simp: ins_kv_Cons)

text \<open>
  C7. A search of a well-formed tree returns the value stored with the key, and the null pointer when
  the key is absent; it always returns.
\<close>

theorem bptree_search_refines:
  assumes "bpt_index m tree kvs"
  shows "bptree_search m tree key = Some (case map_of kvs key of None \<Rightarrow> NULL | Some v \<Rightarrow> v)"
  using assms by (rule pk.search_repr)

theorem bptree_search_refines_witness:
  "bpt_index mem1 (Some \<lparr>root = 1, header = 2\<rparr>) [(5, 7)] \<and> bptree_search mem1 (Some \<lparr>root = 1, header = 2\<rparr>) 5 = Some 7 \<and>
   bptree_search mem1 (Some \<lparr>root = 1, header = 2\<rparr>) 6 = Some NULL"
  using bptree_search_refines [OF mem1_index(2), of 5] bptree_search_refines [OF mem1_index(2), of 6] mem1_index(2) by simp

text \<open>
  C8. The index as a whole: a tree created in fresh memory and given any sequence of insertions, with
  any repetition of keys, reports for each whether its key was new, and then answers every search with
  the first value inserted for that key.
\<close>

theorem bptree_history:
  assumes "live_mem m" "nodes m = Map.empty"
  shows "\<exists>m1 t m' t'. bptree_create m = (m1, Some t) \<and>
    run_inserts bptree_insert m1 (Some t) xs = Some (m', Some t', insert_flags {} xs) \<and>
    (\<forall>k. bptree_search m' (Some t') k = Some (case map_of xs k of None \<Rightarrow> NULL | Some v \<Rightarrow> v))"
  using create_run [OF assms, of xs] pk.search_repr by metis

theorem bptree_history_witness:
  "live_mem mem0 \<and> nodes mem0 = Map.empty \<and>
   (\<exists>m1 t m' t'. bptree_create mem0 = (m1, Some t) \<and>
      run_inserts bptree_insert m1 (Some t) [(4, 40), (9, 90), (4, 41)] = Some (m', Some t', [True, True, False]) \<and>
      bptree_search m' (Some t') 4 = Some 40)"
  using bptree_history [OF mem0_live, of "[(4, 40), (9, 90), (4, 41)]"] mem0_live by auto

text \<open>
  C9. Destroying a tree that was built by any sequence of insertions frees every node it allocated, and its header,
  exactly once: no node is left, the blocks are those from before the tree was created, and nothing is freed or read after it was freed.
\<close>

theorem bptree_destroy_complete:
  assumes "live_mem m" "nodes m = Map.empty" "brk m \<notin> blocks m"
  shows "\<exists>m1 t m' tree'. bptree_create m = (m1, Some t) \<and>
    run_inserts bptree_insert m1 (Some t) xs = Some (m', tree', insert_flags {} xs) \<and>
    bptree_destroy m' tree' = Some (m'\<lparr>nodes := Map.empty, blocks := blocks m\<rparr>)"
proof -
  obtain m1 t m' t' kvs where r: "bptree_create m = (m1, Some t)"
    "run_inserts bptree_insert m1 (Some t) xs = Some (m', Some t', insert_flags {} xs)"
    "bpt_index m' (Some t') kvs" "blocks m' = insert (header t) (blocks m)" "header t' = header t" "header t = brk m" "0 < brk m"
    using create_run [OF assms(1,2), of xs] by metis
  have "insert (brk m) (blocks m) - {brk m} = blocks m" using assms(3) by blast
  then show ?thesis using r bptree_destroy_index [OF r(3)] by auto
qed

theorem bptree_destroy_complete_witness:
  "live_mem mem0 \<and> nodes mem0 = Map.empty \<and>
   (\<exists>m1 t m' tree'. bptree_create mem0 = (m1, Some t) \<and>
      run_inserts bptree_insert m1 (Some t) [(1, 1), (2, 2), (3, 3), (4, 4)] = Some (m', tree', [True, True, True, True]) \<and>
      bptree_destroy m' tree' = Some (m'\<lparr>nodes := Map.empty, blocks := {}\<rparr>))"
  using bptree_destroy_complete [OF mem0_live, of "[(1, 1), (2, 2), (3, 3), (4, 4)]"] mem0_live by (auto simp: mem0_def)

text \<open>
  C10. The tree stays balanced and shallow: after any sequence of insertions, whatever the order of the
  keys, all leaves are at the same depth and the number of distinct keys is at least two to the power of
  the height, so that a search visits at most logarithmically many nodes.
\<close>

theorem bptree_height:
  assumes "live_mem m" "nodes m = Map.empty" "xs \<noteq> []"
  shows "\<exists>m1 t m' t' at. bptree_create m = (m1, Some t) \<and>
    run_inserts bptree_insert m1 (Some t) xs = Some (m', Some t', insert_flags {} xs) \<and>
    tree_rep m' (root t') at \<and> bal (height at) at \<and> 2 ^ height at \<le> card (fst ` set xs)"
proof -
  obtain m1 t m' t' kvs where r: "bptree_create m = (m1, Some t)"
    "run_inserts bptree_insert m1 (Some t) xs = Some (m', Some t', insert_flags {} xs)"
    "bpt_index m' (Some t') kvs" "map_of kvs = map_of xs"
    using create_run [OF assms(1,2), of xs] .
  have k: "fst ` set kvs = fst ` set xs" using r(4) by (metis dom_map_of_conv_image_fst)
  then have "kvs \<noteq> []" using assms(3) by auto
  with r(3) obtain at where at: "tree_rep m' (root t') at" "wf_tree at" "pairs at = kvs"
    by (cases rule: bpt_index_cases) auto
  have "length kvs = card (fst ` set xs)"
    using pk.repr_sorted [OF r(3)] k by (metis distinct_card length_map list.set_map strict_sorted_iff)
  then show ?thesis using r(1,2) at height_bound [OF at(2)] by (metis wf_tree_def)
qed

theorem bptree_height_witness:
  "live_mem mem0 \<and> nodes mem0 = Map.empty \<and> [(3, 1), (1, 2), (2 :: int, 3 :: ptr)] \<noteq> [] \<and>
   (\<exists>m1 t m' t' at. bptree_create mem0 = (m1, Some t) \<and>
      run_inserts bptree_insert m1 (Some t) [(3, 1), (1, 2), (2, 3)] = Some (m', Some t', [True, True, True]) \<and>
      tree_rep m' (root t') at \<and> bal (height at) at \<and> 2 ^ height at \<le> card (fst ` set [(3 :: int, 1 :: ptr), (1, 2), (2, 3)]))"
  using bptree_height [OF mem0_live, of "[(3, 1), (1, 2), (2, 3)]"] mem0_live by simp

end
