(* ===== verification/CString.thy ===== *)
theory CString
  imports CPrelude
begin

text \<open>
  Characters and strings of C: the classification functions of \<^verbatim>\<open>ctype.h\<close> in the C locale, null
  terminated arrays, the string and conversion functions that the sources call, and the integer
  conversions of \<^verbatim>\<open>printf\<close>.
\<close>

section \<open>Characters\<close>

abbreviation (input) NUL :: char where "NUL \<equiv> CHR 0x00"

definition isspace :: "char \<Rightarrow> bool" where
  "isspace c = (c \<in> {CHR '' '', CHR 0x09, CHR 0x0A, CHR 0x0B, CHR 0x0C, CHR 0x0D})"

definition code_of :: "char \<Rightarrow> nat" where
  "code_of c = of_char c"

definition isdigit :: "char \<Rightarrow> bool" where
  "isdigit c = (48 \<le> code_of c \<and> code_of c \<le> 57)"

definition isupper :: "char \<Rightarrow> bool" where
  "isupper c = (65 \<le> code_of c \<and> code_of c \<le> 90)"

definition islower :: "char \<Rightarrow> bool" where
  "islower c = (97 \<le> code_of c \<and> code_of c \<le> 122)"

definition isalpha :: "char \<Rightarrow> bool" where
  "isalpha c = (isupper c \<or> islower c)"

definition isalnum :: "char \<Rightarrow> bool" where
  "isalnum c = (isdigit c \<or> isupper c \<or> islower c)"

definition tolower :: "char \<Rightarrow> char" where
  "tolower c = (if isupper c then char_of (code_of c + 32) else c)"

definition toupper :: "char \<Rightarrow> char" where
  "toupper c = (if islower c then char_of (code_of c - 32) else c)"

section \<open>Null-terminated strings\<close>

text \<open>A string argument stands for the characters before its terminator.\<close>

definition cstr :: "string \<Rightarrow> string" where
  "cstr s = takeWhile (\<lambda>c. c \<noteq> NUL) s"

text \<open>Reading a character array as a string: the terminator has to be inside the array.\<close>

definition cstr_get :: "string \<Rightarrow> string option" where
  "cstr_get buf = (if NUL \<in> set buf then Some (cstr buf) else None)"

definition strncpy :: "string \<Rightarrow> string \<Rightarrow> nat \<Rightarrow> string option" where
  "strncpy buf src n =
     (if n \<le> length buf then Some (take n (cstr src @ replicate n NUL) @ drop n buf) else None)"

definition strcmp_eq :: "string \<Rightarrow> string \<Rightarrow> bool option" where
  "strcmp_eq buf s = do { x \<leftarrow> cstr_get buf; Some (x = cstr s) }"

lemma cstr_no_NUL: "NUL \<notin> set s \<Longrightarrow> cstr s = s"
  unfolding cstr_def by (subst takeWhile_eq_all_conv) auto

lemma cstr_idem [simp]: "cstr (cstr s) = cstr s"
  by (rule cstr_no_NUL) (auto simp: cstr_def dest: set_takeWhileD)

lemma NUL_cstr [simp]: "NUL \<notin> set (cstr s)"
  by (auto simp: cstr_def dest: set_takeWhileD)

section \<open>Decimal printing\<close>

definition digit_char :: "nat \<Rightarrow> char" where
  "digit_char d = char_of (48 + d)"

fun show_nat :: "nat \<Rightarrow> string" where
  "show_nat n = (if n < 10 then [digit_char n] else show_nat (n div 10) @ [digit_char (n mod 10)])"

declare show_nat.simps [simp del]

definition show_int :: "int \<Rightarrow> string" where
  "show_int i = (if i < 0 then CHR ''-'' # show_nat (nat (- i)) else show_nat (nat i))"

text \<open>
  The conversions take an argument that is already the characters before the terminator; a cursor
  into a string is the rest of the string from there, and reading it at its end gives the terminator.
\<close>

definition peek :: "string \<Rightarrow> char" where
  "peek cur = (case cur of [] \<Rightarrow> NUL | c # _ \<Rightarrow> c)"

definition strcasecmp_eq :: "string \<Rightarrow> string \<Rightarrow> bool" where
  "strcasecmp_eq a b = (map tolower a = map tolower b)"

text \<open>\<^verbatim>\<open>snprintf\<close> into an array of \<open>n\<close> bytes keeps what fits before the terminator.\<close>

definition snprintf :: "nat \<Rightarrow> string \<Rightarrow> string" where
  "snprintf n s = take (n - 1) s"

section \<open>Number parsing\<close>

definition digit_val :: "char \<Rightarrow> int" where
  "digit_val c = int (code_of c) - 48"

definition digits_val :: "string \<Rightarrow> int" where
  "digits_val ds = foldl (\<lambda>a c. 10 * a + digit_val c) 0 ds"

abbreviation (input) LONG_MAX :: int where "LONG_MAX \<equiv> 9223372036854775807"
abbreviation (input) LONG_MIN :: int where "LONG_MIN \<equiv> - 9223372036854775808"

definition clamp_long :: "int \<Rightarrow> int" where
  "clamp_long i = (if i < LONG_MIN then LONG_MIN else if LONG_MAX < i then LONG_MAX else i)"

text \<open>
  \<^verbatim>\<open>strtol\<close> in base ten returns the value and the end pointer, which is the start when there is no
  number; a value outside the range of \<^verbatim>\<open>long\<close> saturates.
\<close>

definition strtol10 :: "string \<Rightarrow> int \<times> string" where
  "strtol10 cur =
     (let s = dropWhile isspace cur;
          neg = (peek s = CHR ''-'');
          s = (if neg \<or> peek s = CHR ''+'' then tl s else s);
          ds = takeWhile isdigit s
      in if ds = [] then (0, cur)
         else (clamp_long (if neg then - digits_val ds else digits_val ds), dropWhile isdigit s))"

text \<open>The conversion of a \<^verbatim>\<open>long\<close> to an \<^verbatim>\<open>int\<close> keeps the low 32 bits.\<close>

definition int_of_long :: "int \<Rightarrow> int" where
  "int_of_long i = (i + 2147483648) mod 4294967296 - 2147483648"

end
