(* ===== verification/Table.thy ===== *)
theory Table
  imports BPTree_Index CString
begin

text \<open>
  The in-memory users table of \<^verbatim>\<open>src/core/table.c\<close>: rows in insertion order with an automatic primary
  key, point lookups through the B+ tree or by scanning, and the conditions of a WHERE clause, of which
  the ones on the key walk the leaf chain of the tree. Records live on the heap of the model beside the
  nodes of the index; the growable arrays of pointers are values that carry their cells. The structure of the table and its array
  of rows carry the addresses of their blocks, which creation, growth and destruction allocate and free.
\<close>

section \<open>Data\<close>

abbreviation (input) RECORD_NAME_SIZE :: nat where "RECORD_NAME_SIZE \<equiv> 64"

record Record =
  rec_id :: int
  rec_name :: string
  rec_age :: int

datatype TableComparison =
    TABLE_COMPARISON_EQ
  | TABLE_COMPARISON_LT
  | TABLE_COMPARISON_LE
  | TABLE_COMPARISON_GT
  | TABLE_COMPARISON_GE

record Table =
  next_id :: int
  rows :: "ptr option list"
  tsize :: nat
  capacity :: nat
  pk_index :: "BPTree option"
  table_block :: ptr
  rows_block :: ptr

record db_mem = bpt_mem +
  recs :: "ptr \<Rightarrow> Record option"

text \<open>The out-parameters \<^verbatim>\<open>records\<close>, \<^verbatim>\<open>count\<close> and the local \<^verbatim>\<open>capacity\<close> of the collecting functions.\<close>

record RecordArray =
  cells :: "ptr option list"
  count :: nat
  cap :: nat

definition no_records :: RecordArray where
  "no_records = \<lparr>cells = [], count = 0, cap = 0\<rparr>"

definition zero_record :: Record where
  "zero_record = \<lparr>rec_id = 0, rec_name = replicate RECORD_NAME_SIZE NUL, rec_age = 0\<rparr>"

definition set_rec :: "'a db_mem_scheme \<Rightarrow> ptr \<Rightarrow> Record \<Rightarrow> 'a db_mem_scheme" where
  "set_rec m p r = m\<lparr>recs := (recs m)(p \<mapsto> r)\<rparr>"

definition free_rec :: "'a db_mem_scheme \<Rightarrow> ptr \<Rightarrow> 'a db_mem_scheme option" where
  "free_rec m p =
     (if p = NULL then Some m
      else do { _ \<leftarrow> recs m p; Some (m\<lparr>recs := (recs m)(p := None)\<rparr>) })"

section \<open>Growable arrays\<close>

definition grown :: "nat \<Rightarrow> nat" where
  "grown c = (if c = 0 then 8 else c * 2)"

definition realloc_cells :: "ptr option list \<Rightarrow> nat \<Rightarrow> ptr option list" where
  "realloc_cells xs n = take n xs @ replicate (n - length xs) None"

definition table_ensure_capacity ::
  "'a db_mem_scheme \<Rightarrow> Table \<Rightarrow> ('a db_mem_scheme \<times> Table \<times> bool) option" where
  "table_ensure_capacity m t =
     (if tsize t < capacity t then Some (m, t, True)
      else
        let new_capacity = grown (capacity t);
            (m, new_rows) = alloc m
        in if new_rows = NULL then Some (m, t, False)
           else do {
             m \<leftarrow> free_block m (rows_block t);
             Some (take_block m new_rows,
               t\<lparr>rows := realloc_cells (rows t) new_capacity, rows_block := new_rows, capacity := new_capacity\<rparr>, True)
           })"

definition table_append_record ::
  "'a db_mem_scheme \<Rightarrow> RecordArray \<Rightarrow> ptr \<Rightarrow> ('a db_mem_scheme \<times> RecordArray \<times> bool) option" where
  "table_append_record m a r =
     (if count a < cap a then do {
        cs \<leftarrow> arr_set (cells a) (count a) (Some r);
        Some (m, a\<lparr>cells := cs, count := Suc (count a)\<rparr>, True)
      } else
        let new_capacity = grown (cap a);
            (m, new_records) = alloc m
        in if new_records = NULL then Some (m, a, False)
           else do {
             cs \<leftarrow> arr_set (realloc_cells (cells a) new_capacity) (count a) (Some r);
             Some (m, a\<lparr>cells := cs, cap := new_capacity, count := Suc (count a)\<rparr>, True)
           })"

definition table_copy_records ::
  "'a db_mem_scheme \<Rightarrow> ptr option list \<Rightarrow> nat \<Rightarrow> ('a db_mem_scheme \<times> RecordArray \<times> bool) option" where
  "table_copy_records m source source_count =
     (if source_count = 0 then Some (m, no_records, True)
      else
        let (m, copy) = alloc m
        in if copy = NULL then Some (m, no_records, False)
           else if length source < source_count then None
           else Some (m, \<lparr>cells = take source_count source, count = source_count, cap = source_count\<rparr>, True))"

definition table_compare_int :: "int \<Rightarrow> TableComparison \<Rightarrow> int \<Rightarrow> bool" where
  "table_compare_int left comparison right =
     (case comparison of
        TABLE_COMPARISON_EQ \<Rightarrow> left = right
      | TABLE_COMPARISON_LT \<Rightarrow> left < right
      | TABLE_COMPARISON_LE \<Rightarrow> left \<le> right
      | TABLE_COMPARISON_GT \<Rightarrow> left > right
      | TABLE_COMPARISON_GE \<Rightarrow> left \<ge> right)"

section \<open>Walking the index\<close>

function table_find_insert_index :: "int list \<Rightarrow> nat \<Rightarrow> int \<Rightarrow> nat \<Rightarrow> nat option" where
  "table_find_insert_index ks n key index =
     (if index < n then do {
        k \<leftarrow> arr_get ks index;
        if k < key then table_find_insert_index ks n key (Suc index) else Some index
      } else Some index)"
  by pat_completeness auto
termination by (relation "measure (\<lambda>(ks, n, key, index). n - index)") auto

partial_function (option) table_leftmost_from :: "'a bpt_mem_scheme \<Rightarrow> ptr \<Rightarrow> ptr option" where
  "table_leftmost_from m node = do {
     n \<leftarrow> nodes m node;
     if is_leaf n then Some node
     else do {
       child \<leftarrow> arr_get (children n) 0;
       table_leftmost_from m child
     }
   }"

definition table_find_leftmost_leaf :: "'a db_mem_scheme \<Rightarrow> Table option \<Rightarrow> ptr option" where
  "table_find_leftmost_leaf m table =
     (case table of
        None \<Rightarrow> Some NULL
      | Some t \<Rightarrow>
          (case pk_index t of
             None \<Rightarrow> Some NULL
           | Some tree \<Rightarrow> if root tree = NULL then Some NULL else table_leftmost_from m (root tree)))"

function table_child_index :: "int list \<Rightarrow> nat \<Rightarrow> int \<Rightarrow> nat \<Rightarrow> nat option" where
  "table_child_index ks n target child_index =
     (if child_index < n then do {
        k \<leftarrow> arr_get ks child_index;
        if target \<ge> k then table_child_index ks n target (Suc child_index) else Some child_index
      } else Some child_index)"
  by pat_completeness auto
termination by (relation "measure (\<lambda>(ks, n, target, child_index). n - child_index)") auto

partial_function (option) table_id_leaf_from :: "'a bpt_mem_scheme \<Rightarrow> ptr \<Rightarrow> int \<Rightarrow> ptr option" where
  "table_id_leaf_from m node target = do {
     n \<leftarrow> nodes m node;
     if is_leaf n then Some node
     else do {
       child_index \<leftarrow> table_child_index (keys n) (num_keys n) target 0;
       child \<leftarrow> arr_get (children n) child_index;
       table_id_leaf_from m child target
     }
   }"

definition table_find_id_leaf :: "'a db_mem_scheme \<Rightarrow> Table option \<Rightarrow> int \<Rightarrow> ptr option" where
  "table_find_id_leaf m table target =
     (case table of
        None \<Rightarrow> Some NULL
      | Some t \<Rightarrow>
          (case pk_index t of
             None \<Rightarrow> Some NULL
           | Some tree \<Rightarrow> if root tree = NULL then Some NULL else table_id_leaf_from m (root tree) target))"

text \<open>The inner loop of \<^verbatim>\<open>table_collect_leaf_chain\<close> over one leaf, then the loop over the chain.\<close>

function table_collect_leaf ::
  "'a db_mem_scheme \<Rightarrow> BPTreeNode \<Rightarrow> nat \<Rightarrow> RecordArray \<Rightarrow>
   ('a db_mem_scheme \<times> RecordArray \<times> bool) option" where
  "table_collect_leaf m n index a =
     (if index < num_keys n then do {
        v \<leftarrow> arr_get (vals n) index;
        (m, a, ok) \<leftarrow> table_append_record m a v;
        if ok then table_collect_leaf m n (Suc index) a else Some (m, no_records, False)
      } else Some (m, a, True))"
  by pat_completeness auto
termination by (relation "measure (\<lambda>(m, n, index, a). num_keys n - index)") auto

partial_function (option) table_collect_chain_from ::
  "'a db_mem_scheme \<Rightarrow> ptr \<Rightarrow> nat \<Rightarrow> RecordArray \<Rightarrow>
   ('a db_mem_scheme \<times> RecordArray \<times> bool) option" where
  "table_collect_chain_from m leaf start_index a =
     (if leaf = NULL then Some (m, a, True)
      else do {
        n \<leftarrow> nodes m leaf;
        (m, a, ok) \<leftarrow> table_collect_leaf m n start_index a;
        if ok then table_collect_chain_from m (next_leaf n) 0 a else Some (m, a, False)
      })"

definition table_collect_leaf_chain ::
  "'a db_mem_scheme \<Rightarrow> ptr \<Rightarrow> nat \<Rightarrow> ('a db_mem_scheme \<times> RecordArray \<times> bool) option" where
  "table_collect_leaf_chain m leaf start_index = table_collect_chain_from m leaf start_index no_records"

section \<open>Creation, destruction, insertion\<close>

definition table_create :: "'a db_mem_scheme \<Rightarrow> 'a db_mem_scheme \<times> Table option" where
  "table_create m =
     (let (m, p) = alloc m
      in if p = NULL then (m, None)
         else
           let (m, tree) = bptree_create (take_block m p)
           in case tree of
                None \<Rightarrow> (drop_block m p, None)
              | Some _ \<Rightarrow> (m, Some \<lparr>next_id = 1, rows = [], tsize = 0, capacity = 0, pk_index = tree,
                              table_block = p, rows_block = NULL\<rparr>))"

function table_free_rows ::
  "'a db_mem_scheme \<Rightarrow> ptr option list \<Rightarrow> nat \<Rightarrow> nat \<Rightarrow> 'a db_mem_scheme option" where
  "table_free_rows m rws n index =
     (if index < n then do {
        p \<leftarrow> tmp_get rws index;
        m \<leftarrow> free_rec m p;
        table_free_rows m rws n (Suc index)
      } else Some m)"
  by pat_completeness auto
termination by (relation "measure (\<lambda>(m, rws, n, index). n - index)") auto

definition table_destroy :: "'a db_mem_scheme \<Rightarrow> Table option \<Rightarrow> 'a db_mem_scheme option" where
  "table_destroy m table =
     (case table of
        None \<Rightarrow> Some m
      | Some t \<Rightarrow> do {
          m \<leftarrow> table_free_rows m (rows t) (tsize t) 0;
          m \<leftarrow> free_block m (rows_block t);
          m \<leftarrow> bptree_destroy m (pk_index t);
          free_block m (table_block t)
        })"

definition table_insert ::
  "'a db_mem_scheme \<Rightarrow> Table option \<Rightarrow> string option \<Rightarrow> int \<Rightarrow>
   ('a db_mem_scheme \<times> Table option \<times> ptr) option" where
  "table_insert m table name age =
     (case (table, name) of
        (Some t, Some nm) \<Rightarrow> do {
          (m, t, ok) \<leftarrow> table_ensure_capacity m t;
          if \<not> ok then Some (m, Some t, NULL)
          else
            let (m, record) = alloc m
            in if record = NULL then Some (m, Some t, NULL)
               else if next_id t = INT_MAX then None
               else do {
                 buf \<leftarrow> strncpy (rec_name zero_record) nm (RECORD_NAME_SIZE - 1);
                 buf \<leftarrow> arr_set buf (RECORD_NAME_SIZE - 1) NUL;
                 m \<leftarrow> Some (set_rec m record \<lparr>rec_id = next_id t, rec_name = buf, rec_age = age\<rparr>);
                 t \<leftarrow> Some (t\<lparr>next_id := next_id t + 1\<rparr>);
                 rws \<leftarrow> arr_set (rows t) (tsize t) (Some record);
                 t \<leftarrow> Some (t\<lparr>rows := rws\<rparr>);
                 r \<leftarrow> recs m record;
                 (m, tree, inserted) \<leftarrow> bptree_insert m (pk_index t) (rec_id r) record;
                 t \<leftarrow> Some (t\<lparr>pk_index := tree\<rparr>);
                 if \<not> inserted then do {
                   m \<leftarrow> free_rec m record;
                   Some (m, Some t, NULL)
                 } else Some (m, Some (t\<lparr>tsize := Suc (tsize t)\<rparr>), record)
               }
        }
      | _ \<Rightarrow> Some (m, table, NULL))"

section \<open>Lookups\<close>

definition table_find_by_id :: "'a db_mem_scheme \<Rightarrow> Table option \<Rightarrow> int \<Rightarrow> ptr option" where
  "table_find_by_id m table target =
     (case table of None \<Rightarrow> Some NULL | Some t \<Rightarrow> bptree_search m (pk_index t) target)"

text \<open>The scanning loops test each record in turn; the test may itself be undefined.\<close>

function table_first_from ::
  "'a db_mem_scheme \<Rightarrow> Table \<Rightarrow> (Record \<Rightarrow> bool option) \<Rightarrow> nat \<Rightarrow> ptr option" where
  "table_first_from m t test index =
     (if index < tsize t then do {
        p \<leftarrow> tmp_get (rows t) index;
        r \<leftarrow> recs m p;
        hit \<leftarrow> test r;
        if hit then Some p else table_first_from m t test (Suc index)
      } else Some NULL)"
  by pat_completeness auto
termination by (relation "measure (\<lambda>(m, t, test, index). tsize t - index)") auto

function table_matches_from ::
  "'a db_mem_scheme \<Rightarrow> Table \<Rightarrow> (Record \<Rightarrow> bool option) \<Rightarrow> nat \<Rightarrow> RecordArray \<Rightarrow>
   ('a db_mem_scheme \<times> RecordArray \<times> bool) option" where
  "table_matches_from m t test index a =
     (if index < tsize t then do {
        p \<leftarrow> tmp_get (rows t) index;
        r \<leftarrow> recs m p;
        hit \<leftarrow> test r;
        if hit then do {
          (m, a, ok) \<leftarrow> table_append_record m a p;
          if ok then table_matches_from m t test (Suc index) a else Some (m, no_records, False)
        } else table_matches_from m t test (Suc index) a
      } else Some (m, a, True))"
  by pat_completeness auto
termination by (relation "measure (\<lambda>(m, t, test, index, a). tsize t - index)") auto

definition table_scan_by_id :: "'a db_mem_scheme \<Rightarrow> Table option \<Rightarrow> int \<Rightarrow> ptr option" where
  "table_scan_by_id m table target =
     (case table of
        None \<Rightarrow> Some NULL
      | Some t \<Rightarrow> table_first_from m t (\<lambda>r. Some (rec_id r = target)) 0)"

definition table_find_by_name :: "'a db_mem_scheme \<Rightarrow> Table option \<Rightarrow> string option \<Rightarrow> ptr option" where
  "table_find_by_name m table name =
     (case (table, name) of
        (Some t, Some nm) \<Rightarrow> table_first_from m t (\<lambda>r. strcmp_eq (rec_name r) nm) 0
      | _ \<Rightarrow> Some NULL)"

definition table_find_by_age :: "'a db_mem_scheme \<Rightarrow> Table option \<Rightarrow> int \<Rightarrow> ptr option" where
  "table_find_by_age m table age =
     (case table of
        None \<Rightarrow> Some NULL
      | Some t \<Rightarrow> table_first_from m t (\<lambda>r. Some (rec_age r = age)) 0)"

definition table_collect_all ::
  "'a db_mem_scheme \<Rightarrow> Table option \<Rightarrow> ('a db_mem_scheme \<times> RecordArray \<times> bool) option" where
  "table_collect_all m table =
     (case table of
        None \<Rightarrow> Some (m, no_records, False)
      | Some t \<Rightarrow> table_copy_records m (rows t) (tsize t))"

definition table_find_by_name_matches ::
  "'a db_mem_scheme \<Rightarrow> Table option \<Rightarrow> string option \<Rightarrow>
   ('a db_mem_scheme \<times> RecordArray \<times> bool) option" where
  "table_find_by_name_matches m table name =
     (case (table, name) of
        (Some t, Some nm) \<Rightarrow> table_matches_from m t (\<lambda>r. strcmp_eq (rec_name r) nm) 0 no_records
      | _ \<Rightarrow> Some (m, no_records, False))"

definition table_find_by_age_condition ::
  "'a db_mem_scheme \<Rightarrow> Table option \<Rightarrow> TableComparison \<Rightarrow> int \<Rightarrow>
   ('a db_mem_scheme \<times> RecordArray \<times> bool) option" where
  "table_find_by_age_condition m table comparison age =
     (case table of
        None \<Rightarrow> Some (m, no_records, False)
      | Some t \<Rightarrow>
          table_matches_from m t (\<lambda>r. Some (table_compare_int (rec_age r) comparison age)) 0 no_records)"

section \<open>Conditions on the key\<close>

text \<open>The three loops of \<^verbatim>\<open>table_find_by_id_condition\<close>.\<close>

function table_skip_le :: "int list \<Rightarrow> nat \<Rightarrow> int \<Rightarrow> nat \<Rightarrow> nat option" where
  "table_skip_le ks n target index =
     (if index < n then do {
        k \<leftarrow> arr_get ks index;
        if k \<le> target then table_skip_le ks n target (Suc index) else Some index
      } else Some index)"
  by pat_completeness auto
termination by (relation "measure (\<lambda>(ks, n, target, index). n - index)") auto

partial_function (option) table_skip_gt ::
  "'a bpt_mem_scheme \<Rightarrow> ptr \<Rightarrow> nat \<Rightarrow> int \<Rightarrow> (ptr \<times> nat) option" where
  "table_skip_gt m leaf index target =
     (if leaf = NULL then Some (leaf, index)
      else do {
        n \<leftarrow> nodes m leaf;
        index \<leftarrow> table_skip_le (keys n) (num_keys n) target index;
        if index < num_keys n then Some (leaf, index)
        else table_skip_gt m (next_leaf n) 0 target
      })"

partial_function (option) table_skip_ge :: "'a bpt_mem_scheme \<Rightarrow> ptr \<Rightarrow> nat \<Rightarrow> (ptr \<times> nat) option" where
  "table_skip_ge m leaf index =
     (if leaf = NULL then Some (leaf, index)
      else do {
        n \<leftarrow> nodes m leaf;
        if index \<ge> num_keys n then table_skip_ge m (next_leaf n) 0 else Some (leaf, index)
      })"

text \<open>
  One leaf of the ascending scan: \<open>Inl\<close> when the scan returns from the function (a key failed the
  comparison, or an allocation failed), \<open>Inr\<close> when it goes on with the next leaf.
\<close>

function table_collect_prefix ::
  "'a db_mem_scheme \<Rightarrow> BPTreeNode \<Rightarrow> TableComparison \<Rightarrow> int \<Rightarrow> nat \<Rightarrow> RecordArray \<Rightarrow>
   (('a db_mem_scheme \<times> RecordArray \<times> bool) + ('a db_mem_scheme \<times> RecordArray)) option" where
  "table_collect_prefix m n comparison target index a =
     (if index < num_keys n then do {
        k \<leftarrow> arr_get (keys n) index;
        if \<not> table_compare_int k comparison target then Some (Inl (m, a, True))
        else do {
          v \<leftarrow> arr_get (vals n) index;
          (m, a, ok) \<leftarrow> table_append_record m a v;
          if ok then table_collect_prefix m n comparison target (Suc index) a
          else Some (Inl (m, no_records, False))
        }
      } else Some (Inr (m, a)))"
  by pat_completeness auto
termination by (relation "measure (\<lambda>(m, n, comparison, target, index, a). num_keys n - index)") auto

partial_function (option) table_collect_while ::
  "'a db_mem_scheme \<Rightarrow> ptr \<Rightarrow> TableComparison \<Rightarrow> int \<Rightarrow> RecordArray \<Rightarrow>
   ('a db_mem_scheme \<times> RecordArray \<times> bool) option" where
  "table_collect_while m leaf comparison target a =
     (if leaf = NULL then Some (m, a, True)
      else do {
        n \<leftarrow> nodes m leaf;
        r \<leftarrow> table_collect_prefix m n comparison target 0 a;
        (case r of
           Inl res \<Rightarrow> Some res
         | Inr ma \<Rightarrow> table_collect_while (fst ma) (next_leaf n) comparison target (snd ma))
      })"

definition table_find_by_id_condition ::
  "'a db_mem_scheme \<Rightarrow> Table option \<Rightarrow> TableComparison \<Rightarrow> int \<Rightarrow>
   ('a db_mem_scheme \<times> RecordArray \<times> bool) option" where
  "table_find_by_id_condition m table comparison target =
     (case table of
        None \<Rightarrow> Some (m, no_records, False)
      | Some t \<Rightarrow>
          if comparison = TABLE_COMPARISON_EQ then do {
            record \<leftarrow> table_find_by_id m table target;
            if record = NULL then Some (m, no_records, True)
            else table_append_record m no_records record
          }
          else if comparison = TABLE_COMPARISON_GT \<or> comparison = TABLE_COMPARISON_GE then do {
            leaf \<leftarrow> table_find_id_leaf m table target;
            if leaf = NULL then Some (m, no_records, True)
            else do {
              n \<leftarrow> nodes m leaf;
              index \<leftarrow> table_find_insert_index (keys n) (num_keys n) target 0;
              (leaf, index) \<leftarrow>
                (if comparison = TABLE_COMPARISON_GT then table_skip_gt m leaf index target
                 else table_skip_ge m leaf index);
              if leaf = NULL then Some (m, no_records, True)
              else table_collect_leaf_chain m leaf index
            }
          }
          else do {
            leaf \<leftarrow> table_find_leftmost_leaf m table;
            table_collect_while m leaf comparison target no_records
          })"

section \<open>Printing\<close>

text \<open>Printing returns the text written to the standard output.\<close>

definition table_print_record :: "'a db_mem_scheme \<Rightarrow> ptr \<Rightarrow> string option" where
  "table_print_record m record =
     (if record = NULL then Some []
      else do {
        r \<leftarrow> recs m record;
        nm \<leftarrow> cstr_get (rec_name r);
        Some (''id='' @ show_int (rec_id r) @ '', name='' @ [CHR 0x27] @ nm @ [CHR 0x27] @
              '', age='' @ show_int (rec_age r) @ [CHR 0x0A])
      })"

function table_print_from :: "'a db_mem_scheme \<Rightarrow> ptr option list \<Rightarrow> nat \<Rightarrow> nat \<Rightarrow> string option" where
  "table_print_from m records n index =
     (if index < n then do {
        p \<leftarrow> tmp_get records index;
        out \<leftarrow> table_print_record m p;
        rest \<leftarrow> table_print_from m records n (Suc index);
        Some (out @ rest)
      } else Some [])"
  by pat_completeness auto
termination by (relation "measure (\<lambda>(m, records, n, index). n - index)") auto

text \<open>An array that was never allocated is the null pointer; it has no cells.\<close>

definition table_print_records ::
  "'a db_mem_scheme \<Rightarrow> ptr option list \<Rightarrow> nat \<Rightarrow> (string \<times> nat) option" where
  "table_print_records m records row_count =
     (if records = [] then Some ([], 0)
      else do {
        out \<leftarrow> table_print_from m records row_count 0;
        Some (out, row_count)
      })"

definition table_print_all :: "'a db_mem_scheme \<Rightarrow> Table option \<Rightarrow> (string \<times> nat) option" where
  "table_print_all m table =
     (case table of
        None \<Rightarrow> Some ([], 0)
      | Some t \<Rightarrow> table_print_records m (rows t) (tsize t))"

declare table_find_insert_index.simps [simp del] table_child_index.simps [simp del]
  table_collect_leaf.simps [simp del] table_free_rows.simps [simp del] table_first_from.simps [simp del]
  table_matches_from.simps [simp del] table_skip_le.simps [simp del] table_collect_prefix.simps [simp del]
  table_print_from.simps [simp del]

declare table_leftmost_from.simps [code] table_id_leaf_from.simps [code]
  table_collect_chain_from.simps [code] table_skip_gt.simps [code] table_skip_ge.simps [code]
  table_collect_while.simps [code]

end
