(* ===== verification/Table_Refine.thy ===== *)
theory Table_Refine
  imports Table
begin

text \<open>
  The users table against its specification: a list of records in insertion order. \<open>table_rep m t ps rs\<close>
  relates the table \<open>t\<close> in memory \<open>m\<close> to the list \<open>rs\<close> of its records, stored at the addresses \<open>ps\<close>, with the
  index holding exactly their keys and the table, its array and the header of its tree in three blocks of their own. The operations
  of \<^verbatim>\<open>src/core/table.c\<close> are proved against it: lookups and conditions return the addresses of the records that a filter of the
  list selects. Two theorems say what an insertion does when an allocation fails: the first one leaves the table as it was, the third one
  of a split breaks it.
\<close>

section \<open>Representation\<close>

definition row_ok :: "Record \<Rightarrow> bool" where
  "row_ok r \<longleftrightarrow> length (rec_name r) = RECORD_NAME_SIZE \<and> NUL \<in> set (rec_name r)"

text \<open>The blocks that are allocated are those of the table: its structure, the header of its tree, and its array of rows, if it has one.\<close>

definition table_owns :: "'a alloc_mem_scheme \<Rightarrow> Table \<Rightarrow> bool" where
  "table_owns m t \<longleftrightarrow> NULL < table_block t \<and> NULL < index_block (pk_index t) \<and>
     distinct [table_block t, index_block (pk_index t), rows_block t] \<and>
     (\<forall>p. p \<in> blocks m \<longleftrightarrow> p \<noteq> NULL \<and> p \<in> {table_block t, index_block (pk_index t), rows_block t}) \<and> (\<forall>p \<in> blocks m. p < brk m)"

definition table_rep :: "'a db_mem_scheme \<Rightarrow> Table \<Rightarrow> ptr list \<Rightarrow> Record list \<Rightarrow> bool" where
  "table_rep m t ps rs \<longleftrightarrow>
     length ps = length rs \<and> tsize t = length rs \<and> length (rows t) = capacity t \<and> tsize t \<le> capacity t \<and>
     take (tsize t) (rows t) = map Some ps \<and> map (recs m) ps = map Some rs \<and> distinct ps \<and>
     (\<forall>p \<in> set ps. NULL < p \<and> p < brk m) \<and> dom (recs m) = set ps \<and>
     sorted_wrt (<) (map rec_id rs) \<and> (\<forall>r \<in> set rs. 1 \<le> rec_id r \<and> rec_id r < next_id t \<and> row_ok r) \<and>
     1 \<le> next_id t \<and> next_id t \<le> INT_MAX \<and> bpt_index m (pk_index t) (zip (map rec_id rs) ps) \<and> table_owns m t"

definition match_ptrs :: "(Record \<Rightarrow> bool) \<Rightarrow> ptr list \<Rightarrow> Record list \<Rightarrow> ptr list" where
  "match_ptrs P ps rs = map fst (filter (\<lambda>x. P (snd x)) (zip ps rs))"

definition first_ptr :: "(Record \<Rightarrow> bool) \<Rightarrow> ptr list \<Rightarrow> Record list \<Rightarrow> ptr" where
  "first_ptr P ps rs = hd (match_ptrs P ps rs @ [NULL])"

text \<open>The array \<^verbatim>\<open>name\<close> of a record created from \<open>nm\<close>: at most 63 characters, padded with zeros.\<close>

definition name_buffer :: "string \<Rightarrow> string" where
  "name_buffer nm = take 63 (cstr nm @ replicate 63 NUL) @ [NUL]"

definition new_record :: "int \<Rightarrow> string \<Rightarrow> int \<Rightarrow> Record" where
  "new_record i nm age = \<lparr>rec_id = i, rec_name = name_buffer nm, rec_age = age\<rparr>"

definition arr_holds :: "RecordArray \<Rightarrow> ptr list \<Rightarrow> bool" where
  "arr_holds a xs \<longleftrightarrow> count a = length xs \<and> count a \<le> cap a \<and> length (cells a) = cap a \<and>
     take (count a) (cells a) = map Some xs"

text \<open>A step that only allocates leaves the heap as it is.\<close>

definition quiet :: "'a bpt_mem_scheme \<Rightarrow> 'a bpt_mem_scheme \<Rightarrow> bool" where
  "quiet m m' \<longleftrightarrow> (\<exists>k. m' = mem_upd m k (nodes m))"

definition collects ::
  "'a db_mem_scheme \<Rightarrow> ('a db_mem_scheme \<times> RecordArray \<times> bool) option \<Rightarrow> ptr list \<Rightarrow> bool" where
  "collects m r xs \<longleftrightarrow> (\<exists>m' a. r = Some (m', a, True) \<and> arr_holds a xs \<and> quiet m m')"

section \<open>Memory\<close>

lemma recs_mem_upd [simp]: "recs (mem_upd m j h) = recs m"
  by (simp add: mem_upd_def)

lemma recs_more: "bpt_mem.more m' = bpt_mem.more m \<Longrightarrow> recs m' = recs m"
  by (cases m; cases m') (simp add: bpt_mem.defs)

lemma quiet_refl [simp]: "quiet m m"
  unfolding quiet_def by (metis mem_upd_id)

lemma quiet_trans [trans]: "quiet m1 m2 \<Longrightarrow> quiet m2 m3 \<Longrightarrow> quiet m1 m3"
  unfolding quiet_def by (metis mem_upd_simps(1,6))

lemma quiet_simps:
  assumes "quiet m m'"
  shows "nodes m' = nodes m" "live_mem m \<Longrightarrow> live_mem m'" "brk m \<le> brk m'" "blocks m' = blocks m"
  using assms by (auto simp: quiet_def)

lemma quiet_recs: "quiet m m' \<Longrightarrow> recs m' = recs m"
  by (auto simp: quiet_def)

lemma alloc_live:
  assumes "live_mem m"
  shows "alloc m = (mem_upd m 1 (nodes m), brk m)" "0 < brk m" "quiet m (mem_upd m 1 (nodes m))"
proof -
  have "alloc_ok m (allocs m)" using assms no_oom_def [of m] unfolding live_mem_def by (metis add_0_right)
  then show "alloc m = (mem_upd m 1 (nodes m), brk m)" by (simp add: alloc_def mem_upd_def)
  show "0 < brk m" using assms by (simp add: live_mem_def)
  show "quiet m (mem_upd m 1 (nodes m))" unfolding quiet_def by blast
qed

lemma block_recs [simp]: "recs (take_block m p) = recs m" "recs (drop_block m p) = recs m"
  by (simp_all add: take_block_def drop_block_def)

lemma ownsI:
  assumes "NULL < table_block t" "NULL < index_block (pk_index t)" "distinct [table_block t, index_block (pk_index t), rows_block t]"
    "\<And>p. p \<in> blocks m \<longleftrightarrow> p \<noteq> NULL \<and> (p = table_block t \<or> p = index_block (pk_index t) \<or> p = rows_block t)"
    "table_block t < brk m" "index_block (pk_index t) < brk m" "rows_block t < brk m"
  shows "table_owns m t"
proof -
  have "p < brk m" if "p \<in> blocks m" for p using that assms(4) [of p] assms(5-7) by blast
  then show ?thesis using assms(1-4) unfolding table_owns_def by simp
qed

lemma ownsD:
  assumes "table_owns m t"
  shows "NULL < table_block t" "NULL < index_block (pk_index t)" "table_block t \<noteq> index_block (pk_index t)"
    "table_block t \<noteq> rows_block t" "index_block (pk_index t) \<noteq> rows_block t"
    "p \<in> blocks m \<longleftrightarrow> p \<noteq> NULL \<and> (p = table_block t \<or> p = index_block (pk_index t) \<or> p = rows_block t)"
    "table_block t < brk m" "index_block (pk_index t) < brk m" "rows_block t < brk m"
proof -
  have a: "NULL < table_block t" "NULL < index_block (pk_index t)" "\<And>p. p \<in> blocks m \<Longrightarrow> p < brk m"
    "\<And>p. p \<in> blocks m \<longleftrightarrow> p \<noteq> NULL \<and> (p = table_block t \<or> p = index_block (pk_index t) \<or> p = rows_block t)"
    using assms unfolding table_owns_def by simp_all
  then show b: "table_block t < brk m" "index_block (pk_index t) < brk m" by simp_all
  show "rows_block t < brk m" using a(3) [of "rows_block t"] a(4) [of "rows_block t"] b(1) by (cases "rows_block t = 0") auto
qed (use assms in \<open>simp_all add: table_owns_def\<close>)

lemma owns_frame: "table_owns m t \<Longrightarrow> blocks m' = blocks m \<Longrightarrow> brk m \<le> brk m' \<Longrightarrow> table_owns m' t"
  by (auto simp: table_owns_def intro: less_le_trans)

lemma table_rep_quiet:
  assumes "table_rep m t ps rs" "quiet m m'"
  shows "table_rep m' t ps rs"
proof -
  have "bpt_index m' (pk_index t) (zip (map rec_id rs) ps)"
    using assms pk.repr_keeps [of m _ _ m'] quiet_simps [OF assms(2)] by (auto simp: table_rep_def)
  moreover have "table_owns m' t"
    using assms(1) owns_frame [of m t m'] quiet_simps(3,4) [OF assms(2)] by (simp add: table_rep_def)
  ultimately show ?thesis using assms(1) quiet_simps(3) [OF assms(2)] quiet_recs [OF assms(2)]
    by (auto simp: table_rep_def intro: less_le_trans)
qed

section \<open>Growable arrays\<close>

lemma arr_holds_empty [simp]: "arr_holds no_records []"
  by (simp add: arr_holds_def no_records_def)

lemma realloc_cells_simps:
  assumes "length xs \<le> n"
  shows "length (realloc_cells xs n) = n" "take (length xs) (realloc_cells xs n) = xs"
  using assms by (simp_all add: realloc_cells_def)

lemma grown_gt: "c < grown c"
  by (simp add: grown_def)

lemma take_snoc_update: "i < length xs \<Longrightarrow> take (Suc i) (xs[i := v]) = take i xs @ [v]"
  by (simp add: take_Suc_conv_app_nth)

lemma append_record:
  assumes "arr_holds a xs" "live_mem m"
  shows "collects m (table_append_record m a p) (xs @ [p])"
proof (cases "count a < cap a")
  case True
  then show ?thesis using assms
    by (auto simp: collects_def table_append_record_def arr_holds_def take_snoc_update)
next
  case False
  then have c: "cap a = length xs" "cells a = map Some xs" "count a = length xs"
    using assms(1) by (auto simp: arr_holds_def)
  have g: "length xs < grown (length xs)" by (rule grown_gt)
  show ?thesis
    using alloc_live [OF assms(2)] g c realloc_cells_simps [of "map Some xs" "grown (length xs)"]
    by (auto simp: collects_def table_append_record_def arr_holds_def take_snoc_update Let_def)
qed

lemma collectsE:
  assumes "collects m r xs"
  obtains m' a where "r = Some (m', a, True)" "arr_holds a xs" "quiet m m'"
  using assms by (auto simp: collects_def)

lemma collects_trans: "quiet m m' \<Longrightarrow> collects m' r xs \<Longrightarrow> collects m r xs"
  unfolding collects_def using quiet_trans by blast

section \<open>Insertion\<close>

lemma ensure_capacity:
  assumes "table_rep m t ps rs" "live_mem m"
  shows "\<exists>m' t'. table_ensure_capacity m t = Some (m', t', True) \<and> live_mem m' \<and> table_rep m' t' ps rs \<and>
    tsize t' < capacity t' \<and> next_id t' = next_id t"
proof (cases "tsize t < capacity t")
  case True
  then show ?thesis using assms by (simp add: table_ensure_capacity_def)
next
  case False
  let ?c = "grown (capacity t)"
  let ?t = "t\<lparr>rows := realloc_cells (rows t) ?c, rows_block := brk m, capacity := ?c\<rparr>"
  let ?m1 = "mem_upd m 1 (nodes m)"
  let ?m2 = "if rows_block t = NULL then ?m1 else drop_block ?m1 (rows_block t)"
  let ?m = "take_block ?m2 (brk m)"
  have c: "capacity t = length rs" "rows t = map Some ps" "tsize t = length rs" "length ps = length rs"
    using assms(1) False by (auto simp: table_rep_def)
  have g: "length rs < grown (length rs)" by (rule grown_gt)
  have own: "table_owns m t" using assms(1) by (simp add: table_rep_def)
  have m: "live_mem ?m" "nodes ?m = nodes m" "recs ?m = recs m" "brk ?m = Suc (brk m)" using assms(2) by auto
  note o = ownsD [OF own]
  have f: "free_block ?m1 (rows_block t) = Some ?m2" using o(6) by (simp add: free_block_def)
  have "bpt_index ?m (pk_index t) (zip (map rec_id rs) ps)"
    using assms(1) bpt_index_frame [of m "pk_index t" _ ?m] m(2,4) by (simp add: table_rep_def)
  moreover have "table_owns ?m ?t"
  proof (rule ownsI)
    fix p
    show "p \<in> blocks ?m \<longleftrightarrow> p \<noteq> NULL \<and> (p = table_block ?t \<or> p = index_block (pk_index ?t) \<or> p = rows_block ?t)"
      using o(1-6) o(6) [of p] alloc_live(2) [OF assms(2)] by (cases "rows_block t = NULL") auto
  qed (use o(1-5,7-9) m(4) in simp_all)
  ultimately have "table_rep ?m ?t ps rs"
    using assms(1) c g m(3,4) realloc_cells_simps [of "map Some ps" ?c] by (auto simp: table_rep_def)
  moreover have "table_ensure_capacity m t = Some (?m, ?t, True)"
    using alloc_live(1,2) [OF assms(2)] False f by (simp add: table_ensure_capacity_def Let_def)
  ultimately show ?thesis using m(1) g c by auto
qed

lemma insert_name_buffer:
  "strncpy (rec_name zero_record) nm 63 = Some (name_buffer nm)"
  "arr_set (name_buffer nm) 63 NUL = Some (name_buffer nm)"
proof -
  have "drop 63 (replicate 64 NUL) = [NUL]" by (simp add: eval_nat_numeral)
  then show "strncpy (rec_name zero_record) nm 63 = Some (name_buffer nm)"
    by (simp add: strncpy_def zero_record_def name_buffer_def)
  have "length (take 63 (cstr nm @ replicate 63 NUL)) = 63" by simp
  then show "arr_set (name_buffer nm) 63 NUL = Some (name_buffer nm)"
    unfolding arr_set_def name_buffer_def by (metis length_append_singleton lessI list_update_length)
qed

lemma row_ok_new [simp]: "row_ok (new_record i nm age)"
  by (simp add: row_ok_def new_record_def name_buffer_def)

lemma set_rec_simps [simp]:
  "nodes (set_rec m p r) = nodes m" "brk (set_rec m p r) = brk m" "recs (set_rec m p r) = (recs m)(p \<mapsto> r)"
  "live_mem (set_rec m p r) = live_mem m" "blocks (set_rec m p r) = blocks m"
  by (simp_all add: set_rec_def live_mem_def no_oom_def)

lemma table_insert_rep:
  assumes rep: "table_rep m t ps rs" and live: "live_mem m" and room: "next_id t < INT_MAX"
  shows "\<exists>m' t' p. table_insert m (Some t) (Some nm) age = Some (m', Some t', p) \<and> p \<noteq> NULL \<and>
    table_rep m' t' (ps @ [p]) (rs @ [new_record (next_id t) nm age]) \<and> live_mem m' \<and>
    next_id t' = next_id t + 1"
proof -
  obtain m1 t1 where e: "table_ensure_capacity m t = Some (m1, t1, True)" "live_mem m1" "table_rep m1 t1 ps rs"
    "tsize t1 < capacity t1" "next_id t1 = next_id t"
    using ensure_capacity [OF rep live] by blast
  have live1: "live_mem m1" by (rule e(2))
  let ?r = "new_record (next_id t) nm age" and ?p = "brk m1"
  let ?m2 = "set_rec (mem_upd m1 1 (nodes m1)) ?p ?r"
  let ?kvs = "zip (map rec_id rs) ps"
  have "bpt_index ?m2 (pk_index t1) ?kvs"
    using e(3) pk.repr_keeps [of m1 "pk_index t1" ?kvs ?m2] by (simp add: table_rep_def)
  moreover have "\<forall>kv \<in> set ?kvs. fst kv < next_id t"
    using e(3,5) by (auto simp: table_rep_def dest!: set_zip_leftD)
  ultimately obtain m3 tree where i: "bptree_insert ?m2 (pk_index t1) (next_id t) ?p = Some (m3, tree, True)"
    "bpt_index m3 tree (?kvs @ [(next_id t, ?p)])" "live_mem m3" "bpt_mem.more m3 = bpt_mem.more ?m2" "brk ?m2 \<le> brk m3"
    "blocks m3 = blocks m1" "index_block tree = index_block (pk_index t1)"
    using pk.insert_last [of ?m2 "pk_index t1" ?kvs "next_id t" ?p] live1 by auto
  let ?t3 = "t1\<lparr>next_id := next_id t + 1, rows := (rows t1)[tsize t1 := Some ?p], pk_index := tree, tsize := Suc (tsize t1)\<rparr>"
  have "table_insert m (Some t) (Some nm) age = Some (m3, Some ?t3, ?p)"
    using e i(1) alloc_live [OF live1] room
    by (simp add: table_insert_def insert_name_buffer new_record_def table_rep_def)
  moreover have r3: "recs m3 = (recs m1)(?p \<mapsto> ?r)" using recs_more [OF i(4)] by simp
  moreover have fresh: "?p \<notin> set ps" using e(3) by (auto simp: table_rep_def)
  moreover have "table_rep m3 ?t3 (ps @ [?p]) (rs @ [?r])"
  proof -
    have a: "length (rows t1) = capacity t1" "tsize t1 = length rs" "length ps = length rs"
      "take (length rs) (rows t1) = map Some ps" "map (recs m1) ps = map Some rs"
      using e(3) by (auto simp: table_rep_def)
    have "map (recs m3) ps = map Some rs" unfolding r3 a(5) [symmetric] using fresh by auto
    moreover have "recs m3 ?p = Some ?r" by (simp add: r3)
    moreover have "take (Suc (length rs)) ((rows t1)[length rs := Some ?p]) = map Some (ps @ [?p])"
      using a e(4) by (simp add: take_snoc_update)
    moreover have "\<forall>p \<in> set (ps @ [?p]). NULL < p \<and> p < brk m3"
      using e(3) i(5) alloc_live(2) [OF live1] by (auto simp: table_rep_def)
    moreover have "dom (recs m3) = set (ps @ [?p])" using e(3) by (auto simp: table_rep_def r3)
    moreover have "zip (map rec_id (rs @ [?r])) (ps @ [?p]) = ?kvs @ [(next_id t, ?p)]"
      using a(3) by (simp add: new_record_def)
    moreover have "sorted_wrt (<) (map rec_id (rs @ [?r]))"
      using e(3,5) by (auto simp: table_rep_def sorted_wrt_append new_record_def)
    moreover have "\<forall>r \<in> set (rs @ [?r]). 1 \<le> rec_id r \<and> rec_id r < next_id t + 1 \<and> row_ok r"
      using e(3,5) row_ok_new [of "next_id t" nm age] by (auto simp: table_rep_def new_record_def)
    moreover have "table_owns m3 ?t3"
    proof -
      have "table_owns m1 t1" using e(3) by (simp add: table_rep_def)
      note o = ownsD [OF this]
      have "brk m1 < brk m3" using i(5) by simp
      then show ?thesis using o i(6,7) by (intro ownsI) simp_all
    qed
    ultimately show ?thesis
      using a e(3,4,5) i(2) fresh room by (simp add: table_rep_def)
  qed
  ultimately show ?thesis using i(3) alloc_live(2) [OF live1] by auto
qed

lemma table_insert_overflow:
  assumes "table_rep m t ps rs" "live_mem m" "next_id t = INT_MAX"
  shows "table_insert m (Some t) (Some nm) age = None"
proof -
  obtain m1 t1 where e: "table_ensure_capacity m t = Some (m1, t1, True)" "live_mem m1" "next_id t1 = next_id t"
    using ensure_capacity [OF assms(1,2)] by blast
  show ?thesis using e assms(3) alloc_live [OF e(2)] by (simp add: table_insert_def)
qed

section \<open>Scans\<close>

lemma match_ptrs_simps [simp]:
  "match_ptrs P [] rs = []" "match_ptrs P ps [] = []"
  "match_ptrs P (p # ps) (r # rs) = (if P r then [p] else []) @ match_ptrs P ps rs"
  by (simp_all add: match_ptrs_def)

lemma row_at:
  assumes "table_rep m t ps rs" "i < length rs"
  shows "tmp_get (rows t) i = Some (ps ! i)" "recs m (ps ! i) = Some (rs ! i)"
proof -
  have a: "take (length rs) (rows t) = map Some ps" "length rs \<le> length (rows t)" "length ps = length rs"
    "map (recs m) ps = map Some rs" using assms by (auto simp: table_rep_def)
  have "rows t ! i = take (length rs) (rows t) ! i" using assms(2) by simp
  then show "tmp_get (rows t) i = Some (ps ! i)" using a assms(2) by (simp add: tmp_get_def arr_get_def)
  show "recs m (ps ! i) = Some (rs ! i)" using a assms(2) by (metis nth_map)
qed

lemma first_from:
  assumes "table_rep m t ps rs" "\<And>r. r \<in> set rs \<Longrightarrow> test r = Some (P r)" "i \<le> length rs"
  shows "table_first_from m t test i = Some (first_ptr P (drop i ps) (drop i rs))"
  using assms(3)
proof (induction "length rs - i" arbitrary: i)
  case 0
  then show ?case using assms(1)
    by (subst table_first_from.simps) (simp add: first_ptr_def table_rep_def)
next
  case (Suc d)
  then have i: "i < length rs" "i < length ps" "tsize t = length rs" using assms(1) by (auto simp: table_rep_def)
  show ?case
    using row_at [OF assms(1) i(1)] Suc.hyps(1) [of "Suc i"] Suc.hyps(2) i assms(2) [of "rs ! i"]
    by (subst table_first_from.simps)
      (simp add: Cons_nth_drop_Suc [OF i(1), symmetric] Cons_nth_drop_Suc [OF i(2), symmetric] first_ptr_def)
qed

lemma matches_from:
  assumes "table_rep m t ps rs" "\<And>r. r \<in> set rs \<Longrightarrow> test r = Some (P r)" "i \<le> length rs"
    "arr_holds a xs" "live_mem m"
  shows "collects m (table_matches_from m t test i a) (xs @ match_ptrs P (drop i ps) (drop i rs))"
  using assms(1,3,4,5)
proof (induction "length rs - i" arbitrary: i m a xs)
  case 0
  then show ?case by (subst table_matches_from.simps) (simp add: table_rep_def collects_def)
next
  case (Suc d)
  then have i: "i < length rs" "i < length ps" "tsize t = length rs" by (auto simp: table_rep_def)
  note d = Cons_nth_drop_Suc [OF i(1), symmetric] Cons_nth_drop_Suc [OF i(2), symmetric]
  note r = row_at [OF Suc.prems(1) i(1)] assms(2) [OF nth_mem [OF i(1)]]
  show ?case
  proof (cases "P (rs ! i)")
    case True
    obtain m' a' where ap: "table_append_record m a (ps ! i) = Some (m', a', True)" "arr_holds a' (xs @ [ps ! i])" "quiet m m'"
      using append_record [OF Suc.prems(3,4)] by (rule collectsE)
    have "collects m' (table_matches_from m' t test (Suc i) a') ((xs @ [ps ! i]) @ match_ptrs P (drop (Suc i) ps) (drop (Suc i) rs))"
      using Suc.hyps(2) i(1) by (intro Suc.hyps(1) table_rep_quiet [OF Suc.prems(1) ap(3)] ap(2) quiet_simps(2) [OF ap(3) Suc.prems(4)]) auto
    then show ?thesis using collects_trans [OF ap(3)] r True i ap(1)
      by (subst table_matches_from.simps) (simp add: d)
  next
    case False
    then show ?thesis using Suc.hyps(1) [of "Suc i", OF _ Suc.prems(1) _ Suc.prems(3,4)] Suc.hyps(2) r i
      by (subst table_matches_from.simps) (simp add: d)
  qed
qed

lemma name_test: "row_ok r \<Longrightarrow> strcmp_eq (rec_name r) nm = Some (cstr (rec_name r) = cstr nm)"
  by (simp add: strcmp_eq_def cstr_get_def row_ok_def)

lemma rep_row_ok: "table_rep m t ps rs \<Longrightarrow> r \<in> set rs \<Longrightarrow> row_ok r"
  by (simp add: table_rep_def)

lemma scan_by_id:
  "table_rep m t ps rs \<Longrightarrow> table_scan_by_id m (Some t) k = Some (first_ptr (\<lambda>r. rec_id r = k) ps rs)"
  using first_from [of m t ps rs "\<lambda>r. Some (rec_id r = k)" "\<lambda>r. rec_id r = k" 0] by (simp add: table_scan_by_id_def)

lemma find_by_age:
  "table_rep m t ps rs \<Longrightarrow> table_find_by_age m (Some t) k = Some (first_ptr (\<lambda>r. rec_age r = k) ps rs)"
  using first_from [of m t ps rs "\<lambda>r. Some (rec_age r = k)" "\<lambda>r. rec_age r = k" 0] by (simp add: table_find_by_age_def)

lemma find_by_name:
  "table_rep m t ps rs \<Longrightarrow>
    table_find_by_name m (Some t) (Some nm) = Some (first_ptr (\<lambda>r. cstr (rec_name r) = cstr nm) ps rs)"
  using first_from [of m t ps rs "\<lambda>r. strcmp_eq (rec_name r) nm" "\<lambda>r. cstr (rec_name r) = cstr nm" 0]
    name_test rep_row_ok [of m t ps rs] by (simp add: table_find_by_name_def)

lemma map_of_first_ptr:
  "length ps = length rs \<Longrightarrow>
   (case map_of (zip (map rec_id rs) ps) k of None \<Rightarrow> NULL | Some v \<Rightarrow> v) = first_ptr (\<lambda>r. rec_id r = k) ps rs"
  by (induction ps rs rule: list_induct2) (auto simp: first_ptr_def)

lemma find_by_id:
  assumes "table_rep m t ps rs"
  shows "table_find_by_id m (Some t) k = Some (first_ptr (\<lambda>r. rec_id r = k) ps rs)"
proof -
  have "bpt_index m (pk_index t) (zip (map rec_id rs) ps)" "length ps = length rs" using assms by (auto simp: table_rep_def)
  then show ?thesis using pk.search_repr [of m "pk_index t" _ k] map_of_first_ptr [of ps rs k] by (simp add: table_find_by_id_def)
qed

lemma name_matches:
  assumes "table_rep m t ps rs" "live_mem m"
  shows "collects m (table_find_by_name_matches m (Some t) (Some nm)) (match_ptrs (\<lambda>r. cstr (rec_name r) = cstr nm) ps rs)"
  using matches_from [OF assms(1) _ _ arr_holds_empty assms(2), of "\<lambda>r. strcmp_eq (rec_name r) nm" "\<lambda>r. cstr (rec_name r) = cstr nm" 0]
    name_test rep_row_ok [OF assms(1)] by (simp add: table_find_by_name_matches_def)

lemma age_condition:
  assumes "table_rep m t ps rs" "live_mem m"
  shows "collects m (table_find_by_age_condition m (Some t) c k) (match_ptrs (\<lambda>r. table_compare_int (rec_age r) c k) ps rs)"
  using matches_from [OF assms(1) _ _ arr_holds_empty assms(2), of "\<lambda>r. Some (table_compare_int (rec_age r) c k)" "\<lambda>r. table_compare_int (rec_age r) c k" 0]
  by (simp add: table_find_by_age_condition_def)

lemma collect_all:
  assumes "table_rep m t ps rs" "live_mem m"
  shows "collects m (table_collect_all m (Some t)) ps"
proof (cases "rs = []")
  case True
  then show ?thesis using assms by (auto simp: table_collect_all_def table_copy_records_def collects_def table_rep_def)
next
  case False
  have a: "take (length rs) (rows t) = map Some ps" "length rs \<le> length (rows t)" "tsize t = length rs" "length ps = length rs"
    using assms(1) by (auto simp: table_rep_def)
  show ?thesis using False alloc_live [OF assms(2)] a
    by (auto simp: table_collect_all_def table_copy_records_def collects_def arr_holds_def Let_def)
qed

section \<open>Leaf scans\<close>

lemma leaf_node_at:
  assumes "leaf_node n q kvs" "i < length kvs"
  shows "arr_get (keys n) i = Some (fst (kvs ! i))" "arr_get (vals n) i = Some (snd (kvs ! i))"
proof -
  have a: "take (length kvs) (keys n) = map fst kvs" "take (length kvs) (vals n) = map snd kvs"
    using assms(1) by (auto simp: leaf_node_def)
  then have "length kvs \<le> length (keys n)" "length kvs \<le> length (vals n)"
    by (metis length_map length_take min.cobounded1)+
  moreover have "keys n ! i = take (length kvs) (keys n) ! i" "vals n ! i = take (length kvs) (vals n) ! i"
    using assms(2) by simp_all
  ultimately show "arr_get (keys n) i = Some (fst (kvs ! i))" "arr_get (vals n) i = Some (snd (kvs ! i))"
    using a assms(2) by (simp_all add: arr_get_def)
qed

lemma leaf_num_keys: "leaf_node n q kvs \<Longrightarrow> num_keys n = length kvs"
  by (simp add: leaf_node_def)

lemma collect_leaf:
  assumes "leaf_node n q kvs" "i \<le> length kvs" "arr_holds a xs" "live_mem m"
  shows "collects m (table_collect_leaf m n i a) (xs @ map snd (drop i kvs))"
  using assms(2-4)
proof (induction "length kvs - i" arbitrary: i m a xs)
  case 0
  then show ?case using assms(1) by (subst table_collect_leaf.simps) (simp add: leaf_node_def collects_def)
next
  case (Suc d)
  then have i: "i < length kvs" by simp
  have v: "arr_get (vals n) i = Some (snd (kvs ! i))" "num_keys n = length kvs"
    using leaf_node_at [OF assms(1) i] leaf_num_keys [OF assms(1)] by simp_all
  obtain m' a' where ap: "table_append_record m a (snd (kvs ! i)) = Some (m', a', True)" "arr_holds a' (xs @ [snd (kvs ! i)])" "quiet m m'"
    using append_record [OF Suc.prems(2,3)] by (rule collectsE)
  have "collects m' (table_collect_leaf m' n (Suc i) a') ((xs @ [snd (kvs ! i)]) @ map snd (drop (Suc i) kvs))"
    using Suc.hyps(2) i by (intro Suc.hyps(1) ap(2) quiet_simps(2) [OF ap(3) Suc.prems(3)]) auto
  then show ?case using collects_trans [OF ap(3)] v i ap(1)
    by (subst table_collect_leaf.simps) (simp add: Cons_nth_drop_Suc [OF i, symmetric])
qed

lemma collect_chain:
  assumes "leaf_list (nodes m) p ls" "i \<le> length (concat (map snd (take 1 ls)))" "arr_holds a xs" "live_mem m"
  shows "collects m (table_collect_chain_from m p i a) (xs @ map snd (drop i (concat (map snd ls))))"
  using assms
proof (induction ls arbitrary: m p i a xs)
  case Nil
  then show ?case by (subst table_collect_chain_from.simps) (simp add: collects_def)
next
  case (Cons l ls)
  obtain n where n: "nodes m p = Some n" "leaf_node n (parent n) (snd l)" "leaf_list (nodes m) (next_leaf n) ls" "p \<noteq> NULL"
    using Cons.prems(1) by (auto split: option.splits)
  have i: "i \<le> length (snd l)" using Cons.prems(2) by simp
  obtain m' a' where c: "table_collect_leaf m n i a = Some (m', a', True)" "arr_holds a' (xs @ map snd (drop i (snd l)))" "quiet m m'"
    using collect_leaf [OF n(2) i Cons.prems(3,4)] by (rule collectsE)
  have "collects m' (table_collect_chain_from m' (next_leaf n) 0 a') ((xs @ map snd (drop i (snd l))) @ map snd (drop 0 (concat (map snd ls))))"
    using c(2) n(3) quiet_simps [OF c(3)] Cons.prems(4) by (intro Cons.IH) auto
  then show ?case using collects_trans [OF c(3)] n(1,4) c(1) i
    by (subst table_collect_chain_from.simps) simp
qed

lemma skip_le_from:
  assumes "leaf_node n q kvs" "i \<le> length kvs"
  shows "table_skip_le (keys n) (num_keys n) k i = Some (i + length (takeWhile (\<lambda>kv. fst kv \<le> k) (drop i kvs)))"
  using assms(2)
proof (induction "length kvs - i" arbitrary: i)
  case 0
  then show ?case using leaf_num_keys [OF assms(1)] by (subst table_skip_le.simps) simp
next
  case (Suc d)
  then have i: "i < length kvs" by simp
  show ?case using leaf_node_at [OF assms(1) i] leaf_num_keys [OF assms(1)] i Suc.hyps
    by (subst table_skip_le.simps) (simp add: Cons_nth_drop_Suc [OF i, symmetric])
qed

lemma find_insert_index_leaf:
  assumes "leaf_node n q kvs" "i \<le> length kvs"
  shows "table_find_insert_index (keys n) (num_keys n) k i = Some (i + length (takeWhile (\<lambda>kv. fst kv < k) (drop i kvs)))"
  using assms(2)
proof (induction "length kvs - i" arbitrary: i)
  case 0
  then show ?case using leaf_num_keys [OF assms(1)] by (subst table_find_insert_index.simps) simp
next
  case (Suc d)
  then have i: "i < length kvs" by simp
  show ?case using leaf_node_at [OF assms(1) i] leaf_num_keys [OF assms(1)] i Suc.hyps
    by (subst table_find_insert_index.simps) (simp add: Cons_nth_drop_Suc [OF i, symmetric])
qed

text \<open>A position in the chain: a leaf and an index into it, denoting the pairs from there on.\<close>

definition chain_pos :: "(ptr \<Rightarrow> BPTreeNode option) \<Rightarrow> ptr \<times> nat \<Rightarrow> (int \<times> ptr) list \<Rightarrow> bool" where
  "chain_pos h pos kvs \<longleftrightarrow> (\<exists>ls. leaf_list h (fst pos) ls \<and> snd pos \<le> length (concat (map snd (take 1 ls))) \<and>
     kvs = drop (snd pos) (concat (map snd ls)))"

lemma chain_pos_NULL: "chain_pos h (NULL, i) kvs \<Longrightarrow> kvs = []"
  unfolding chain_pos_def by (metis concat.simps(1) drop_Nil fst_conv leaf_list.elims(2) list.simps(8))

lemma leaf_list_Cons:
  assumes "leaf_list h p (l # ls)"
  obtains n where "h p = Some n" "leaf_node n (parent n) (snd l)" "leaf_list h (next_leaf n) ls" "p \<noteq> NULL"
  using assms by (auto split: option.splits)

lemma chain_pos_next: "leaf_list h p ls \<Longrightarrow> chain_pos h (p, 0) (concat (map snd ls))"
  by (auto simp: chain_pos_def)

lemma skip_gt:
  assumes "leaf_list (nodes m) p ls" "i \<le> length (concat (map snd (take 1 ls)))"
  shows "\<exists>pos. table_skip_gt m p i k = Some pos \<and>
    chain_pos (nodes m) pos (dropWhile (\<lambda>kv. fst kv \<le> k) (drop i (concat (map snd ls))))"
  using assms
proof (induction ls arbitrary: p i)
  case Nil
  then show ?case by (subst table_skip_gt.simps) (auto simp: chain_pos_def intro: exI [of _ "[]"])
next
  case (Cons l ls)
  obtain n where n: "nodes m p = Some n" "leaf_node n (parent n) (snd l)" "leaf_list (nodes m) (next_leaf n) ls" "p \<noteq> NULL"
    using Cons.prems(1) by (rule leaf_list_Cons)
  let ?P = "\<lambda>kv. fst kv \<le> k"
  let ?j = "i + length (takeWhile ?P (drop i (snd l)))"
  have i: "i \<le> length (snd l)" using Cons.prems(2) by simp
  have j: "?j \<le> length (snd l)" using length_takeWhile_le [of ?P "drop i (snd l)"] i by simp
  have dj: "drop ?j (snd l) = dropWhile ?P (drop i (snd l))" by (simp add: dropWhile_eq_drop add.commute)
  note s = skip_le_from [OF n(2) i, of k] leaf_num_keys [OF n(2)]
  show ?case
  proof (cases "?j < length (snd l)")
    case True
    have "dropWhile ?P (drop i (snd l)) \<noteq> []" using True dj by (metis drop_eq_Nil2 not_less)
    then have "dropWhile ?P (drop i (snd l) @ concat (map snd ls)) = drop ?j (snd l) @ concat (map snd ls)"
      unfolding dj by (metis dropWhile_append3 dropWhile_eq_Nil_conv dropWhile_append1)
    then have "chain_pos (nodes m) (p, ?j) (dropWhile ?P (drop i (concat (map snd (l # ls)))))"
      unfolding chain_pos_def using Cons.prems(1) i j by (intro exI [of _ "l # ls"]) (simp del: leaf_list.simps)
    moreover have "table_skip_gt m p i k = Some (p, ?j)"
      using n s True by (subst table_skip_gt.simps) simp
    ultimately show ?thesis by blast
  next
    case False
    then have "dropWhile ?P (drop i (snd l)) = []" using dj j by simp
    then have e: "dropWhile ?P (drop i (concat (map snd (l # ls)))) = dropWhile ?P (drop 0 (concat (map snd ls)))"
      using i by (simp add: dropWhile_append2)
    have "table_skip_gt m p i k = table_skip_gt m (next_leaf n) 0 k"
      using n s False by (subst table_skip_gt.simps) simp
    then show ?thesis unfolding e using Cons.IH [OF n(3), of 0] by simp
  qed
qed

lemma skip_ge:
  assumes "leaf_list (nodes m) p ls" "i \<le> length (concat (map snd (take 1 ls)))"
  shows "\<exists>pos. table_skip_ge m p i = Some pos \<and> chain_pos (nodes m) pos (drop i (concat (map snd ls)))"
  using assms
proof (induction ls arbitrary: p i)
  case Nil
  then show ?case by (subst table_skip_ge.simps) (auto simp: chain_pos_def intro: exI [of _ "[]"])
next
  case (Cons l ls)
  obtain n where n: "nodes m p = Some n" "leaf_node n (parent n) (snd l)" "leaf_list (nodes m) (next_leaf n) ls" "p \<noteq> NULL"
    using Cons.prems(1) by (rule leaf_list_Cons)
  have i: "i \<le> length (snd l)" using Cons.prems(2) by simp
  show ?case
  proof (cases "i < length (snd l)")
    case True
    then have "table_skip_ge m p i = Some (p, i)"
      using n leaf_num_keys [OF n(2)] by (subst table_skip_ge.simps) simp
    moreover have "chain_pos (nodes m) (p, i) (drop i (concat (map snd (l # ls))))"
      unfolding chain_pos_def using Cons.prems by (intro exI [of _ "l # ls"]) (simp del: leaf_list.simps)
    ultimately show ?thesis by blast
  next
    case False
    then have "table_skip_ge m p i = table_skip_ge m (next_leaf n) 0"
      using n leaf_num_keys [OF n(2)] by (subst table_skip_ge.simps) simp
    then show ?thesis using Cons.IH [OF n(3), of 0] False i by simp
  qed
qed

lemma collect_pos:
  assumes "chain_pos (nodes m) pos kvs" "live_mem m"
  shows "collects m (table_collect_leaf_chain m (fst pos) (snd pos)) (map snd kvs)"
  using assms collect_chain [of m "fst pos" _ "snd pos" no_records "[]"]
  by (auto simp: chain_pos_def table_collect_leaf_chain_def)

definition collects_prefix ::
  "'a db_mem_scheme \<Rightarrow> (('a db_mem_scheme \<times> RecordArray \<times> bool) + ('a db_mem_scheme \<times> RecordArray)) option \<Rightarrow>
   bool \<Rightarrow> ptr list \<Rightarrow> bool" where
  "collects_prefix m r all xs \<longleftrightarrow> (\<exists>m' a. r = Some (if all then Inr (m', a) else Inl (m', a, True)) \<and>
     arr_holds a xs \<and> quiet m m')"

lemma collect_prefix:
  assumes "leaf_node n q kvs" "i \<le> length kvs" "arr_holds a xs" "live_mem m"
    "P = (\<lambda>kv. table_compare_int (fst kv) c k)"
  shows "collects_prefix m (table_collect_prefix m n c k i a) (\<forall>kv \<in> set (drop i kvs). P kv)
    (xs @ map snd (takeWhile P (drop i kvs)))"
  using assms(2-4)
proof (induction "length kvs - i" arbitrary: i m a xs)
  case 0
  then show ?case using leaf_num_keys [OF assms(1)]
    by (subst table_collect_prefix.simps) (simp add: collects_prefix_def)
next
  case (Suc d)
  then have i: "i < length kvs" by simp
  note v = leaf_node_at [OF assms(1) i] leaf_num_keys [OF assms(1)]
  note dr = Cons_nth_drop_Suc [OF i, symmetric]
  show ?case
  proof (cases "P (kvs ! i)")
    case True
    obtain m' a' where ap: "table_append_record m a (snd (kvs ! i)) = Some (m', a', True)" "arr_holds a' (xs @ [snd (kvs ! i)])" "quiet m m'"
      using append_record [OF Suc.prems(2,3)] by (rule collectsE)
    have "collects_prefix m' (table_collect_prefix m' n c k (Suc i) a') (\<forall>kv \<in> set (drop (Suc i) kvs). P kv)
      ((xs @ [snd (kvs ! i)]) @ map snd (takeWhile P (drop (Suc i) kvs)))"
      using Suc.hyps(2) i by (intro Suc.hyps(1) ap(2) quiet_simps(2) [OF ap(3) Suc.prems(3)]) auto
    moreover have "table_collect_prefix m n c k i a = table_collect_prefix m' n c k (Suc i) a'"
      using v i True ap(1) by (subst table_collect_prefix.simps) (simp add: assms(5))
    ultimately show ?thesis unfolding dr using True quiet_trans [OF ap(3)] by (auto simp: collects_prefix_def)
  next
    case False
    then have "table_collect_prefix m n c k i a = Some (Inl (m, a, True))"
      using v i by (subst table_collect_prefix.simps) (simp add: assms(5))
    then show ?thesis unfolding dr using False Suc.prems(2) by (simp add: collects_prefix_def)
  qed
qed

lemma collect_while:
  assumes "leaf_list (nodes m) p ls" "arr_holds a xs" "live_mem m"
  shows "collects m (table_collect_while m p c k a)
    (xs @ map snd (takeWhile (\<lambda>kv. table_compare_int (fst kv) c k) (concat (map snd ls))))"
  using assms
proof (induction ls arbitrary: m p a xs)
  case Nil
  then show ?case by (subst table_collect_while.simps) (simp add: collects_def)
next
  case (Cons l ls)
  obtain n where n: "nodes m p = Some n" "leaf_node n (parent n) (snd l)" "leaf_list (nodes m) (next_leaf n) ls" "p \<noteq> NULL"
    using Cons.prems(1) by (rule leaf_list_Cons)
  let ?P = "\<lambda>kv. table_compare_int (fst kv) c k"
  obtain m' a' where pr: "table_collect_prefix m n c k 0 a = Some (if \<forall>kv \<in> set (snd l). ?P kv then Inr (m', a') else Inl (m', a', True))"
    "arr_holds a' (xs @ map snd (takeWhile ?P (snd l)))" "quiet m m'"
    using collect_prefix [OF n(2) _ Cons.prems(2,3) refl, of 0 c k] by (auto simp: collects_prefix_def)
  show ?case
  proof (cases "\<forall>kv \<in> set (snd l). ?P kv")
    case True
    then have tw: "takeWhile ?P (snd l) = snd l" by (intro takeWhile_eq_all_conv [THEN iffD2]) simp
    have e: "takeWhile ?P (concat (map snd (l # ls))) = takeWhile ?P (snd l) @ takeWhile ?P (concat (map snd ls))"
      using True unfolding tw by simp
    have "collects m' (table_collect_while m' (next_leaf n) c k a')
      ((xs @ map snd (takeWhile ?P (snd l))) @ map snd (takeWhile ?P (concat (map snd ls))))"
      using pr(2) n(3) quiet_simps [OF pr(3)] Cons.prems(3) by (intro Cons.IH) auto
    moreover have "table_collect_while m p c k a = table_collect_while m' (next_leaf n) c k a'"
      using n pr(1) True by (subst table_collect_while.simps) simp
    ultimately show ?thesis using collects_trans [OF pr(3)] by (simp only: e map_append append_assoc)
  next
    case False
    then have "takeWhile ?P (concat (map snd (l # ls))) = takeWhile ?P (snd l)"
      by (auto simp: takeWhile_append)
    moreover have "table_collect_while m p c k a = Some (m', a', True)"
      using n pr(1) False by (subst table_collect_while.simps) auto
    ultimately show ?thesis using pr(2,3) by (simp add: collects_def)
  qed
qed

section \<open>Finding the leaves\<close>

lemma child_index_eq: "table_child_index ks n k i = bptree_child_index ks n k i"
  by (induction ks n k i rule: bptree_child_index.induct)
    (subst table_child_index.simps, subst bptree_child_index.simps, auto split: Option.bind_splits)

lemma id_leaf_from:
  assumes "bptree_find_leaf_from m p k = Some a"
  shows "table_id_leaf_from m p k = Some a"
proof (rule bptree_find_leaf_from.raw_induct [OF _ assms, where P = "\<lambda>m p k a. table_id_leaf_from m p k = Some a"])
  fix f m p k a
  assume "\<And>m p k a. f m p k = Some a \<Longrightarrow> table_id_leaf_from m p k = Some a"
    and "do { n \<leftarrow> nodes m p; if is_leaf n then Some p
      else do { index \<leftarrow> bptree_child_index (keys n) (num_keys n) k 0; child \<leftarrow> arr_get (children n) index; f m child k } } = Some a"
  then show "table_id_leaf_from m p k = Some (a :: ptr)"
    by (subst table_id_leaf_from.simps) (auto simp: child_index_eq bind_eq_Some_conv split: if_splits)
qed

lemma id_leaf:
  assumes "bptree_find_leaf m (pk_index t) k = Some a"
  shows "table_find_id_leaf m (Some t) k = Some a"
  using assms id_leaf_from by (auto simp: table_find_id_leaf_def bptree_find_leaf_def split: option.splits)

lemma leftmost_from:
  assumes "rep (nodes m) p t" "root_filled t"
  shows "table_leftmost_from m (addr t) = Some (fst (hd (leaves t))) \<and> leaves t \<noteq> []"
  using assms
proof (induction t arbitrary: p)
  case (Lf a kvs)
  then show ?case by (subst table_leftmost_from.simps) (auto simp: leaf_node_def split: option.splits)
next
  case (Nd a ks ts)
  then obtain c cs where ts: "ts = c # cs" by (cases ts) auto
  obtain n where n: "nodes m a = Some n" "\<not> is_leaf n" "take (length ts) (children n) = map addr ts"
    using Nd.prems by (auto simp: int_node_def split: option.splits)
  then have "arr_get (children n) 0 = Some (addr c)" using ts by (cases "children n") (auto simp: arr_get_def)
  moreover have "table_leftmost_from m (addr c) = Some (fst (hd (leaves c)))" "leaves c \<noteq> []"
    using Nd ts filled_imp_root_filled by auto
  ultimately show ?case using n(1,2) ts by (subst table_leftmost_from.simps) (simp add: hd_append)
qed

section \<open>Conditions on the key\<close>

lemma filter_takeWhile_down: "sorted_wrt (\<lambda>x y. P y \<longrightarrow> P x) xs \<Longrightarrow> filter P xs = takeWhile P xs"
proof (induction xs)
  case (Cons x xs)
  show ?case
  proof (cases "P x")
    case False
    then have "filter P xs = []" using Cons.prems by (auto simp: filter_empty_conv)
    with False show ?thesis by simp
  qed (use Cons in simp)
qed simp

lemma filter_dropWhile_down: "sorted_wrt (\<lambda>x y. P y \<longrightarrow> P x) xs \<Longrightarrow> filter (\<lambda>x. \<not> P x) xs = dropWhile P xs"
proof (induction xs)
  case (Cons x xs)
  show ?case
  proof (cases "P x")
    case False
    then have "filter (\<lambda>x. \<not> P x) xs = xs" using Cons.prems by (auto simp: filter_id_conv)
    with False show ?thesis by simp
  qed (use Cons in simp)
qed simp

lemma filter_sorted:
  assumes "sorted_wrt (<) (map fst kvs)"
  shows "filter (\<lambda>kv. fst kv < k) kvs = takeWhile (\<lambda>kv. fst kv < k) kvs"
    "filter (\<lambda>kv. fst kv \<le> (k :: int)) kvs = takeWhile (\<lambda>kv. fst kv \<le> k) kvs"
    "filter (\<lambda>kv. k < fst kv) kvs = dropWhile (\<lambda>kv. fst kv \<le> k) kvs"
    "filter (\<lambda>kv. k \<le> fst kv) kvs = dropWhile (\<lambda>kv. fst kv < k) kvs"
proof -
  have lt: "sorted_wrt (\<lambda>x y. fst y < k \<longrightarrow> fst x < k) kvs" and le: "sorted_wrt (\<lambda>x y. fst y \<le> k \<longrightarrow> fst x \<le> k) kvs"
    using assms unfolding sorted_wrt_map by (auto elim!: sorted_wrt_mono_rel [rotated])
  show "filter (\<lambda>kv. fst kv < k) kvs = takeWhile (\<lambda>kv. fst kv < k) kvs"
    "filter (\<lambda>kv. fst kv \<le> k) kvs = takeWhile (\<lambda>kv. fst kv \<le> k) kvs"
    using filter_takeWhile_down [OF lt] filter_takeWhile_down [OF le] by simp_all
  show "filter (\<lambda>kv. k < fst kv) kvs = dropWhile (\<lambda>kv. fst kv \<le> k) kvs"
    "filter (\<lambda>kv. k \<le> fst kv) kvs = dropWhile (\<lambda>kv. fst kv < k) kvs"
    using filter_dropWhile_down [OF lt] filter_dropWhile_down [OF le] by (simp_all add: not_le not_less)
qed

lemma match_ptrs_index:
  "length ps = length rs \<Longrightarrow>
   map snd (filter (\<lambda>kv. Q (fst kv)) (zip (map rec_id rs) ps)) = match_ptrs (\<lambda>r. Q (rec_id r)) ps rs"
  by (induction ps rs rule: list_induct2) auto

lemma match_unique:
  assumes "sorted_wrt (<) (map rec_id rs)" "length ps = length rs"
  shows "length (match_ptrs (\<lambda>r. rec_id r = k) ps rs) \<le> 1"
  using assms(2,1)
proof (induction ps rs rule: list_induct2)
  case (Cons p ps r rs)
  have "match_ptrs (\<lambda>r. rec_id r = k) ps rs = []" if "rec_id r = k"
    using Cons.prems that by (auto simp: match_ptrs_def filter_empty_conv dest!: set_zip_rightD)
  then show ?case using Cons by auto
qed simp

lemma id_condition_eq:
  assumes "table_rep m t ps rs" "live_mem m"
  shows "collects m (table_find_by_id_condition m (Some t) TABLE_COMPARISON_EQ k) (match_ptrs (\<lambda>r. rec_id r = k) ps rs)"
proof -
  have a: "sorted_wrt (<) (map rec_id rs)" "length ps = length rs" "NULL \<notin> set ps" using assms(1) by (auto simp: table_rep_def)
  let ?M = "match_ptrs (\<lambda>r. rec_id r = k) ps rs"
  have sub: "set ?M \<subseteq> set ps" by (auto simp: match_ptrs_def dest!: set_zip_leftD)
  show ?thesis
  proof (cases ?M)
    case Nil
    then show ?thesis using find_by_id [OF assms(1), of k]
      by (simp add: table_find_by_id_condition_def first_ptr_def collects_def)
  next
    case (Cons p xs)
    then have p: "p \<noteq> NULL" using sub a(3) by (metis list.set_intros(1) subsetD)
    then have "first_ptr (\<lambda>r. rec_id r = k) ps rs = p" using Cons by (simp add: first_ptr_def)
    moreover from this have "?M = [p]" using match_unique [OF a(1,2), of k] Cons by simp
    ultimately show ?thesis using find_by_id [OF assms(1), of k] p append_record [OF arr_holds_empty assms(2), of p]
      by (simp add: table_find_by_id_condition_def)
  qed
qed

lemma id_condition_root_NULL:
  assumes "table_rep m t ps rs" "pk_index t = Some tree" "root tree = NULL" "c \<noteq> TABLE_COMPARISON_EQ"
  shows "collects m (table_find_by_id_condition m (Some t) c k) [] \<and> rs = []"
proof -
  have "zip (map rec_id rs) ps = []" "length ps = length rs"
    using assms by (auto simp: table_rep_def bpt_index_def)
  then have "rs = []" by (cases rs; cases ps) auto
  moreover have "table_find_id_leaf m (Some t) k = Some NULL" "table_find_leftmost_leaf m (Some t) = Some NULL"
    using assms by (simp_all add: table_find_id_leaf_def table_find_leftmost_leaf_def)
  moreover have "table_collect_while m NULL c k no_records = Some (m, no_records, True)"
    by (subst table_collect_while.simps) simp
  ultimately show ?thesis using assms(4)
    by (simp add: table_find_by_id_condition_def collects_def)
qed

lemma dropWhile_id: "(\<And>x. x \<in> set xs \<Longrightarrow> \<not> P x) \<Longrightarrow> dropWhile P xs = xs"
  by (cases xs) auto

lemma id_condition_lower:
  assumes idx: "bpt_index m (pk_index t) kvs" and tree: "pk_index t = Some tree" "root tree \<noteq> NULL"
    and live: "live_mem m" and c: "c = TABLE_COMPARISON_LT \<or> c = TABLE_COMPARISON_LE"
  shows "collects m (table_find_by_id_condition m (Some t) c k)
    (map snd (filter (\<lambda>kv. table_compare_int (fst kv) c k) kvs))"
proof -
  obtain at where at: "tree_rep m (root tree) at" "wf_tree at"
    "leaf_list (nodes m) (fst (hd (leaves at))) (leaves at)" "kvs = concat (map snd (leaves at))"
    using leftmost_scan [OF idx [unfolded tree(1)] tree(2)] .
  have "table_find_leftmost_leaf m (Some t) = table_leftmost_from m (root tree)"
    using tree by (simp add: table_find_leftmost_leaf_def)
  then have "table_find_leftmost_leaf m (Some t) = Some (fst (hd (leaves at)))"
    using at(1,2) leftmost_from [of m NULL at] by (simp add: tree_rep_def wf_tree_def)
  moreover have "filter (\<lambda>kv. table_compare_int (fst kv) c k) kvs = takeWhile (\<lambda>kv. table_compare_int (fst kv) c k) kvs"
    using c filter_sorted(1,2) [OF pk.repr_sorted [OF idx]] by (auto simp: table_compare_int_def)
  moreover note collect_while [OF at(3) arr_holds_empty live, of c k]
  ultimately show ?thesis using c at(4) by (auto simp: table_find_by_id_condition_def)
qed

lemma id_condition_upper:
  assumes idx: "bpt_index m (pk_index t) kvs" and tree: "pk_index t = Some tree" "root tree \<noteq> NULL"
    and live: "live_mem m" and c: "c = TABLE_COMPARISON_GT \<or> c = TABLE_COMPARISON_GE"
  shows "collects m (table_find_by_id_condition m (Some t) c k)
    (map snd (filter (\<lambda>kv. table_compare_int (fst kv) c k) kvs))"
proof -
  obtain a ls pre where a: "bptree_find_leaf m (pk_index t) k = Some a" "leaf_list (nodes m) a ls" "ls \<noteq> []"
    "kvs = pre @ concat (map snd ls)" "\<forall>kv \<in> set pre. fst kv < k" "\<forall>kv \<in> set (concat (map snd (tl ls))). k < fst kv"
    using find_leaf_scan [OF idx [unfolded tree(1)] tree(2), of k] tree(1) by metis
  obtain l ls' where ls: "ls = l # ls'" using a(3) by (cases ls) auto
  obtain n where n: "nodes m a = Some n" "leaf_node n (parent n) (snd l)" "a \<noteq> NULL"
    using a(2) ls leaf_list_Cons by metis
  let ?i = "length (takeWhile (\<lambda>kv. fst kv < k) (snd l))" and ?L = "concat (map snd ls)"
  have ii: "table_find_insert_index (keys n) (num_keys n) k 0 = Some ?i"
    using find_insert_index_leaf [OF n(2), of 0 k] by simp
  have il: "?i \<le> length (concat (map snd (take 1 ls)))" using ls length_takeWhile_le by simp
  have di: "drop ?i ?L = dropWhile (\<lambda>kv. fst kv < k) kvs"
  proof -
    have "dropWhile (\<lambda>kv. fst kv < k) (concat (map snd ls')) = concat (map snd ls')"
      using a(6) ls by (intro dropWhile_id) fastforce
    moreover have "drop ?i ?L = dropWhile (\<lambda>kv. fst kv < k) (snd l) @ concat (map snd ls')"
      using ls length_takeWhile_le [of _ "snd l"] by (simp add: dropWhile_eq_drop)
    ultimately have "drop ?i ?L = dropWhile (\<lambda>kv. fst kv < k) ?L"
      using ls by (simp add: dropWhile_append)
    then show ?thesis using a(4,5) by (simp add: dropWhile_append2)
  qed
  have leaf: "table_find_id_leaf m (Some t) k = Some a" using a(1) by (rule id_leaf)
  note so = pk.repr_sorted [OF idx]
  obtain pos where pos: "(if c = TABLE_COMPARISON_GT then table_skip_gt m a ?i k else table_skip_ge m a ?i) = Some pos"
    "chain_pos (nodes m) pos (filter (\<lambda>kv. table_compare_int (fst kv) c k) kvs)"
  proof (cases "c = TABLE_COMPARISON_GT")
    case True
    have "dropWhile (\<lambda>kv. fst kv \<le> k) (dropWhile (\<lambda>kv. fst kv < k) kvs) = dropWhile (\<lambda>kv. fst kv \<le> k) kvs"
      by (induction kvs) auto
    then show ?thesis using that skip_gt [OF a(2) il, of k] True di filter_sorted(3) [OF so, of k]
      by (auto simp: table_compare_int_def)
  next
    case False
    then show ?thesis using that skip_ge [OF a(2) il] c di filter_sorted(4) [OF so, of k]
      by (auto simp: table_compare_int_def)
  qed
  note col = collect_pos [OF pos(2) live]
  show ?thesis
  proof (cases "fst pos = NULL")
    case True
    then have "filter (\<lambda>kv. table_compare_int (fst kv) c k) kvs = []"
      using pos(2) chain_pos_NULL [of "nodes m" "snd pos"] by (metis prod.collapse)
    then show ?thesis using leaf n ii pos(1) True c
      by (cases pos) (auto simp: table_find_by_id_condition_def collects_def)
  next
    case False
    then show ?thesis using leaf n ii pos(1) c col
      by (cases pos) (auto simp: table_find_by_id_condition_def)
  qed
qed

lemma id_condition:
  assumes "table_rep m t ps rs" "live_mem m"
  shows "collects m (table_find_by_id_condition m (Some t) c k) (match_ptrs (\<lambda>r. table_compare_int (rec_id r) c k) ps rs)"
proof (cases "c = TABLE_COMPARISON_EQ")
  case True
  then show ?thesis using id_condition_eq [OF assms, of k] by (simp add: table_compare_int_def)
next
  case False
  have idx: "bpt_index m (pk_index t) (zip (map rec_id rs) ps)" and len: "length ps = length rs"
    using assms by (auto simp: table_rep_def)
  obtain tree where tree: "pk_index t = Some tree" using idx by (auto simp: bpt_index_def split: option.splits)
  show ?thesis
  proof (cases "root tree = NULL")
    case True
    then show ?thesis using id_condition_root_NULL [OF assms(1) tree True False, of k] by simp
  next
    case nn: False
    show ?thesis using id_condition_lower [OF idx tree nn assms(2), of c k] id_condition_upper [OF idx tree nn assms(2), of c k]
      match_ptrs_index [OF len, of "\<lambda>x. table_compare_int x c k"] False by (cases c) auto
  qed
qed

section \<open>Creation and destruction\<close>

lemma table_create_rep:
  assumes "live_mem m" "nodes m = Map.empty" "recs m = Map.empty \<and> blocks m = {}"
  shows "\<exists>m' t. table_create m = (m', Some t) \<and> table_rep m' t [] [] \<and> live_mem m' \<and> next_id t = 1"
proof -
  let ?t = "\<lparr>next_id = 1, rows = [], tsize = 0, capacity = 0, pk_index = Some \<lparr>root = NULL, header = Suc (brk m)\<rparr>,
    table_block = brk m, rows_block = NULL\<rparr>"
  let ?m1 = "take_block (mem_upd m 1 (nodes m)) (brk m)"
  let ?m = "take_block (mem_upd ?m1 1 (nodes ?m1)) (Suc (brk m))"
  have l: "live_mem ?m1" "live_mem ?m" using assms(1) by simp_all
  have "table_create m = (?m, Some ?t)"
    using alloc_live [OF assms(1)] bptree_create_index(1) [OF l(1)] by (simp add: table_create_def)
  moreover have "table_rep ?m ?t [] []" using assms alloc_live(2) [OF assms(1)] by (auto simp: table_rep_def bpt_index_def table_owns_def)
  ultimately show ?thesis using l(2) by auto
qed

text \<open>When the structure or the header of the tree cannot be allocated, nothing is left.\<close>

lemma table_create_fails:
  assumes "table_create m = (m', None)" "brk m \<notin> blocks m"
  shows "nodes m' = nodes m" "recs m' = recs m" "blocks m' = blocks m"
  using assms by (auto simp: table_create_def bptree_create_def alloc_def take_block_def drop_block_def split: if_splits)

lemma free_rows_from:
  assumes "take n rws = map Some ps" "n = length ps" "i \<le> n" "set (drop i ps) \<subseteq> dom (recs m)" "distinct ps" "NULL \<notin> set ps"
  shows "table_free_rows m rws n i = Some (m\<lparr>recs := recs m |` (- set (drop i ps))\<rparr>)"
  using assms(3,4)
proof (induction "n - i" arbitrary: i m)
  case 0
  then show ?case using assms(2) by (subst table_free_rows.simps) (simp add: restrict_map_def)
next
  case (Suc d)
  then have i: "i < length ps" using assms(2) by simp
  have "length (take n rws) = length ps" unfolding assms(1) by simp
  then have "rws ! i = take n rws ! i" "i < length rws" using i assms(2) by simp_all
  then have g: "tmp_get rws i = Some (ps ! i)" using i assms(1) by (simp add: tmp_get_def)
  have dr: "drop i ps = ps ! i # drop (Suc i) ps" using i by (simp add: Cons_nth_drop_Suc)
  have nd: "ps ! i \<notin> set (drop (Suc i) ps)" using assms(5) dr by (metis distinct.simps(2) distinct_drop)
  obtain r where r: "recs m (ps ! i) = Some r" using Suc.prems(2) dr by auto
  let ?m = "m\<lparr>recs := (recs m)(ps ! i := None)\<rparr>"
  have "table_free_rows ?m rws n (Suc i) = Some (?m\<lparr>recs := recs ?m |` (- set (drop (Suc i) ps))\<rparr>)"
    using Suc nd dr by (intro Suc.hyps(1)) auto
  moreover have "(recs m)(ps ! i := None) |` (- set (drop (Suc i) ps)) = recs m |` (- set (drop i ps))"
    unfolding dr by (auto simp: restrict_map_def)
  moreover have "ps ! i \<noteq> NULL" using i assms(6) by (metis nth_mem)
  ultimately show ?case using g r i assms(2) by (subst table_free_rows.simps) (simp add: free_rec_def)
qed

lemma table_destroy_rep:
  assumes "table_rep m t ps rs"
  shows "table_destroy m (Some t) = Some (m\<lparr>recs := Map.empty, nodes := Map.empty, blocks := {}\<rparr>)"
proof -
  let ?m1 = "m\<lparr>recs := Map.empty\<rparr>"
  let ?m2 = "?m1\<lparr>blocks := blocks m - {rows_block t}\<rparr>"
  have own: "table_owns m t" using assms by (simp add: table_rep_def)
  note o = ownsD [OF own]
  have "table_free_rows m (rows t) (tsize t) 0 = Some (m\<lparr>recs := recs m |` (- set (drop 0 ps))\<rparr>)"
    using assms by (intro free_rows_from) (auto simp: table_rep_def)
  moreover have "recs m |` (- set ps) = Map.empty"
    using assms by (auto simp: table_rep_def restrict_map_def fun_eq_iff domIff)
  moreover have "free_block ?m1 (rows_block t) = Some ?m2"
  proof (cases "rows_block t = NULL")
    case True
    moreover have "NULL \<notin> blocks m" using o(6) [of NULL] by simp
    ultimately show ?thesis by simp
  qed (use o(6) in \<open>simp add: free_block_in drop_block_def\<close>)
  moreover have "bptree_destroy ?m2 (pk_index t) = Some (?m2\<lparr>nodes := Map.empty, blocks := blocks ?m2 - {index_block (pk_index t)}\<rparr>)"
    using assms bpt_index_frame [of m "pk_index t" _ ?m2] own
    by (intro bptree_destroy_index [of _ _ "zip (map rec_id rs) ps"]) (simp_all add: table_rep_def o)
  moreover have "blocks ?m2 - {index_block (pk_index t)} = {table_block t}" using o by auto
  ultimately show ?thesis using o(1) by (simp add: table_destroy_def free_block_def drop_block_def)
qed

section \<open>Printing\<close>

definition row_text :: "Record \<Rightarrow> string" where
  "row_text r = ''id='' @ show_int (rec_id r) @ '', name='' @ [CHR 0x27] @ cstr (rec_name r) @ [CHR 0x27] @
     '', age='' @ show_int (rec_age r) @ [CHR 0x0A]"

lemma print_row:
  assumes "recs m p = Some r" "p \<noteq> NULL" "row_ok r"
  shows "table_print_record m p = Some (row_text r)"
  using assms by (simp add: table_print_record_def row_text_def cstr_get_def row_ok_def)

lemma print_from:
  assumes "table_rep m t ps rs" "i \<le> length rs"
  shows "table_print_from m (rows t) (length rs) i = Some (concat (map row_text (drop i rs)))"
  using assms(2)
proof (induction "length rs - i" arbitrary: i)
  case 0
  then show ?case by (subst table_print_from.simps) simp
next
  case (Suc d)
  then have i: "i < length rs" by simp
  have "ps ! i \<in> set ps" "rs ! i \<in> set rs" using assms(1) i by (auto simp: table_rep_def)
  then have "ps ! i \<noteq> NULL" "row_ok (rs ! i)" using assms(1) by (auto simp: table_rep_def)
  then have "table_print_record m (ps ! i) = Some (row_text (rs ! i))"
    using print_row row_at(2) [OF assms(1) i] by blast
  then show ?case using row_at(1) [OF assms(1) i] i Suc.hyps(1) [of "Suc i"] Suc.hyps(2)
    by (subst table_print_from.simps) (simp add: Cons_nth_drop_Suc [OF i, symmetric])
qed

lemma print_all:
  assumes "table_rep m t ps rs"
  shows "table_print_all m (Some t) = Some (concat (map row_text rs), length rs)"
proof -
  have "rows t = [] \<Longrightarrow> rs = []" "tsize t = length rs" using assms by (auto simp: table_rep_def)
  then show ?thesis using print_from [OF assms, of 0]
    by (auto simp: table_print_all_def table_print_records_def)
qed

section \<open>Failed allocations\<close>

text \<open>
  When the array of rows cannot grow, or the record cannot be allocated, the insertion reports
  failure and the table holds the same rows as before.
\<close>

lemma table_rep_allocs:
  "table_rep m t ps rs \<Longrightarrow> table_rep (m\<lparr>allocs := k\<rparr>) t ps rs"
  using bpt_index_frame [of m "pk_index t" "zip (map rec_id rs) ps" "m\<lparr>allocs := k\<rparr>"]
  by (auto simp: table_rep_def table_owns_def)

lemma table_insert_no_memory:
  assumes "table_rep m t ps rs" "\<not> alloc_ok m (allocs m)"
  shows "table_insert m (Some t) (Some nm) age = Some (m\<lparr>allocs := Suc (allocs m)\<rparr>, Some t, NULL)"
  using assms by (simp add: table_insert_def table_ensure_capacity_def alloc_def)

section \<open>An insertion whose new root cannot be allocated\<close>

text \<open>What is left: the array of rows is unchanged up to its size, the index has a root leaf without the last row, chained to a leaf that nothing else reaches.\<close>

definition split_lost :: "'a db_mem_scheme \<Rightarrow> Table \<Rightarrow> ptr list \<Rightarrow> Record list \<Rightarrow> 'a db_mem_scheme \<Rightarrow> Table \<Rightarrow> bool" where
  "split_lost m t ps rs m' t' \<longleftrightarrow> recs m' = recs m \<and> live_mem m' \<and> length ps = 3 \<and> length rs = 3 \<and> tsize t' = 3 \<and>
     take 3 (rows t') = map Some ps \<and> map (recs m) ps = map Some rs \<and> sorted_wrt (<) (map rec_id rs) \<and>
     (\<exists>tr n1 n2. pk_index t' = Some tr \<and> root tr \<noteq> NULL \<and> nodes m' (root tr) = Some n1 \<and>
        leaf_node n1 NULL (take 2 (zip (map rec_id rs) ps)) \<and> next_leaf n1 = Suc (brk m) \<and>
        nodes m' (Suc (brk m)) = Some n2 \<and> leaf_node n2 NULL [(rec_id (rs ! 2), ps ! 2), (next_id t, brk m)] \<and> next_leaf n2 = NULL)"

lemma insert_splits_lost:
  assumes rep: "table_rep m t ps rs" and len: "length rs = 3" and room: "tsize t < capacity t" "next_id t < INT_MAX"
    and mem: "\<forall>i. alloc_ok m (allocs m + i) \<longleftrightarrow> i \<noteq> 2"
  shows "\<exists>m' t'. split_lost m t ps rs m' t' \<and> table_insert m (Some t) (Some nm) age = Some (m', Some t', NULL) \<and>
    recs m (brk m) = None"
proof -
  let ?kvs = "zip (map rec_id rs) ps" and ?r = "new_record (next_id t) nm age"
  let ?m1 = "set_rec (mem_upd m 1 (nodes m)) (brk m) ?r"
  have z: "tsize t = 3" using rep len by (simp add: table_rep_def)
  have a: "length ps = 3" "tsize t = 3" "length (rows t) = capacity t" "take 3 (rows t) = map Some ps" "map (recs m) ps = map Some rs"
    "sorted_wrt (<) (map rec_id rs)" "\<forall>p \<in> set ps. NULL < p \<and> p < brk m" "dom (recs m) = set ps" "\<forall>r \<in> set rs. rec_id r < next_id t"
    using rep len z by (simp_all add: table_rep_def)
  then have fresh: "recs m (brk m) = None" and pos: "0 < brk m" by (auto simp: domIff [symmetric])
  have ok: "alloc_ok m (allocs m)" "alloc_ok m (Suc (allocs m))" "\<not> alloc_ok m (Suc (Suc (allocs m)))"
    using mem [rule_format, of 0] mem [rule_format, of 1] mem [rule_format, of 2] by simp_all
  obtain tr where tr: "pk_index t = Some tr" using rep by (auto simp: table_rep_def bpt_index_def split: option.splits)
  have idx: "bpt_index ?m1 (Some tr) ?kvs" using rep pk.repr_keeps [of m _ _ ?m1] tr by (simp add: table_rep_def)
  have lt: "\<forall>kv \<in> set ?kvs. fst kv < next_id t" using a(9) by (auto dest!: set_zip_leftD)
  then have key: "next_id t \<notin> fst ` set ?kvs" by auto
  have kvs: "ins_kv (next_id t) (brk m) ?kvs = ?kvs @ [(next_id t, brk m)]" using lt by (rule ins_kv_last)
  have l3: "length ?kvs = 3" using a(1) len by simp
  have m1: "0 < brk ?m1" "alloc_ok ?m1 (allocs ?m1)" "\<not> alloc_ok ?m1 (Suc (allocs ?m1))"
    using ok by (simp_all add: set_rec_def)
  obtain n1 n2 where i: "bptree_insert ?m1 (Some tr) (next_id t) (brk m) =
      Some ((mem_upd ?m1 1 ((nodes m)(Suc (brk m) \<mapsto> n2, root tr \<mapsto> n1)))\<lparr>allocs := Suc (Suc (allocs ?m1))\<rparr>, Some tr, False)"
    "root tr \<noteq> NULL" "root tr \<noteq> Suc (brk m)" "leaf_node n1 NULL (take 2 (?kvs @ [(next_id t, brk m)]))" "next_leaf n1 = Suc (brk m)"
    "leaf_node n2 NULL (drop 2 (?kvs @ [(next_id t, brk m)]))" "next_leaf n2 = NULL"
    using bptree_insert_no_root [OF idx l3 key m1, of "brk m", unfolded kvs] by auto
  let ?m2 = "(mem_upd ?m1 1 ((nodes m)(Suc (brk m) \<mapsto> n2, root tr \<mapsto> n1)))\<lparr>allocs := Suc (Suc (allocs ?m1))\<rparr>"
  let ?m3 = "?m2\<lparr>recs := recs m\<rparr>"
  let ?t = "t\<lparr>next_id := next_id t + 1, rows := (rows t)[3 := Some (brk m)]\<rparr>"
  have "free_rec ?m2 (brk m) = Some ?m3" using fresh pos by (simp add: free_rec_def fun_upd_idem)
  moreover have "alloc m = (mem_upd m 1 (nodes m), brk m)" using ok(1) by (simp add: alloc_def mem_upd_def)
  ultimately have ins: "table_insert m (Some t) (Some nm) age = Some (?m3, Some ?t, NULL)"
    using i(1) room a(2,3) pos tr by (simp add: table_insert_def table_ensure_capacity_def insert_name_buffer new_record_def)
  have two: "take 2 (?kvs @ [(next_id t, brk m)]) = take 2 ?kvs" using l3 by simp
  have last: "drop 2 (?kvs @ [(next_id t, brk m)]) = [(rec_id (rs ! 2), ps ! 2), (next_id t, brk m)]"
    using a(1) len by (auto simp: eval_nat_numeral length_Suc_conv)
  have "live_mem ?m3"
    unfolding live_mem_def no_oom_def using mem [rule_format, of "3 + _"] by (auto simp: set_rec_def add.commute add.left_commute eval_nat_numeral)
  moreover have "nodes ?m3 = (nodes m)(Suc (brk m) \<mapsto> n2, root tr \<mapsto> n1)" by simp
  ultimately have "split_lost m t ps rs ?m3 ?t"
    unfolding split_lost_def using a(1-6) len tr i(2-7) unfolding two last by (auto simp del: fun_upd_apply simp: fun_upd_def)
  then show ?thesis using ins fresh by blast
qed

lemma split_lost_finds:
  assumes "split_lost m t ps rs m' t'"
  shows "table_scan_by_id m' (Some t') (rec_id (rs ! 2)) = Some (ps ! 2)"
    "table_find_by_id m' (Some t') (rec_id (rs ! 2)) = Some NULL"
    "\<exists>m'' a. table_find_by_id_condition m' (Some t') TABLE_COMPARISON_GE (rec_id (rs ! 0)) = Some (m'', a, True) \<and>
      arr_holds a (ps @ [brk m]) \<and> recs m'' = recs m"
proof -
  obtain tr n1 n2 where o: "recs m' = recs m" "live_mem m'" "length ps = 3" "length rs = 3" "tsize t' = 3"
    "take 3 (rows t') = map Some ps" "map (recs m) ps = map Some rs" "sorted_wrt (<) (map rec_id rs)"
    "pk_index t' = Some tr" "root tr \<noteq> NULL" "nodes m' (root tr) = Some n1"
    "leaf_node n1 NULL (take 2 (zip (map rec_id rs) ps))" "next_leaf n1 = Suc (brk m)"
    "nodes m' (Suc (brk m)) = Some n2" "leaf_node n2 NULL [(rec_id (rs ! 2), ps ! 2), (next_id t, brk m)]" "next_leaf n2 = NULL"
    using assms by (auto simp: split_lost_def)
  obtain p0 p1 p2 r0 r1 r2 where l: "ps = [p0, p1, p2]" "rs = [r0, r1, r2]" using length3 [OF o(3)] length3 [OF o(4)] by blast
  have ids: "rec_id r0 < rec_id r1" "rec_id r1 < rec_id r2" and rc: "recs m p0 = Some r0" "recs m p1 = Some r1" "recs m p2 = Some r2"
    using o(7,8) l by auto
  have "tmp_get (rows t') i = Some (ps ! i)" if "i < 3" for i
  proof -
    have "rows t' ! i = Some (ps ! i)" using arg_cong [OF o(6), of "\<lambda>xs. xs ! i"] that o(3) by simp
    moreover have "i < length (rows t')" using arg_cong [OF o(6), of length] that o(3) by simp
    ultimately show ?thesis by (simp add: tmp_get_def)
  qed
  from this [of 0] this [of 1] this [of 2] have "tmp_get (rows t') 0 = Some p0" "tmp_get (rows t') 1 = Some p1" "tmp_get (rows t') 2 = Some p2"
    by (simp_all add: l)
  then show "table_scan_by_id m' (Some t') (rec_id (rs ! 2)) = Some (ps ! 2)"
    using o(1,5) rc ids by (simp add: table_scan_by_id_def l table_first_from.simps eval_nat_numeral)
  have leaf: "bptree_find_leaf m' (Some tr) k = Some (root tr)" for k
    using o(10-12) by (simp add: bptree_find_leaf_def bptree_find_leaf_from.simps [of m' "root tr"] leaf_node_def)
  have kvs: "take 2 (zip (map rec_id rs) ps) = [(rec_id r0, p0), (rec_id r1, p1)]" by (simp add: l eval_nat_numeral)
  show "table_find_by_id m' (Some t') (rec_id (rs ! 2)) = Some NULL"
    using leaf [of "rec_id r2"] leaf_value_from [OF o(12), of 0 "rec_id r2"] ids o(9-11)
    by (simp add: table_find_by_id_def bptree_search_def l kvs)
  let ?ls = "[(root tr, [(rec_id r0, p0), (rec_id r1, p1)]), (Suc (brk m), [(rec_id r2, p2), (next_id t, brk m)])]"
  have ll: "leaf_list (nodes m') (root tr) ?ls"
    using o(10-16) leaf_node_own_parent by (fastforce simp: kvs l)
  obtain pos where pos: "table_skip_ge m' (root tr) 0 = Some pos" "chain_pos (nodes m') pos (concat (map snd ?ls))"
    using skip_ge [OF ll, of 0] by auto
  have "collects m' (table_collect_leaf_chain m' (fst pos) (snd pos)) (ps @ [brk m])"
    using collect_pos [OF pos(2) o(2)] by (simp add: l)
  moreover have "fst pos \<noteq> NULL" using chain_pos_NULL [of "nodes m'" "snd pos"] pos(2) by (cases pos; cases "fst pos = NULL") auto
  moreover have "table_find_insert_index (keys n1) (num_keys n1) (rec_id r0) 0 = Some 0"
    using find_insert_index_leaf [OF o(12), of 0 "rec_id r0"] by (simp add: kvs)
  moreover have "table_find_id_leaf m' (Some t') (rec_id r0) = Some (root tr)" using leaf o(9) by (intro id_leaf) simp
  ultimately have "collects m' (table_find_by_id_condition m' (Some t') TABLE_COMPARISON_GE (rec_id r0)) (ps @ [brk m])"
    using o(10,11) pos(1) by (simp add: table_find_by_id_condition_def case_prod_beta)
  then show "\<exists>m'' a. table_find_by_id_condition m' (Some t') TABLE_COMPARISON_GE (rec_id (rs ! 0)) = Some (m'', a, True) \<and>
      arr_holds a (ps @ [brk m]) \<and> recs m'' = recs m"
    using o(1) quiet_recs by (fastforce simp: collects_def l)
qed

section \<open>Histories\<close>

primrec table_inserts ::
  "'a db_mem_scheme \<Rightarrow> Table option \<Rightarrow> (string \<times> int) list \<Rightarrow> ('a db_mem_scheme \<times> Table option \<times> ptr list) option" where
  "table_inserts m t [] = Some (m, t, [])"
| "table_inserts m t (x # xs) = do {
     (m, t, p) \<leftarrow> table_insert m t (Some (fst x)) (snd x);
     (m, t, ps) \<leftarrow> table_inserts m t xs;
     Some (m, t, p # ps)
   }"

primrec new_records :: "int \<Rightarrow> (string \<times> int) list \<Rightarrow> Record list" where
  "new_records i [] = []"
| "new_records i (x # xs) = new_record i (fst x) (snd x) # new_records (i + 1) xs"

text \<open>The records that an array of results points to.\<close>

definition yields ::
  "'a db_mem_scheme \<Rightarrow> ('a db_mem_scheme \<times> RecordArray \<times> bool) option \<Rightarrow> Record list \<Rightarrow> bool" where
  "yields m r rs \<longleftrightarrow> (\<exists>m' a ps. r = Some (m', a, True) \<and> arr_holds a ps \<and> quiet m m' \<and>
     map (recs m') ps = map Some rs)"

lemma match_ptrs_recs:
  "length ps = length rs \<Longrightarrow> map (recs m) ps = map Some rs \<Longrightarrow>
   map (recs m) (match_ptrs P ps rs) = map Some (filter P rs)"
  by (induction ps rs rule: list_induct2) auto

lemma collects_yields:
  assumes "table_rep m t ps rs" "collects m r (match_ptrs P ps rs)"
  shows "yields m r (filter P rs)"
proof -
  have "map (recs m) (match_ptrs P ps rs) = map Some (filter P rs)"
    using assms(1) by (intro match_ptrs_recs) (auto simp: table_rep_def)
  then show ?thesis using assms(2) quiet_recs unfolding collects_def yields_def by metis
qed

lemma inserts_rep:
  assumes "table_rep m t ps rs" "live_mem m" "next_id t + int (length xs) \<le> INT_MAX"
  shows "\<exists>m' t' qs. table_inserts m (Some t) xs = Some (m', Some t', qs) \<and> NULL \<notin> set qs \<and>
    table_rep m' t' (ps @ qs) (rs @ new_records (next_id t) xs) \<and> live_mem m' \<and>
    next_id t' = next_id t + int (length xs)"
  using assms
proof (induction xs arbitrary: m t ps rs)
  case Nil
  then show ?case by simp
next
  case (Cons x xs)
  obtain m1 t1 p where i: "table_insert m (Some t) (Some (fst x)) (snd x) = Some (m1, Some t1, p)" "p \<noteq> NULL"
    "table_rep m1 t1 (ps @ [p]) (rs @ [new_record (next_id t) (fst x) (snd x)])" "live_mem m1" "next_id t1 = next_id t + 1"
    using table_insert_rep [OF Cons.prems(1,2), of "fst x" "snd x"] Cons.prems(3) by auto
  have "next_id t1 + int (length xs) \<le> INT_MAX" using Cons.prems(3) i(5) by simp
  from Cons.IH [OF i(3,4) this] i show ?case by (auto simp: algebra_simps)
qed

lemma create_inserts:
  assumes "live_mem m" "nodes m = Map.empty" "recs m = Map.empty \<and> blocks m = {}" "int (length xs) < INT_MAX"
  obtains m1 t1 m' t' ps where "table_create m = (m1, Some t1)"
    "table_inserts m1 (Some t1) xs = Some (m', Some t', ps)" "NULL \<notin> set ps"
    "table_rep m' t' ps (new_records 1 xs)" "live_mem m'"
proof -
  obtain m1 t1 where c: "table_create m = (m1, Some t1)" "table_rep m1 t1 [] []" "live_mem m1" "next_id t1 = 1"
    using table_create_rep [OF assms(1-3)] by blast
  then show ?thesis using inserts_rep [OF c(2,3), of xs] assms(4) that by auto
qed

section \<open>Properties\<close>

definition db0 :: db_mem where
  "db0 = \<lparr>brk = 1, alloc_ok = (\<lambda>_. True), allocs = 0, blocks = {}, nodes = Map.empty, recs = Map.empty\<rparr>"

lemma db0_live: "live_mem db0" "nodes db0 = Map.empty" "recs db0 = Map.empty \<and> blocks db0 = {}"
  by (simp_all add: db0_def live_mem_def no_oom_def)

definition db1_mem :: db_mem where
  "db1_mem = \<lparr>brk = 6, alloc_ok = (\<lambda>_. True), allocs = 5, blocks = {1, 2, 3},
     nodes = [5 \<mapsto> zero_node\<lparr>is_leaf := True, keys := [1, 0, 0], vals := [4, NULL, NULL], num_keys := 1\<rparr>],
     recs = [4 \<mapsto> new_record 1 ''kim'' 20]\<rparr>"

definition db1_table :: Table where
  "db1_table = \<lparr>next_id = 2, rows = Some 4 # replicate 7 None, tsize = 1, capacity = 8, 
     pk_index = Some \<lparr>root = 5, header = 2\<rparr>, table_block = 1, rows_block = 3\<rparr>"

lemma db1_rep: "table_rep db1_mem db1_table [4] [new_record 1 ''kim'' 20]" "live_mem db1_mem"
proof -
  show "live_mem db1_mem" by (simp add: db1_mem_def live_mem_def no_oom_def)
  have "tree_rep db1_mem 5 (Lf 5 [(1, 4)])" by (simp add: tree_rep_def db1_mem_def leaf_node_def eval_nat_numeral)
  moreover have "wf_tree (Lf 5 [(1, 4)])" by (simp add: wf_tree_def)
  ultimately have "bpt_index db1_mem (Some \<lparr>root = 5, header = 2\<rparr>) [(1, 4)]"
    unfolding bpt_index_def by (auto intro!: exI [of _ "Lf 5 [(1, 4)]"])
  moreover have "rec_id (new_record 1 ''kim'' 20) = 1" by (simp add: new_record_def)
  ultimately show "table_rep db1_mem db1_table [4] [new_record 1 ''kim'' 20]"
    using row_ok_new by (simp add: table_rep_def table_owns_def db1_table_def) (auto simp: db1_mem_def)
qed

text \<open>
  C11. Inserting a row refines appending to the list of rows: with memory available and the counter
  below its maximum, the new row gets the next identifier, its name is the given one cut to 63 characters,
  the row is reachable through the index as well as through the array of rows, every earlier row keeps its
  address and contents, and the counter advances by one.
\<close>

theorem table_insert_refines:
  assumes "table_rep m t ps rs" "live_mem m" "next_id t < INT_MAX"
  shows "\<exists>m' t' p. table_insert m (Some t) (Some nm) age = Some (m', Some t', p) \<and> p \<noteq> NULL \<and>
    table_rep m' t' (ps @ [p]) (rs @ [new_record (next_id t) nm age]) \<and> live_mem m' \<and>
    next_id t' = next_id t + 1"
  using assms by (rule table_insert_rep)

theorem table_insert_refines_witness:
  "table_rep db1_mem db1_table [4] [new_record 1 ''kim'' 20] \<and> live_mem db1_mem \<and> next_id db1_table < INT_MAX \<and>
   (\<exists>m' t' p. table_insert db1_mem (Some db1_table) (Some ''lee'') 31 = Some (m', Some t', p) \<and>
      table_rep m' t' [4, p] [new_record 1 ''kim'' 20, new_record 2 ''lee'' 31])"
  using table_insert_refines [OF db1_rep, of "''lee''" 31] db1_rep by (auto simp: db1_table_def)

text \<open>
  C12. The indexed lookup and the linear scan by identifier return the same record pointer: the record
  with that identifier if the table has one, else the null pointer.
\<close>

theorem table_find_by_id_scan:
  assumes "table_rep m t ps rs"
  shows "table_find_by_id m (Some t) k = Some (first_ptr (\<lambda>r. rec_id r = k) ps rs) \<and>
    table_scan_by_id m (Some t) k = table_find_by_id m (Some t) k"
  using find_by_id [OF assms] scan_by_id [OF assms] by simp

theorem table_find_by_id_scan_witness:
  "table_rep db1_mem db1_table [4] [new_record 1 ''kim'' 20] \<and>
   table_find_by_id db1_mem (Some db1_table) 1 = Some 4 \<and>
   table_scan_by_id db1_mem (Some db1_table) 1 = table_find_by_id db1_mem (Some db1_table) 1"
  using table_find_by_id_scan [OF db1_rep(1), of 1] db1_rep(1) by (simp add: first_ptr_def new_record_def)

text \<open>
  C13. A condition on the identifier, evaluated by a point lookup or by walking the leaf chain of the
  index from the right starting leaf, selects exactly the rows that satisfy the comparison, in the order of
  their insertion; the function terminates, touches no unallocated memory and leaves the heap as it was.
\<close>

theorem table_find_by_id_condition_filter:
  assumes "table_rep m t ps rs" "live_mem m"
  shows "yields m (table_find_by_id_condition m (Some t) c k) (filter (\<lambda>r. table_compare_int (rec_id r) c k) rs)"
  using collects_yields [OF assms(1) id_condition [OF assms]] .

theorem table_find_by_id_condition_filter_witness:
  "table_rep db1_mem db1_table [4] [new_record 1 ''kim'' 20] \<and> live_mem db1_mem \<and>
   yields db1_mem (table_find_by_id_condition db1_mem (Some db1_table) TABLE_COMPARISON_GE 1) [new_record 1 ''kim'' 20]"
  using table_find_by_id_condition_filter [OF db1_rep, of TABLE_COMPARISON_GE 1] db1_rep
  by (simp add: table_compare_int_def new_record_def)

text \<open>
  C14. A condition on the age, and a match on the name, select exactly the rows that satisfy them, in
  order of insertion, and collecting everything returns all rows.
\<close>

theorem table_scan_conditions_filter:
  assumes "table_rep m t ps rs" "live_mem m"
  shows "yields m (table_find_by_age_condition m (Some t) c k) (filter (\<lambda>r. table_compare_int (rec_age r) c k) rs) \<and>
    yields m (table_find_by_name_matches m (Some t) (Some nm)) (filter (\<lambda>r. cstr (rec_name r) = cstr nm) rs) \<and>
    yields m (table_collect_all m (Some t)) rs"
proof -
  have "match_ptrs (\<lambda>_. True) ps rs = ps" using assms(1) by (simp add: match_ptrs_def table_rep_def)
  then show ?thesis
    using collects_yields [OF assms(1) age_condition [OF assms]] collects_yields [OF assms(1) name_matches [OF assms]]
      collects_yields [OF assms(1), of _ "\<lambda>_. True"] collect_all [OF assms] by simp
qed

theorem table_scan_conditions_filter_witness:
  "table_rep db1_mem db1_table [4] [new_record 1 ''kim'' 20] \<and> live_mem db1_mem \<and>
   yields db1_mem (table_find_by_age_condition db1_mem (Some db1_table) TABLE_COMPARISON_LT 20) [] \<and>
   yields db1_mem (table_collect_all db1_mem (Some db1_table)) [new_record 1 ''kim'' 20]"
  using table_scan_conditions_filter [OF db1_rep, of TABLE_COMPARISON_LT 20] db1_rep
  by (simp add: table_compare_int_def new_record_def)

text \<open>
  The table as a whole: with memory available, a table created in fresh memory and given fewer than 2147483647 rows
  succeeds on each of them and then holds exactly these rows, numbered 1, 2, 3 and so on; destroying it
  frees every record, every node of the index, its header, the array of rows and the structure, with no double free and nothing left over.
\<close>

theorem table_life_cycle:
  assumes "live_mem m" "nodes m = Map.empty" "recs m = Map.empty \<and> blocks m = {}" "int (length xs) < INT_MAX"
  shows "\<exists>m1 t1 m' t' ps. table_create m = (m1, Some t1) \<and>
    table_inserts m1 (Some t1) xs = Some (m', Some t', ps) \<and> NULL \<notin> set ps \<and>
    table_rep m' t' ps (new_records 1 xs) \<and>
    table_destroy m' (Some t') = Some (m'\<lparr>recs := Map.empty, nodes := Map.empty, blocks := {}\<rparr>)"
  using create_inserts [OF assms] table_destroy_rep by metis

theorem table_life_cycle_witness:
  "live_mem db0 \<and> nodes db0 = Map.empty \<and> recs db0 = Map.empty \<and>
   (\<exists>m1 t1 m' t' ps. table_create db0 = (m1, Some t1) \<and>
     table_inserts m1 (Some t1) [(''kim'', 20), (''lee'', 31)] = Some (m', Some t', ps) \<and>
     table_rep m' t' ps [new_record 1 ''kim'' 20, new_record 2 ''lee'' 31] \<and>
     table_destroy m' (Some t') = Some (m'\<lparr>recs := Map.empty, nodes := Map.empty, blocks := {}\<rparr>))"
  using table_life_cycle [OF db0_live, of "[(''kim'', 20), (''lee'', 31)]"] db0_live by auto

text \<open>
  When the first allocation of an insertion fails (the array of rows that has to grow, or else the
  record), the insertion reports failure and the table is untouched: same rows, same counter, same index.
\<close>

theorem table_insert_out_of_memory:
  assumes "table_rep m t ps rs" "\<not> alloc_ok m (allocs m)"
  shows "\<exists>m'. table_insert m (Some t) (Some nm) age = Some (m', Some t, NULL) \<and> table_rep m' t ps rs"
  using table_insert_no_memory [OF assms] table_rep_allocs [OF assms(1)] by blast

theorem table_insert_out_of_memory_witness:
  "table_rep (db1_mem\<lparr>alloc_ok := \<lambda>_. False\<rparr>) db1_table [4] [new_record 1 ''kim'' 20] \<and>
   (\<exists>m'. table_insert (db1_mem\<lparr>alloc_ok := \<lambda>_. False\<rparr>) (Some db1_table) (Some ''lee'') 31 = Some (m', Some db1_table, NULL))"
proof -
  have "table_rep (db1_mem\<lparr>alloc_ok := \<lambda>_. False\<rparr>) db1_table [4] [new_record 1 ''kim'' 20]"
    using db1_rep(1) bpt_index_frame [of db1_mem _ _ "db1_mem\<lparr>alloc_ok := \<lambda>_. False\<rparr>"] by (auto simp: table_rep_def table_owns_def)
  then show ?thesis using table_insert_out_of_memory [of "db1_mem\<lparr>alloc_ok := \<lambda>_. False\<rparr>" db1_table "[4]"] by fastforce
qed

text \<open>
  Printing the table writes one line per row, in order of insertion, with the stored identifier,
  name and age, and reports the number of rows.
\<close>

theorem table_print_all_rows:
  assumes "table_rep m t ps rs"
  shows "table_print_all m (Some t) = Some (concat (map row_text rs), length rs)"
  using assms by (rule print_all)

theorem table_print_all_rows_witness:
  "table_rep db1_mem db1_table [4] [new_record 1 ''kim'' 20] \<and>
   table_print_all db1_mem (Some db1_table) = Some (row_text (new_record 1 ''kim'' 20), 1)"
  using table_print_all_rows [OF db1_rep(1)] db1_rep(1) by simp

text \<open>
  C15. An allocation that fails later, for the new root when the root leaf is split, corrupts the table. Take any table of three
  rows with room in its array, below the last identifier, and memory that grants the next two allocations (the record and the
  right leaf) and all later ones, but not the third: inserting any name and age reports failure, the third row can no longer
  be found through the index although a scan still finds it, and the range condition that selects every row returns, after the
  three rows, the address of the record that the failed insertion has freed.
\<close>

theorem table_split_out_of_memory:
  assumes "table_rep m t ps rs" "length rs = 3" "tsize t < capacity t" "next_id t < INT_MAX"
    "\<forall>i. alloc_ok m (allocs m + i) \<longleftrightarrow> i \<noteq> 2"
  shows "\<exists>m' t'. table_insert m (Some t) (Some nm) age = Some (m', Some t', NULL) \<and> recs m' = recs m \<and> recs m (brk m) = None \<and>
    table_scan_by_id m' (Some t') (rec_id (rs ! 2)) = Some (ps ! 2) \<and>
    table_find_by_id m' (Some t') (rec_id (rs ! 2)) = Some NULL \<and>
    (\<exists>m'' a. table_find_by_id_condition m' (Some t') TABLE_COMPARISON_GE (rec_id (rs ! 0)) = Some (m'', a, True) \<and>
      arr_holds a (ps @ [brk m]) \<and> recs m'' = recs m)"
proof -
  obtain m' t' where o: "split_lost m t ps rs m' t'" "table_insert m (Some t) (Some nm) age = Some (m', Some t', NULL)"
    "recs m (brk m) = None"
    using insert_splits_lost [OF assms] by blast
  show ?thesis using o split_lost_finds [OF o(1)] unfolding split_lost_def by blast
qed

theorem table_split_out_of_memory_witness:
  "\<exists>(m :: db_mem) t ps m' t'. table_rep m t ps (new_records 1 [(''a'', 1), (''b'', 2), (''c'', 3)]) \<and>
     table_insert m (Some t) (Some ''d'') 4 = Some (m', Some t', NULL) \<and>
     table_scan_by_id m' (Some t') 3 = Some (ps ! 2) \<and> table_find_by_id m' (Some t') 3 = Some NULL"
proof -
  let ?rs = "new_records 1 [(''a'', 1), (''b'', 2), (''c'', 3)]"
  obtain m1 t1 and m :: db_mem and t ps where m: "table_create db0 = (m1, Some t1)"
    "table_inserts m1 (Some t1) [(''a'', 1), (''b'', 2), (''c'', 3)] = Some (m, Some t, ps)" "table_rep m t ps ?rs"
    by (rule create_inserts [OF db0_live, of "[(''a'', 1), (''b'', 2), (''c'', 3)]"]) simp_all
  have "case table_create db0 of (m1, t1) \<Rightarrow> case table_inserts m1 t1 [(''a'', 1), (''b'', 2), (''c'', 3)] of
    Some (m, Some t, ps) \<Rightarrow> tsize t < capacity t \<and> next_id t < INT_MAX | _ \<Rightarrow> False" by code_simp
  then have c: "tsize t < capacity t" "next_id t < INT_MAX" using m(1,2) by simp_all
  let ?m = "m\<lparr>alloc_ok := \<lambda>i. i \<noteq> allocs m + 2\<rparr>"
  have r: "table_rep ?m t ps ?rs" using m(3) bpt_index_frame [of m _ _ ?m] by (auto simp: table_rep_def table_owns_def)
  have a: "\<forall>i. alloc_ok ?m (allocs ?m + i) \<longleftrightarrow> i \<noteq> 2" by simp
  have l: "length ?rs = 3" "rec_id (?rs ! 2) = 3" by (simp_all add: new_record_def)
  from table_split_out_of_memory [OF r l(1) c a, of "''d''" 4] r show ?thesis unfolding l(2) by blast
qed

end
