(* ===== verification/Sql.thy ===== *)
theory Sql
  imports Table_Refine
begin

text \<open>
  The SQL front end of \<^verbatim>\<open>src/core/sql.c\<close>: a hand-written recursive parser for the fixed INSERT and
  SELECT statements and EXIT or QUIT, the error messages it builds, and the execution against the table. A
  parsing function returns the cursor it leaves behind, also when it fails, since the error message
  quotes the text at the cursor. The parsers of the two statements are separated from the calls on the
  table, which in the code follow after the whole statement was read.
\<close>

section \<open>Data\<close>

abbreviation (input) SQL_SQLSTATE_SIZE :: nat where "SQL_SQLSTATE_SIZE \<equiv> 6"
abbreviation (input) SQL_ERROR_MESSAGE_SIZE :: nat where "SQL_ERROR_MESSAGE_SIZE \<equiv> 256"

datatype SQLStatus =
    SQL_STATUS_OK
  | SQL_STATUS_NOT_FOUND
  | SQL_STATUS_SYNTAX_ERROR
  | SQL_STATUS_QUERY_ERROR
  | SQL_STATUS_EXIT
  | SQL_STATUS_ERROR

datatype SQLAction =
    SQL_ACTION_NONE
  | SQL_ACTION_INSERT
  | SQL_ACTION_SELECT_ROWS

record SQLResult =
  status :: SQLStatus
  action :: SQLAction
  res_record :: ptr
  res_records :: "ptr option list"
  inserted_id :: int
  row_count :: nat
  error_code :: int
  sql_state :: string
  error_message :: string

definition sql_make_result :: "SQLStatus \<Rightarrow> SQLAction \<Rightarrow> SQLResult" where
  "sql_make_result st act =
     \<lparr>status = st, action = act, res_record = NULL, res_records = [], inserted_id = 0, row_count = 0,
      error_code = 0, sql_state = [], error_message = []\<rparr>"

section \<open>Errors\<close>

definition sql_is_known_column :: "string \<Rightarrow> bool" where
  "sql_is_known_column column =
     (strcasecmp_eq column ''id'' \<or> strcasecmp_eq column ''name'' \<or> strcasecmp_eq column ''age'')"

definition sql_skip_spaces :: "string \<Rightarrow> string" where
  "sql_skip_spaces cursor = dropWhile isspace cursor"

fun sql_excerpt_copy :: "string \<Rightarrow> string \<Rightarrow> nat \<Rightarrow> string" where
  "sql_excerpt_copy [] buffer buffer_size = buffer"
| "sql_excerpt_copy (c # cursor) buffer buffer_size =
     (if c \<noteq> CHR 0x0A \<and> c \<noteq> CHR 0x0D \<and> c \<noteq> CHR '';'' \<and> length buffer + 1 < buffer_size
      then sql_excerpt_copy cursor (buffer @ [c]) buffer_size
      else buffer)"

definition sql_strip_right :: "string \<Rightarrow> string" where
  "sql_strip_right buffer = rev (dropWhile isspace (rev buffer))"

definition sql_build_near_excerpt :: "string \<Rightarrow> nat \<Rightarrow> string" where
  "sql_build_near_excerpt cursor buffer_size =
     (let cursor = sql_skip_spaces cursor
      in if cursor = [] then snprintf buffer_size ''end of input''
         else
           let buffer = sql_strip_right (sql_excerpt_copy cursor [] buffer_size)
           in if buffer = [] then snprintf buffer_size ''end of input'' else buffer)"

definition syntax_error_text :: "string \<Rightarrow> string" where
  "syntax_error_text near_excerpt =
     ''ERROR 1064 (42000): You have an error in your SQL syntax; check the manual that corresponds to your sql processor2 version for the right syntax to use near '' @
     [CHR 0x27] @ near_excerpt @ [CHR 0x27] @ '' at line 1''"

definition sql_set_syntax_error :: "SQLResult \<Rightarrow> string \<Rightarrow> SQLResult" where
  "sql_set_syntax_error result cursor =
     result\<lparr>status := SQL_STATUS_SYNTAX_ERROR, error_code := 1064,
       sql_state := snprintf SQL_SQLSTATE_SIZE ''42000'',
       error_message := snprintf SQL_ERROR_MESSAGE_SIZE (syntax_error_text (sql_build_near_excerpt cursor 64))\<rparr>"

definition unknown_column_text :: "string \<Rightarrow> string \<Rightarrow> string" where
  "unknown_column_text column clause_name =
     ''ERROR 1054 (42S22): Unknown column '' @ [CHR 0x27] @ column @ [CHR 0x27] @ '' in '' @
     [CHR 0x27] @ clause_name @ [CHR 0x27]"

definition sql_set_unknown_column_error :: "SQLResult \<Rightarrow> string \<Rightarrow> string \<Rightarrow> SQLResult" where
  "sql_set_unknown_column_error result column clause_name =
     result\<lparr>status := SQL_STATUS_QUERY_ERROR, error_code := 1054,
       sql_state := snprintf SQL_SQLSTATE_SIZE ''42S22'',
       error_message := snprintf SQL_ERROR_MESSAGE_SIZE (unknown_column_text column clause_name)\<rparr>"

section \<open>Tokens\<close>

definition is_ident :: "char \<Rightarrow> bool" where
  "is_ident c = (isalnum c \<or> c = CHR ''_'')"

fun sql_match_word :: "string \<Rightarrow> string \<Rightarrow> string option" where
  "sql_match_word start [] = Some start"
| "sql_match_word [] (w # word) = None"
| "sql_match_word (c # start) (w # word) =
     (if tolower c \<noteq> tolower w then None else sql_match_word start word)"

definition sql_match_keyword :: "string \<Rightarrow> string \<Rightarrow> bool \<times> string" where
  "sql_match_keyword cursor keyword =
     (case sql_match_word cursor keyword of
        None \<Rightarrow> (False, cursor)
      | Some start \<Rightarrow> if is_ident (peek start) then (False, cursor) else (True, start))"

definition sql_match_char :: "string \<Rightarrow> char \<Rightarrow> bool \<times> string" where
  "sql_match_char cursor expected =
     (let cursor = sql_skip_spaces cursor
      in if peek cursor \<noteq> expected then (False, cursor) else (True, tl cursor))"

fun sql_ident_copy :: "string \<Rightarrow> string \<Rightarrow> nat \<Rightarrow> string \<times> string" where
  "sql_ident_copy [] buffer buffer_size = ([], buffer)"
| "sql_ident_copy (c # cursor) buffer buffer_size =
     (if is_ident c \<and> length buffer + 1 < buffer_size
      then sql_ident_copy cursor (buffer @ [c]) buffer_size
      else (c # cursor, buffer))"

fun sql_ident_rest :: "string \<Rightarrow> nat \<Rightarrow> string \<times> nat" where
  "sql_ident_rest [] len = ([], len)"
| "sql_ident_rest (c # cursor) len =
     (if is_ident c then sql_ident_rest cursor (Suc len) else (c # cursor, len))"

definition sql_parse_identifier :: "string \<Rightarrow> nat \<Rightarrow> string \<times> string option" where
  "sql_parse_identifier cursor buffer_size =
     (let cursor = sql_skip_spaces cursor
      in if \<not> (isalpha (peek cursor) \<or> peek cursor = CHR ''_'') then (cursor, None)
         else
           let (cursor, buffer) = sql_ident_copy cursor [] buffer_size
           in if length buffer = 0 then (cursor, None)
              else
                let (cursor, len) = sql_ident_rest cursor (length buffer)
                in if len \<ge> buffer_size then (cursor, None) else (cursor, Some buffer))"

text \<open>The loop of \<^verbatim>\<open>sql_parse_string\<close>; \<open>None\<close> for the buffer when the literal is too long or not closed.\<close>

fun sql_string_copy :: "string \<Rightarrow> string \<Rightarrow> nat \<Rightarrow> string \<times> string option" where
  "sql_string_copy [] buffer buffer_size = ([], None)"
| "sql_string_copy (c # cursor) buffer buffer_size =
     (if c = CHR 0x27 then (cursor, Some buffer)
      else if length buffer + 1 \<ge> buffer_size then (c # cursor, None)
      else sql_string_copy cursor (buffer @ [c]) buffer_size)"

definition sql_parse_string :: "string \<Rightarrow> nat \<Rightarrow> string \<times> string option" where
  "sql_parse_string cursor buffer_size =
     (let cursor = sql_skip_spaces cursor
      in if peek cursor \<noteq> CHR 0x27 then (cursor, None)
         else sql_string_copy (tl cursor) [] buffer_size)"

definition sql_parse_int :: "string \<Rightarrow> string \<times> int option" where
  "sql_parse_int cursor =
     (let cursor = sql_skip_spaces cursor
      in if \<not> (isdigit (peek cursor) \<or> peek cursor = CHR ''-'') then (cursor, None)
         else
           let (parsed, end_ptr) = strtol10 cursor
           in if end_ptr = cursor then (cursor, None) else (end_ptr, Some (int_of_long parsed)))"

definition sql_parse_comparison :: "string \<Rightarrow> string \<times> TableComparison option" where
  "sql_parse_comparison cursor =
     (let cursor = sql_skip_spaces cursor
      in if peek cursor = CHR ''>'' \<and> peek (tl cursor) = CHR ''='' then (tl (tl cursor), Some TABLE_COMPARISON_GE)
         else if peek cursor = CHR ''<'' \<and> peek (tl cursor) = CHR ''='' then (tl (tl cursor), Some TABLE_COMPARISON_LE)
         else if peek cursor = CHR ''>'' then (tl cursor, Some TABLE_COMPARISON_GT)
         else if peek cursor = CHR ''<'' then (tl cursor, Some TABLE_COMPARISON_LT)
         else if peek cursor = CHR ''='' then (tl cursor, Some TABLE_COMPARISON_EQ)
         else (cursor, None))"

definition sql_match_statement_end :: "string \<Rightarrow> bool \<times> string" where
  "sql_match_statement_end cursor =
     (let cursor = sql_skip_spaces cursor;
          cursor = (if peek cursor = CHR '';'' then tl cursor else cursor);
          cursor = sql_skip_spaces cursor
      in (peek cursor = NUL, cursor))"

section \<open>Statements\<close>

text \<open>Why a statement was not accepted: it does not start with the keyword, or the error to report.\<close>

datatype sql_error =
    NotThisStatement
  | SyntaxError string
  | UnknownColumn string string

datatype sql_query =
    SelectAll
  | SelectById TableComparison int
  | SelectByName string
  | SelectByAge TableComparison int

definition sql_parse_insert :: "string \<Rightarrow> sql_error + string \<times> int" where
  "sql_parse_insert input =
     (case sql_match_keyword input ''INSERT'' of (ok, cursor) \<Rightarrow>
      if \<not> ok then Inl NotThisStatement
      else case sql_match_keyword (sql_skip_spaces cursor) ''INTO'' of (ok, cursor) \<Rightarrow>
      if \<not> ok then Inl (SyntaxError cursor)
      else case sql_parse_identifier cursor 32 of
        (cursor, None) \<Rightarrow> Inl (SyntaxError cursor)
      | (cursor, Some table_name) \<Rightarrow>
      if \<not> strcasecmp_eq table_name ''users'' then Inl (SyntaxError table_name)
      else case sql_match_keyword (sql_skip_spaces cursor) ''VALUES'' of (ok, cursor) \<Rightarrow>
      if \<not> ok then Inl (SyntaxError cursor)
      else case sql_match_char cursor (CHR ''('') of (ok, cursor) \<Rightarrow>
      if \<not> ok then Inl (SyntaxError cursor)
      else case sql_parse_string cursor RECORD_NAME_SIZE of
        (cursor, None) \<Rightarrow> Inl (SyntaxError cursor)
      | (cursor, Some name) \<Rightarrow>
      case sql_match_char cursor (CHR '','') of (ok, cursor) \<Rightarrow>
      if \<not> ok then Inl (SyntaxError cursor)
      else case sql_parse_int cursor of
        (cursor, None) \<Rightarrow> Inl (SyntaxError cursor)
      | (cursor, Some age) \<Rightarrow>
      case sql_match_char cursor (CHR '')'') of (ok, cursor) \<Rightarrow>
      if \<not> ok then Inl (SyntaxError cursor)
      else case sql_match_statement_end cursor of (ok, cursor) \<Rightarrow>
      if \<not> ok then Inl (SyntaxError cursor)
      else Inr (name, age))"

text \<open>What the two error calls make of a failed statement.\<close>

definition sql_report :: "SQLResult \<Rightarrow> sql_error \<Rightarrow> SQLResult" where
  "sql_report result e =
     (case e of
        NotThisStatement \<Rightarrow> result
      | SyntaxError cursor \<Rightarrow> sql_set_syntax_error result cursor
      | UnknownColumn col clause_name \<Rightarrow> sql_set_unknown_column_error result col clause_name)"

definition sql_execute_insert ::
  "'a db_mem_scheme \<Rightarrow> Table option \<Rightarrow> string \<Rightarrow> ('a db_mem_scheme \<times> Table option \<times> SQLResult) option" where
  "sql_execute_insert m table input =
     (let result = sql_make_result SQL_STATUS_SYNTAX_ERROR SQL_ACTION_NONE
      in case sql_parse_insert input of
           Inl e \<Rightarrow> Some (m, table, sql_report result e)
         | Inr (name, age) \<Rightarrow> do {
             (m, table, record) \<leftarrow> table_insert m table (Some name) age;
             if record = NULL then Some (m, table, result\<lparr>status := SQL_STATUS_ERROR\<rparr>)
             else do {
               r \<leftarrow> recs m record;
               Some (m, table, result\<lparr>status := SQL_STATUS_OK, action := SQL_ACTION_INSERT, res_record := record,
                 inserted_id := rec_id r, row_count := 1\<rparr>)
             }
           })"

definition sql_parse_condition :: "string \<Rightarrow> TableComparison \<Rightarrow> string \<Rightarrow> string \<Rightarrow> sql_error + sql_query" where
  "sql_parse_condition column comparison comparison_cursor cursor =
     (if strcasecmp_eq column ''id'' then
        (case sql_parse_int cursor of
           (cursor, None) \<Rightarrow> Inl (SyntaxError cursor)
         | (cursor, Some int_value) \<Rightarrow>
             (case sql_match_statement_end cursor of (ok, cursor) \<Rightarrow>
              if \<not> ok then Inl (SyntaxError cursor) else Inr (SelectById comparison int_value)))
      else if strcasecmp_eq column ''name'' then
        (if comparison \<noteq> TABLE_COMPARISON_EQ then Inl (SyntaxError comparison_cursor)
         else case sql_parse_string cursor RECORD_NAME_SIZE of
           (cursor, None) \<Rightarrow> Inl (SyntaxError cursor)
         | (cursor, Some text_value) \<Rightarrow>
             (case sql_match_statement_end cursor of (ok, cursor) \<Rightarrow>
              if \<not> ok then Inl (SyntaxError cursor) else Inr (SelectByName text_value)))
      else if strcasecmp_eq column ''age'' then
        (case sql_parse_int cursor of
           (cursor, None) \<Rightarrow> Inl (SyntaxError cursor)
         | (cursor, Some int_value) \<Rightarrow>
             (case sql_match_statement_end cursor of (ok, cursor) \<Rightarrow>
              if \<not> ok then Inl (SyntaxError cursor) else Inr (SelectByAge comparison int_value)))
      else Inl (UnknownColumn column ''where clause''))"

definition sql_parse_where :: "string \<Rightarrow> sql_error + sql_query" where
  "sql_parse_where cursor =
     (case sql_match_keyword cursor ''WHERE'' of (ok, cursor) \<Rightarrow>
      if \<not> ok then Inl (SyntaxError cursor)
      else case sql_parse_identifier cursor 32 of
        (cursor, None) \<Rightarrow> Inl (SyntaxError cursor)
      | (cursor, Some column) \<Rightarrow>
      let comparison_cursor = cursor
      in case sql_parse_comparison cursor of
        (cursor, None) \<Rightarrow> Inl (SyntaxError cursor)
      | (cursor, Some comparison) \<Rightarrow> sql_parse_condition column comparison comparison_cursor cursor)"

definition sql_parse_select :: "string \<Rightarrow> sql_error + sql_query" where
  "sql_parse_select input =
     (case sql_match_keyword input ''SELECT'' of (ok, cursor) \<Rightarrow>
      if \<not> ok then Inl NotThisStatement
      else
        let select_list_cursor = sql_skip_spaces cursor
        in case sql_match_char select_list_cursor (CHR ''*'') of (ok, cursor) \<Rightarrow>
        if \<not> ok then
          (case sql_parse_identifier cursor 32 of
             (cursor, None) \<Rightarrow> Inl (SyntaxError cursor)
           | (cursor, Some selected_column) \<Rightarrow>
               if \<not> sql_is_known_column selected_column then Inl (UnknownColumn selected_column ''field list'')
               else Inl (SyntaxError select_list_cursor))
        else case sql_match_keyword (sql_skip_spaces cursor) ''FROM'' of (ok, cursor) \<Rightarrow>
        if \<not> ok then Inl (SyntaxError cursor)
        else case sql_parse_identifier cursor 32 of
          (cursor, None) \<Rightarrow> Inl (SyntaxError cursor)
        | (cursor, Some table_name) \<Rightarrow>
        if \<not> strcasecmp_eq table_name ''users'' then Inl (SyntaxError table_name)
        else case sql_match_statement_end (sql_skip_spaces cursor) of (ok, cursor) \<Rightarrow>
        if ok then Inr SelectAll else sql_parse_where cursor)"

text \<open>The first cell of the array of results.\<close>

definition first_record :: "RecordArray \<Rightarrow> ptr option" where
  "first_record a = (if count a > 0 then tmp_get (cells a) 0 else Some NULL)"

definition sql_run_query ::
  "'a db_mem_scheme \<Rightarrow> Table option \<Rightarrow> sql_query \<Rightarrow> ('a db_mem_scheme \<times> RecordArray \<times> bool) option" where
  "sql_run_query m table q =
     (case q of
        SelectAll \<Rightarrow> table_collect_all m table
      | SelectById comparison v \<Rightarrow> table_find_by_id_condition m table comparison v
      | SelectByName text_value \<Rightarrow> table_find_by_name_matches m table (Some text_value)
      | SelectByAge comparison v \<Rightarrow> table_find_by_age_condition m table comparison v)"

definition sql_execute_select ::
  "'a db_mem_scheme \<Rightarrow> Table option \<Rightarrow> string \<Rightarrow> ('a db_mem_scheme \<times> SQLResult) option" where
  "sql_execute_select m table input =
     (let result = sql_make_result SQL_STATUS_SYNTAX_ERROR SQL_ACTION_NONE
      in case sql_parse_select input of
           Inl e \<Rightarrow> Some (m, sql_report result e)
         | Inr q \<Rightarrow> do {
             (m, a, ok) \<leftarrow> sql_run_query m table q;
             let result = result\<lparr>res_records := cells a, row_count := count a\<rparr>;
             if \<not> ok then Some (m, result\<lparr>status := SQL_STATUS_ERROR\<rparr>)
             else do {
               first \<leftarrow> first_record a;
               Some (m, result\<lparr>res_record := first,
                 status := (if q \<noteq> SelectAll \<and> count a = 0 then SQL_STATUS_NOT_FOUND else SQL_STATUS_OK),
                 action := SQL_ACTION_SELECT_ROWS\<rparr>)
             }
           })"

definition sql_match_exit :: "string \<Rightarrow> bool \<times> string" where
  "sql_match_exit cursor =
     (case sql_match_keyword cursor ''EXIT'' of (ok, cursor) \<Rightarrow>
      if ok then (True, cursor) else sql_match_keyword cursor ''QUIT'')"

definition sql_execute ::
  "'a db_mem_scheme \<Rightarrow> Table option \<Rightarrow> string option \<Rightarrow>
   ('a db_mem_scheme \<times> Table option \<times> SQLResult) option" where
  "sql_execute m table input =
     (let result = sql_make_result SQL_STATUS_SYNTAX_ERROR SQL_ACTION_NONE
      in case (table, input) of
           (Some _, Some text) \<Rightarrow>
             let text = cstr text;
                 cursor = sql_skip_spaces text
             in (case sql_match_exit cursor of (ok, cursor) \<Rightarrow>
                 if ok then
                   (case sql_match_statement_end cursor of (ok, cursor) \<Rightarrow>
                    if ok then Some (m, table, result\<lparr>status := SQL_STATUS_EXIT\<rparr>)
                    else Some (m, table, sql_set_syntax_error result cursor))
                 else do {
                   (m, table, result) \<leftarrow> sql_execute_insert m table text;
                   if status result \<noteq> SQL_STATUS_SYNTAX_ERROR \<or> error_message result \<noteq> [] then Some (m, table, result)
                   else do {
                     (m, result) \<leftarrow> sql_execute_select m table text;
                     if status result = SQL_STATUS_SYNTAX_ERROR \<and> error_message result = []
                     then Some (m, table, sql_set_syntax_error result cursor)
                     else Some (m, table, result)
                   }
                 })
         | _ \<Rightarrow> Some (m, table, result\<lparr>status := SQL_STATUS_ERROR\<rparr>))"

definition sql_result_destroy :: "SQLResult option \<Rightarrow> SQLResult option" where
  "sql_result_destroy result = map_option (\<lambda>r. sql_make_result SQL_STATUS_OK SQL_ACTION_NONE) result"

end
