(* ===== verification/Sql_Parse.thy ===== *)
theory Sql_Parse
  imports Sql
begin

text \<open>
  The parser of \<^verbatim>\<open>src/core/sql.c\<close> against a grammar. Each token function is characterised by an
  equivalence that describes exactly the texts it accepts and the rest it leaves; composed, they show that
  the INSERT and SELECT parsers accept exactly the texts of the forms \<open>insert_form\<close> and \<open>select_form\<close>.
\<close>

section \<open>Characters\<close>

definition spaces :: "string \<Rightarrow> bool" where
  "spaces ws \<longleftrightarrow> (\<forall>c \<in> set ws. isspace c)"

lemma spaces_simps [simp]: "spaces []" "spaces (c # ws) \<longleftrightarrow> isspace c \<and> spaces ws"
  "spaces (v @ w) \<longleftrightarrow> spaces v \<and> spaces w"
  by (auto simp: spaces_def)

lemma peek_simps [simp]: "peek [] = NUL" "peek (c # s) = c"
  by (simp_all add: peek_def)

lemma peek_append: "peek (s @ t) = (if s = [] then peek t else peek s)"
  by (cases s) auto

lemma peek_tl: "peek s \<noteq> NUL \<Longrightarrow> s = peek s # tl s"
  by (cases s) auto

lemma peek_dropWhile: "\<not> P NUL \<Longrightarrow> \<not> P (peek (dropWhile P s))"
  by (induction s) auto

lemma takeWhile_dropWhile_same: "takeWhile P (dropWhile P s) = []" "dropWhile P (dropWhile P s) = dropWhile P s"
  by (induction s) auto

lemma space_not_ident: "isspace c \<Longrightarrow> \<not> is_ident c"
  by (auto simp: isspace_def is_ident_def isalnum_def isdigit_def isupper_def islower_def code_of_def)

lemma NUL_class [simp]: "\<not> isspace NUL" "\<not> is_ident NUL" "\<not> isdigit NUL"
  by (simp_all add: isspace_def is_ident_def isalnum_def isdigit_def isupper_def islower_def code_of_def)

lemma tolower_alpha: "islower (tolower c) \<Longrightarrow> isalpha c"
  by (auto simp: tolower_def isalpha_def split: if_splits)

lemma alpha_ident: "isalpha c \<Longrightarrow> is_ident c"
  by (auto simp: isalpha_def is_ident_def isalnum_def)

section \<open>Spaces\<close>

lemma skip_iff: "sql_skip_spaces s = t \<longleftrightarrow> (\<exists>ws. spaces ws \<and> s = ws @ t) \<and> \<not> isspace (peek t)"
proof
  assume t: "sql_skip_spaces s = t"
  have "s = takeWhile isspace s @ t" unfolding t [symmetric] sql_skip_spaces_def by simp
  moreover have "spaces (takeWhile isspace s)" by (auto simp: spaces_def dest: set_takeWhileD)
  moreover have "\<not> isspace (peek t)"
    using t peek_dropWhile [of isspace s] by (auto simp: sql_skip_spaces_def)
  ultimately show "(\<exists>ws. spaces ws \<and> s = ws @ t) \<and> \<not> isspace (peek t)" by blast
next
  assume "(\<exists>ws. spaces ws \<and> s = ws @ t) \<and> \<not> isspace (peek t)"
  then obtain ws where ws: "spaces ws" "s = ws @ t" and t: "\<not> isspace (peek t)" by blast
  from t have "dropWhile isspace t = t" by (cases t) auto
  then show "sql_skip_spaces s = t" using ws by (induction ws arbitrary: s) (auto simp: sql_skip_spaces_def)
qed

lemma skip_spaces_append: "spaces ws \<Longrightarrow> \<not> isspace (peek t) \<Longrightarrow> sql_skip_spaces (ws @ t) = t"
  unfolding skip_iff by blast

section \<open>Keywords and punctuation\<close>

lemma match_word_iff: "sql_match_word s kw = Some rest \<longleftrightarrow> (\<exists>w. s = w @ rest \<and> map tolower w = map tolower kw)"
proof (induction s kw rule: sql_match_word.induct)
  case (3 c start w word)
  show ?case
  proof
    assume "sql_match_word (c # start) (w # word) = Some rest"
    then obtain v where "tolower c = tolower w" "start = v @ rest" "map tolower v = map tolower word"
      using 3 by (auto split: if_splits)
    then show "\<exists>v. c # start = v @ rest \<and> map tolower v = map tolower (w # word)"
      by (intro exI [of _ "c # v"]) simp
  next
    assume "\<exists>v. c # start = v @ rest \<and> map tolower v = map tolower (w # word)"
    then obtain v where v: "c # start = v @ rest" "map tolower v = map tolower (w # word)" by blast
    then obtain v' where "v = c # v'" "start = v' @ rest" by (cases v) auto
    then show "sql_match_word (c # start) (w # word) = Some rest" using v 3 by auto
  qed
qed auto

lemma match_keyword_iff:
  "sql_match_keyword s kw = (True, rest) \<longleftrightarrow>
   (\<exists>w. s = w @ rest \<and> map tolower w = map tolower kw) \<and> \<not> is_ident (peek rest)"
  by (auto simp: sql_match_keyword_def match_word_iff [symmetric] split: option.splits)

lemma match_keyword_skip_iff:
  assumes "kw = k # ks" "islower (tolower k)"
  shows "sql_match_keyword (sql_skip_spaces s) kw = (True, rest) \<longleftrightarrow>
    (\<exists>ws w. spaces ws \<and> s = ws @ w @ rest \<and> map tolower w = map tolower kw) \<and> \<not> is_ident (peek rest)"
proof -
  have ns: "\<not> isspace (peek (w @ rest))" if h: "map tolower w = map tolower kw" for w
  proof -
    obtain c cs where w: "w = c # cs" "tolower c = tolower k" using h assms(1) by (cases w) auto
    then show ?thesis using assms(2) tolower_alpha [of c] alpha_ident space_not_ident by auto
  qed
  show ?thesis unfolding match_keyword_iff
    using ns skip_iff [of s] by (metis append_assoc)
qed

lemma match_char_iff:
  assumes "c \<noteq> NUL" "\<not> isspace c"
  shows "sql_match_char s c = (True, rest) \<longleftrightarrow> (\<exists>ws. spaces ws \<and> s = ws @ c # rest)"
proof -
  have "sql_match_char s c = (True, rest) \<longleftrightarrow> sql_skip_spaces s = c # rest"
    using assms(1) by (cases "sql_skip_spaces s") (auto simp: sql_match_char_def Let_def)
  then show ?thesis using assms(2) by (simp add: skip_iff)
qed

section \<open>Identifiers\<close>

definition ident_ok :: "string \<Rightarrow> bool" where
  "ident_ok w \<longleftrightarrow> w \<noteq> [] \<and> (isalpha (hd w) \<or> hd w = CHR ''_'') \<and> (\<forall>c \<in> set w. is_ident c)"

lemma ident_copy:
  assumes "length buf < n"
  shows "sql_ident_copy s buf n =
    (drop (min (length (takeWhile is_ident s)) (n - 1 - length buf)) s,
     buf @ take (min (length (takeWhile is_ident s)) (n - 1 - length buf)) s)"
  using assms
proof (induction s buf n rule: sql_ident_copy.induct)
  case (2 c cursor buffer n)
  show ?case
  proof (cases "is_ident c \<and> length buffer + 1 < n")
    case True
    then have "n - 1 - length buffer = Suc (n - 1 - length (buffer @ [c]))" by auto
    with 2 True show ?thesis by simp
  next
    case False
    then show ?thesis using 2 by auto
  qed
qed simp

lemma ident_rest: "sql_ident_rest s len = (dropWhile is_ident s, len + length (takeWhile is_ident s))"
  by (induction s len rule: sql_ident_rest.induct) auto

lemma parse_identifier_eq:
  assumes "0 < n"
  shows "sql_parse_identifier s n =
    (let cur = sql_skip_spaces s; w = takeWhile is_ident cur
     in if \<not> (isalpha (peek cur) \<or> peek cur = CHR ''_'') then (cur, None)
        else if n = 1 then (cur, None)
        else (dropWhile is_ident cur, if length w < n then Some w else None))"
proof -
  define cur where "cur = sql_skip_spaces s"
  define w where "w = takeWhile is_ident cur"
  define k where "k = min (length w) (n - 1)"
  show ?thesis
  proof (cases "isalpha (peek cur) \<or> peek cur = CHR ''_''")
    case False
    then show ?thesis by (auto simp: sql_parse_identifier_def cur_def Let_def)
  next
    case True
    then have i: "is_ident (peek cur)" using alpha_ident by (auto simp: is_ident_def)
    then obtain c cs where c: "cur = c # cs" "is_ident c" by (cases cur) auto
    then have w1: "0 < length w" by (simp add: w_def)
    have cp: "sql_ident_copy cur [] n = (drop k cur, take k cur)" using ident_copy [of "[]" n cur] assms by (simp add: k_def w_def)
    have lk: "length (take k cur) = k" using length_takeWhile_le [of is_ident cur] by (simp add: k_def w_def)
    have tk: "takeWhile is_ident (drop k cur) = drop k w" "dropWhile is_ident (drop k cur) = dropWhile is_ident cur"
    proof -
      have "drop k cur = drop k w @ dropWhile is_ident cur"
        using takeWhile_dropWhile_id [of is_ident cur] unfolding w_def [symmetric]
        by (metis drop_append k_def min.cobounded1 diff_is_0_eq drop0)
      moreover have "\<forall>c \<in> set (drop k w). is_ident c" by (auto simp: w_def dest!: in_set_dropD set_takeWhileD)
      moreover note takeWhile_dropWhile_same [of is_ident cur]
      ultimately show "takeWhile is_ident (drop k cur) = drop k w" "dropWhile is_ident (drop k cur) = dropWhile is_ident cur"
        by (simp_all add: takeWhile_append2 dropWhile_append2)
    qed
    have len: "k + length (drop k w) = length w" by (simp add: k_def)
    show ?thesis
    proof (cases "n = 1")
      case one: True
      then show ?thesis using True cp by (simp add: sql_parse_identifier_def cur_def [symmetric] k_def Let_def)
    next
      case False
      then have "k \<noteq> 0" using w1 assms by (simp add: k_def)
      moreover have "take k cur = w" if "length w < n"
        using that takeWhile_eq_take [of is_ident cur] by (simp add: k_def w_def min_absorb1)
      ultimately show ?thesis using True False cp lk tk len
        by (auto simp: sql_parse_identifier_def cur_def [symmetric] w_def [symmetric] ident_rest Let_def)
    qed
  qed
qed

lemma parse_identifier_iff:
  assumes "1 < n"
  shows "sql_parse_identifier s n = (rest, Some w) \<longleftrightarrow>
    (\<exists>ws. spaces ws \<and> s = ws @ w @ rest) \<and> ident_ok w \<and> length w < n \<and> \<not> is_ident (peek rest)"
proof
  assume p: "sql_parse_identifier s n = (rest, Some w)"
  define cur where "cur = sql_skip_spaces s"
  have w: "w = takeWhile is_ident cur" "rest = dropWhile is_ident cur" "length w < n" "isalpha (peek cur) \<or> peek cur = CHR ''_''"
    using p assms by (auto simp: parse_identifier_eq cur_def Let_def split: if_splits)
  have "is_ident (peek cur)" using w(4) alpha_ident by (auto simp: is_ident_def)
  then have "ident_ok w" using w(1,4) by (cases cur) (auto simp: ident_ok_def dest: set_takeWhileD)
  moreover have "\<not> is_ident (peek rest)" using w(2) peek_dropWhile [of is_ident cur] by simp
  moreover have "w @ rest = cur" using w(1,2) by simp
  moreover from this have "\<exists>ws. spaces ws \<and> s = ws @ w @ rest" using skip_iff [of s cur] cur_def by auto
  ultimately show "(\<exists>ws. spaces ws \<and> s = ws @ w @ rest) \<and> ident_ok w \<and> length w < n \<and> \<not> is_ident (peek rest)"
    using w(3) by blast
next
  assume a: "(\<exists>ws. spaces ws \<and> s = ws @ w @ rest) \<and> ident_ok w \<and> length w < n \<and> \<not> is_ident (peek rest)"
  then obtain c w' where c: "w = c # w'" "is_ident c" by (cases w) (auto simp: ident_ok_def)
  have "\<not> isspace (peek (w @ rest))" using c space_not_ident by auto
  then have "sql_skip_spaces s = w @ rest" using a skip_iff by blast
  moreover have "takeWhile is_ident (w @ rest) = w" "dropWhile is_ident (w @ rest) = rest"
    using a by (cases rest; auto simp: ident_ok_def)+
  ultimately show "sql_parse_identifier s n = (rest, Some w)"
    using a assms c by (simp add: parse_identifier_eq Let_def ident_ok_def)
qed

section \<open>Literals\<close>

lemma string_copy_iff:
  assumes "length buf < n"
  shows "sql_string_copy s buf n = (rest, Some v) \<longleftrightarrow>
    (\<exists>u. v = buf @ u \<and> s = u @ CHR 0x27 # rest \<and> CHR 0x27 \<notin> set u \<and> length v < n)"
  using assms
proof (induction s buf n rule: sql_string_copy.induct)
  case (2 c cursor buf n)
  consider (q) "c = CHR 0x27" | (full) "c \<noteq> CHR 0x27" "length buf + 1 \<ge> n" | (more) "c \<noteq> CHR 0x27" "length buf + 1 < n" by linarith
  then show ?case
  proof cases
    case q
    then show ?thesis using 2(2) by (auto simp: Cons_eq_append_conv)
  next
    case full
    then show ?thesis by (auto simp: Cons_eq_append_conv)
  next
    case more
    have "sql_string_copy (c # cursor) buf n = (rest, Some v) \<longleftrightarrow>
      (\<exists>u. v = (buf @ [c]) @ u \<and> cursor = u @ CHR 0x27 # rest \<and> CHR 0x27 \<notin> set u \<and> length v < n)"
      using 2(1) more by simp
    also have "\<dots> \<longleftrightarrow> (\<exists>u. v = buf @ u \<and> c # cursor = u @ CHR 0x27 # rest \<and> CHR 0x27 \<notin> set u \<and> length v < n)"
      using more(1) by (auto simp: Cons_eq_append_conv)
    finally show ?thesis .
  qed
qed simp

lemma parse_string_iff:
  assumes "0 < n"
  shows "sql_parse_string s n = (rest, Some v) \<longleftrightarrow>
    (\<exists>ws. spaces ws \<and> s = ws @ CHR 0x27 # v @ CHR 0x27 # rest) \<and> CHR 0x27 \<notin> set v \<and> length v < n"
proof -
  have q: "\<not> isspace (CHR 0x27)" by (simp add: isspace_def)
  have "sql_parse_string s n = (rest, Some v) \<longleftrightarrow>
    sql_skip_spaces s = CHR 0x27 # v @ CHR 0x27 # rest \<and> CHR 0x27 \<notin> set v \<and> length v < n"
  proof (cases "sql_skip_spaces s")
    case (Cons c cs)
    have "sql_string_copy cs [] n = (rest, Some v) \<longleftrightarrow> cs = v @ CHR 0x27 # rest \<and> CHR 0x27 \<notin> set v \<and> length v < n"
      using string_copy_iff [of "[]" n cs rest v] assms by auto
    then show ?thesis using Cons by (simp add: sql_parse_string_def Let_def)
  qed (simp add: sql_parse_string_def)
  then show ?thesis using q by (simp add: skip_iff)
qed

definition int_literal :: "string \<Rightarrow> bool" where
  "int_literal l \<longleftrightarrow> (\<exists>ds. ds \<noteq> [] \<and> (\<forall>c \<in> set ds. isdigit c) \<and> (l = ds \<or> l = CHR ''-'' # ds))"

definition literal_val :: "string \<Rightarrow> int" where
  "literal_val l = (if peek l = CHR ''-'' then - digits_val (tl l) else digits_val l)"

lemma digit_class: "isdigit c \<Longrightarrow> \<not> isspace c \<and> c \<noteq> CHR ''-'' \<and> c \<noteq> CHR ''+''"
  by (auto simp: isspace_def isdigit_def code_of_def)

lemma minus_class: "\<not> isspace (CHR ''-'')" "\<not> isdigit (CHR ''-'')"
  by (simp_all add: isspace_def isdigit_def code_of_def)

lemma takeWhile_all_append:
  assumes "\<forall>c \<in> set ds. P c" "\<not> P (peek rest)"
  shows "takeWhile P (ds @ rest) = ds" "dropWhile P (ds @ rest) = rest"
  using assms by (cases rest; auto)+

lemma strtol_literal:
  assumes "int_literal l" "\<not> isdigit (peek rest)"
  shows "strtol10 (l @ rest) = (clamp_long (literal_val l), rest)"
proof -
  obtain ds where ds: "ds \<noteq> []" "\<forall>c \<in> set ds. isdigit c" "l = ds \<or> l = CHR ''-'' # ds" using assms(1) by (auto simp: int_literal_def)
  then obtain d ds' where d: "ds = d # ds'" "isdigit d" by (cases ds) auto
  note tw = takeWhile_all_append [OF ds(2) assms(2)]
  from ds(3) show ?thesis
  proof
    assume l: "l = ds"
    then have "dropWhile isspace (l @ rest) = l @ rest" using d digit_class by simp
    then show ?thesis using l d digit_class [OF d(2)] tw
      by (simp add: strtol10_def literal_val_def Let_def)
  next
    assume l: "l = CHR ''-'' # ds"
    then have "dropWhile isspace (l @ rest) = l @ rest" using minus_class by simp
    then show ?thesis using l d tw by (simp add: strtol10_def literal_val_def Let_def)
  qed
qed

lemma parse_int_iff:
  "sql_parse_int s = (rest, Some i) \<longleftrightarrow>
   (\<exists>ws l. spaces ws \<and> s = ws @ l @ rest \<and> int_literal l \<and> i = int_of_long (clamp_long (literal_val l))) \<and>
   \<not> isdigit (peek rest)"
proof
  assume p: "sql_parse_int s = (rest, Some i)"
  define cur where "cur = sql_skip_spaces s"
  have g: "isdigit (peek cur) \<or> peek cur = CHR ''-''" "strtol10 cur \<noteq> (0, cur)"
    using p by (auto simp: sql_parse_int_def cur_def [symmetric] Let_def split: if_splits prod.splits)
  have ns: "dropWhile isspace cur = cur" using g(1) digit_class minus_class by (cases cur) auto
  define neg where "neg \<longleftrightarrow> peek cur = CHR ''-''"
  define t where "t = (if neg then tl cur else cur)"
  define l where "l = (if neg then [CHR ''-''] else []) @ takeWhile isdigit t"
  have "peek cur \<noteq> CHR ''+''" using g(1) digit_class by auto
  then have st: "strtol10 cur = (if takeWhile isdigit t = [] then (0, cur)
      else (clamp_long (if neg then - digits_val (takeWhile isdigit t) else digits_val (takeWhile isdigit t)), dropWhile isdigit t))"
    by (simp add: strtol10_def ns neg_def t_def Let_def)
  with g(2) have ne: "takeWhile isdigit t \<noteq> []" by auto
  have "int_literal l" using ne by (auto simp: int_literal_def l_def dest: set_takeWhileD)
  moreover have "cur = l @ dropWhile isdigit t"
    using g(1) by (cases cur) (auto simp: l_def t_def neg_def)
  moreover have "\<not> isdigit (peek (dropWhile isdigit t))" by (rule peek_dropWhile) simp
  moreover have "rest = dropWhile isdigit t" "i = int_of_long (clamp_long (literal_val l))"
  proof -
    have nd: "peek (takeWhile isdigit t) \<noteq> CHR ''-''" using minus_class(2)
      by (cases t) auto
    have "literal_val l = (if neg then - digits_val (takeWhile isdigit t) else digits_val (takeWhile isdigit t))"
      using nd by (simp add: literal_val_def l_def)
    then show "rest = dropWhile isdigit t" "i = int_of_long (clamp_long (literal_val l))"
      using p st ne by (auto simp: sql_parse_int_def cur_def [symmetric] Let_def split: if_splits)
  qed
  moreover obtain ws where "spaces ws" "s = ws @ cur" using skip_iff [of s cur] cur_def by auto
  ultimately show "(\<exists>ws l. spaces ws \<and> s = ws @ l @ rest \<and> int_literal l \<and> i = int_of_long (clamp_long (literal_val l))) \<and>
   \<not> isdigit (peek rest)" by metis
next
  assume "(\<exists>ws l. spaces ws \<and> s = ws @ l @ rest \<and> int_literal l \<and> i = int_of_long (clamp_long (literal_val l))) \<and>
   \<not> isdigit (peek rest)"
  then obtain ws l where l: "spaces ws" "s = ws @ l @ rest" "int_literal l" "i = int_of_long (clamp_long (literal_val l))"
    and r: "\<not> isdigit (peek rest)" by blast
  have pk: "isdigit (peek (l @ rest)) \<or> peek (l @ rest) = CHR ''-''" "l \<noteq> []"
    using l(3) by (auto simp: int_literal_def peek_append) (metis list.set_sel(1) list.exhaust_sel peek_simps(2))
  then have "\<not> isspace (peek (l @ rest))" using digit_class minus_class(1) by metis
  then have "sql_skip_spaces s = l @ rest" using l(1,2) skip_spaces_append by simp
  then show "sql_parse_int s = (rest, Some i)"
    using pk strtol_literal [OF l(3) r] l(4) by (auto simp: sql_parse_int_def Let_def)
qed

section \<open>Comparisons and the end of a statement\<close>

fun cmp_text :: "TableComparison \<Rightarrow> string" where
  "cmp_text TABLE_COMPARISON_EQ = ''=''"
| "cmp_text TABLE_COMPARISON_LT = ''<''"
| "cmp_text TABLE_COMPARISON_LE = ''<=''"
| "cmp_text TABLE_COMPARISON_GT = ''>''"
| "cmp_text TABLE_COMPARISON_GE = ''>=''"

lemma parse_comparison_iff:
  "sql_parse_comparison s = (rest, Some c) \<longleftrightarrow>
   (\<exists>ws. spaces ws \<and> s = ws @ cmp_text c @ rest) \<and>
   (c = TABLE_COMPARISON_LT \<or> c = TABLE_COMPARISON_GT \<longrightarrow> peek rest \<noteq> CHR ''='')"
proof -
  have sp: "\<not> isspace (peek (cmp_text c @ rest))" by (cases c) (auto simp: isspace_def)
  have "sql_parse_comparison s = (rest, Some c) \<longleftrightarrow> sql_skip_spaces s = cmp_text c @ rest \<and>
    (c = TABLE_COMPARISON_LT \<or> c = TABLE_COMPARISON_GT \<longrightarrow> peek rest \<noteq> CHR ''='')"
  proof (cases "sql_skip_spaces s")
    case Nil
    then show ?thesis by (cases c) (auto simp: sql_parse_comparison_def Let_def)
  next
    case (Cons x xs)
    then show ?thesis by (cases xs; cases c) (auto simp: sql_parse_comparison_def Let_def)
  qed
  then show ?thesis using sp by (auto simp: skip_iff)
qed

definition statement_end :: "string \<Rightarrow> bool" where
  "statement_end s \<longleftrightarrow> (\<exists>ws sc vs. s = ws @ sc @ vs \<and> spaces ws \<and> spaces vs \<and> (sc = [] \<or> sc = '';''))"

lemma match_statement_end_iff:
  assumes "NUL \<notin> set s"
  shows "sql_match_statement_end s = (True, rest) \<longleftrightarrow> rest = [] \<and> statement_end s"
proof -
  define cur where "cur = sql_skip_spaces s"
  obtain ws where ws: "spaces ws" "s = ws @ cur" "\<not> isspace (peek cur)" using skip_iff [of s cur] cur_def by auto
  define t where "t = (if peek cur = CHR '';'' then tl cur else cur)"
  have nul: "NUL \<notin> set (sql_skip_spaces t)"
    using assms ws(2) by (auto simp: t_def sql_skip_spaces_def dest!: set_dropWhileD split: if_splits) (cases cur; simp)
  then have "sql_match_statement_end s = (True, rest) \<longleftrightarrow> rest = [] \<and> sql_skip_spaces t = []"
    by (cases "sql_skip_spaces t") (auto simp: sql_match_statement_end_def Let_def cur_def [symmetric] t_def)
  moreover have "sql_skip_spaces t = [] \<longleftrightarrow> spaces t" by (auto simp: skip_iff)
  moreover have "spaces t \<longleftrightarrow> statement_end s"
  proof
    assume "spaces t"
    moreover have "cur = (if peek cur = CHR '';'' then '';'' else []) @ t"
      by (cases cur) (auto simp: t_def)
    ultimately show "statement_end s" using ws(1,2) unfolding statement_end_def by metis
  next
    assume "statement_end s"
    then obtain w sc v where e: "s = w @ sc @ v" "spaces w" "spaces v" "sc = [] \<or> sc = '';''" by (auto simp: statement_end_def)
    show "spaces t"
    proof (cases "sc = []")
      case True
      then have "sql_skip_spaces s = []" using e skip_spaces_append [of "w @ v" "[]"] by simp
      then show ?thesis using cur_def by (simp add: t_def)
    next
      case False
      then have "sql_skip_spaces s = CHR '';'' # v" using e skip_spaces_append [of w "CHR '';'' # v"] by (simp add: isspace_def)
      then show ?thesis using e cur_def by (simp add: t_def)
    qed
  qed
  ultimately show ?thesis by simp
qed

section \<open>The INSERT statement\<close>

definition keyword :: "string \<Rightarrow> string \<Rightarrow> bool" where
  "keyword w kw \<longleftrightarrow> map tolower w = map tolower kw"

definition quoted :: "string \<Rightarrow> string" where
  "quoted s = CHR 0x27 # s @ [CHR 0x27]"

text \<open>
  The text of an INSERT: the keywords in any case, separated by white space where two words meet,
  with optional white space elsewhere, a quoted name of at most 63 characters, an integer literal and an
  optional semicolon.
\<close>

definition insert_form :: "string \<Rightarrow> string \<Rightarrow> string \<Rightarrow> bool" where
  "insert_form input name l \<longleftrightarrow>
     (\<exists>k1 w1 k2 w2 tb w3 k3 w4 w5 w6 w7 w8 e.
        input = k1 @ w1 @ k2 @ w2 @ tb @ w3 @ k3 @ w4 @ ''('' @ w5 @ quoted name @ w6 @ '','' @ w7 @ l @ w8 @ '')'' @ e \<and>
        keyword k1 ''INSERT'' \<and> keyword k2 ''INTO'' \<and> keyword tb ''users'' \<and> keyword k3 ''VALUES'' \<and>
        spaces (w1 @ w2 @ w3 @ w4 @ w5 @ w6 @ w7 @ w8) \<and> w1 \<noteq> [] \<and> w2 \<noteq> [] \<and> w3 \<noteq> [] \<and>
        CHR 0x27 \<notin> set name \<and> length name < 64 \<and> int_literal l \<and> statement_end e)"

lemma keyword_Cons: "keyword w (k # ks) \<Longrightarrow> islower (tolower k) \<Longrightarrow> \<exists>c cs. w = c # cs \<and> isalpha c"
  by (cases w) (auto simp: keyword_def intro: tolower_alpha)

lemma keyword_ident:
  assumes "keyword w kw" "kw \<noteq> []" "\<forall>c \<in> set kw. islower (tolower c)"
  shows "ident_ok w"
proof -
  have "\<forall>c \<in> set w. islower (tolower c)" using assms(1,3) unfolding keyword_def
    by (metis (no_types, lifting) imageE image_eqI list.set_map)
  then have "\<forall>c \<in> set w. isalpha c" using tolower_alpha by blast
  moreover have "w \<noteq> []" using assms(1,2) by (auto simp: keyword_def)
  ultimately show ?thesis using alpha_ident by (auto simp: ident_ok_def)
qed

lemma users_ident: "keyword tb ''users'' \<Longrightarrow> ident_ok tb \<and> length tb < 32"
proof -
  assume k: "keyword tb ''users''"
  have "ident_ok tb" by (rule keyword_ident [OF k]) (simp_all add: tolower_def islower_def isupper_def code_of_def)
  moreover have "length tb = 5" using k map_eq_imp_length_eq unfolding keyword_def by fastforce
  ultimately show ?thesis by simp
qed

lemma separated:
  assumes "\<not> is_ident (peek (ws @ w @ rest))" "spaces ws" "w \<noteq> []" "is_ident (hd w)"
  shows "ws \<noteq> []"
  using assms by (cases w) auto

lemma spaces_peek: "spaces ws \<Longrightarrow> ws \<noteq> [] \<Longrightarrow> \<not> is_ident (peek (ws @ s))"
  using space_not_ident by (cases ws) auto

lemma lower_heads:
  "islower (tolower (CHR ''I''))" "islower (tolower (CHR ''V''))" "islower (tolower (CHR ''F''))" "islower (tolower (CHR ''W''))"
  by (simp_all add: tolower_def islower_def isupper_def code_of_def)

lemma punct_class:
  "\<not> isspace (CHR ''('')" "\<not> isspace (CHR '','')" "\<not> isspace (CHR '')'')" "\<not> isspace (CHR ''*'')" "\<not> isspace (CHR '';'')"
  "\<not> is_ident (CHR ''('')" "\<not> is_ident (CHR ''*'')" "\<not> is_ident (CHR '';'')" "\<not> isdigit (CHR '')'')" "\<not> isdigit (CHR '';'')"
  by (simp_all add: isspace_def is_ident_def isalnum_def isdigit_def isupper_def islower_def code_of_def)

lemmas token_iffs = match_keyword_iff match_keyword_skip_iff [OF refl lower_heads(1)] match_keyword_skip_iff [OF refl lower_heads(2)]
  match_keyword_skip_iff [OF refl lower_heads(3)] match_char_iff parse_identifier_iff parse_string_iff parse_int_iff
  parse_comparison_iff match_statement_end_iff

lemma parse_insert_steps:
  "sql_parse_insert input = Inr (name, age) \<longleftrightarrow>
   (\<exists>c1 c2 c3 tb c4 c5 c6 c7 c8 c9 c10.
      sql_match_keyword input ''INSERT'' = (True, c1) \<and> sql_match_keyword (sql_skip_spaces c1) ''INTO'' = (True, c2) \<and>
      sql_parse_identifier c2 32 = (c3, Some tb) \<and> keyword tb ''users'' \<and>
      sql_match_keyword (sql_skip_spaces c3) ''VALUES'' = (True, c4) \<and> sql_match_char c4 (CHR ''('') = (True, c5) \<and>
      sql_parse_string c5 64 = (c6, Some name) \<and> sql_match_char c6 (CHR '','') = (True, c7) \<and>
      sql_parse_int c7 = (c8, Some age) \<and> sql_match_char c8 (CHR '')'') = (True, c9) \<and>
      sql_match_statement_end c9 = (True, c10))"
  unfolding sql_parse_insert_def strcasecmp_eq_def keyword_def
  by (auto split: prod.splits option.splits if_splits)

lemma parse_insert_sound:
  assumes "NUL \<notin> set input" "sql_parse_insert input = Inr (name, age)"
  shows "\<exists>l. insert_form input name l \<and> age = int_of_long (clamp_long (literal_val l))"
proof -
  obtain c1 c2 c3 tb c4 c5 c6 c7 c8 c9 c10 where s:
    "sql_match_keyword input ''INSERT'' = (True, c1)" "sql_match_keyword (sql_skip_spaces c1) ''INTO'' = (True, c2)"
    "sql_parse_identifier c2 32 = (c3, Some tb)" "keyword tb ''users''"
    "sql_match_keyword (sql_skip_spaces c3) ''VALUES'' = (True, c4)" "sql_match_char c4 (CHR ''('') = (True, c5)"
    "sql_parse_string c5 64 = (c6, Some name)" "sql_match_char c6 (CHR '','') = (True, c7)"
    "sql_parse_int c7 = (c8, Some age)" "sql_match_char c8 (CHR '')'') = (True, c9)" "sql_match_statement_end c9 = (True, c10)"
    using assms(2) unfolding parse_insert_steps by blast
  obtain k1 where k1: "input = k1 @ c1" "keyword k1 ''INSERT''" "\<not> is_ident (peek c1)"
    using s(1) unfolding match_keyword_iff keyword_def by blast
  obtain w1 k2 where k2: "spaces w1" "c1 = w1 @ k2 @ c2" "keyword k2 ''INTO''" "\<not> is_ident (peek c2)"
    using s(2) unfolding match_keyword_skip_iff [OF refl lower_heads(1)] keyword_def by blast
  obtain w2 where w2: "spaces w2" "c2 = w2 @ tb @ c3" "\<not> is_ident (peek c3)"
    using s(3) parse_identifier_iff [of 32 c2 c3 tb] by auto
  obtain w3 k3 where k3: "spaces w3" "c3 = w3 @ k3 @ c4" "keyword k3 ''VALUES''"
    using s(5) unfolding match_keyword_skip_iff [OF refl lower_heads(2)] keyword_def by blast
  obtain w4 where w4: "spaces w4" "c4 = w4 @ CHR ''('' # c5" using s(6) match_char_iff [of "CHR ''(''"] punct_class by auto
  obtain w5 where w5: "spaces w5" "c5 = w5 @ CHR 0x27 # name @ CHR 0x27 # c6" "CHR 0x27 \<notin> set name" "length name < 64"
    using s(7) parse_string_iff [of 64] by auto
  obtain w6 where w6: "spaces w6" "c6 = w6 @ CHR '','' # c7" using s(8) match_char_iff [of "CHR '',''"] punct_class by auto
  obtain w7 l where l: "spaces w7" "c7 = w7 @ l @ c8" "int_literal l" "age = int_of_long (clamp_long (literal_val l))"
    using s(9) unfolding parse_int_iff by blast
  obtain w8 where w8: "spaces w8" "c8 = w8 @ CHR '')'' # c9" using s(10) match_char_iff [of "CHR '')''"] punct_class by auto
  have input: "input = k1 @ w1 @ k2 @ w2 @ tb @ w3 @ k3 @ w4 @ ''('' @ w5 @ quoted name @ w6 @ '','' @ w7 @ l @ w8 @ '')'' @ c9"
    using k1(1) k2(2) w2(2) k3(2) w4(2) w5(2) w6(2) l(2) w8(2) by (simp add: quoted_def)
  have e: "statement_end c9" using s(11) match_statement_end_iff [of c9] assms(1) input by auto
  have "w1 \<noteq> []" using k1(3) k2(2) keyword_Cons [OF k2(3) lower_heads(1)] alpha_ident by (cases w1) auto
  moreover have "w2 \<noteq> []" using k2(4) w2(2) users_ident [OF s(4)] alpha_ident
    by (cases tb; cases w2) (auto simp: ident_ok_def)
  moreover have "w3 \<noteq> []" using w2(3) k3(2) keyword_Cons [OF k3(3) lower_heads(2)] alpha_ident by (cases w3) auto
  ultimately have "insert_form input name l"
    using k1(2) k2(1,3) w2(1) s(4) k3(1,3) w4(1) w5(1,3,4) w6(1) l(1,3) w8(1) e input
    unfolding insert_form_def spaces_simps by blast
  then show ?thesis using l(4) by blast
qed

lemma parse_insert_complete:
  assumes "NUL \<notin> set input" "insert_form input name l"
  shows "sql_parse_insert input = Inr (name, int_of_long (clamp_long (literal_val l)))"
proof -
  obtain k1 w1 k2 w2 tb w3 k3 w4 w5 w6 w7 w8 e where f:
    "input = k1 @ w1 @ k2 @ w2 @ tb @ w3 @ k3 @ w4 @ ''('' @ w5 @ quoted name @ w6 @ '','' @ w7 @ l @ w8 @ '')'' @ e"
    "keyword k1 ''INSERT''" "keyword k2 ''INTO''" "keyword tb ''users''" "keyword k3 ''VALUES''"
    "spaces (w1 @ w2 @ w3 @ w4 @ w5 @ w6 @ w7 @ w8)" "w1 \<noteq> []" "w2 \<noteq> []" "w3 \<noteq> []"
    "CHR 0x27 \<notin> set name" "length name < 64" "int_literal l" "statement_end e"
    using assms(2) unfolding insert_form_def by blast
  have sp: "spaces w1" "spaces w2" "spaces w3" "spaces w4" "spaces w5" "spaces w6" "spaces w7" "spaces w8"
    using f(6) by simp_all
  let ?c9 = "e" let ?c8 = "w8 @ CHR '')'' # ?c9" let ?c7 = "w7 @ l @ ?c8" let ?c6 = "w6 @ CHR '','' # ?c7"
  let ?c5 = "w5 @ CHR 0x27 # name @ CHR 0x27 # ?c6" let ?c4 = "w4 @ CHR ''('' # ?c5" let ?c3 = "w3 @ k3 @ ?c4"
  let ?c2 = "w2 @ tb @ ?c3" let ?c1 = "w1 @ k2 @ ?c2"
  have "sql_match_keyword input ''INSERT'' = (True, ?c1)"
    unfolding match_keyword_iff using f(1,2) spaces_peek [OF sp(1) f(7)] by (auto simp: keyword_def quoted_def)
  moreover have "sql_match_keyword (sql_skip_spaces ?c1) ''INTO'' = (True, ?c2)"
    unfolding match_keyword_skip_iff [OF refl lower_heads(1)]
    using f(3) sp(1) spaces_peek [OF sp(2) f(8)] by (auto simp: keyword_def)
  moreover have "sql_parse_identifier ?c2 32 = (?c3, Some tb)"
    using users_ident [OF f(4)] sp(2) spaces_peek [OF sp(3) f(9)] parse_identifier_iff [of 32 ?c2 ?c3 tb] by auto
  moreover have "sql_match_keyword (sql_skip_spaces ?c3) ''VALUES'' = (True, ?c4)"
  proof -
    have "\<not> is_ident (peek ?c4)" using punct_class(6) spaces_peek [OF sp(4)] by (cases "w4 = []") auto
    then show ?thesis unfolding match_keyword_skip_iff [OF refl lower_heads(2)] using f(5) sp(3) by (auto simp: keyword_def)
  qed
  moreover have "sql_match_char ?c4 (CHR ''('') = (True, ?c5)" using sp(4) match_char_iff [of "CHR ''(''"] punct_class by auto
  moreover have "sql_parse_string ?c5 64 = (?c6, Some name)" using sp(5) f(10,11) parse_string_iff [of 64] by auto
  moreover have "sql_match_char ?c6 (CHR '','') = (True, ?c7)" using sp(6) match_char_iff [of "CHR '',''"] punct_class by auto
  moreover have "sql_parse_int ?c7 = (?c8, Some (int_of_long (clamp_long (literal_val l))))"
  proof -
    have "\<not> isdigit (peek ?c8)" using punct_class(9) sp(8) digit_class by (cases w8) auto
    then show ?thesis unfolding parse_int_iff using f(12) sp(7) by blast
  qed
  moreover have "sql_match_char ?c8 (CHR '')'') = (True, ?c9)" using sp(8) match_char_iff [of "CHR '')''"] punct_class by auto
  moreover have "sql_match_statement_end ?c9 = (True, [])" using f(13) match_statement_end_iff [of e] assms(1) f(1) by auto
  ultimately show ?thesis unfolding parse_insert_steps using f(4) by blast
qed

section \<open>The SELECT statement\<close>

text \<open>
  The operand \<open>t\<close> that makes \<open>q\<close> of a condition on the column \<open>col\<close> with the comparison \<open>c\<close>.
\<close>

fun where_operand :: "sql_query \<Rightarrow> string \<Rightarrow> TableComparison \<Rightarrow> string \<Rightarrow> bool" where
  "where_operand SelectAll col c t = False"
| "where_operand (SelectById c' v) col c t =
     (keyword col ''id'' \<and> c = c' \<and> int_literal t \<and> v = int_of_long (clamp_long (literal_val t)))"
| "where_operand (SelectByName nm) col c t =
     (keyword col ''name'' \<and> c = TABLE_COMPARISON_EQ \<and> t = quoted nm \<and> CHR 0x27 \<notin> set nm \<and> length nm < 64)"
| "where_operand (SelectByAge c' v) col c t =
     (keyword col ''age'' \<and> c = c' \<and> int_literal t \<and> v = int_of_long (clamp_long (literal_val t)))"

definition where_form :: "string \<Rightarrow> sql_query \<Rightarrow> bool" where
  "where_form s q \<longleftrightarrow>
     (\<exists>k w1 col w2 c w3 t e. s = k @ w1 @ col @ w2 @ cmp_text c @ w3 @ t @ e \<and> keyword k ''WHERE'' \<and>
        spaces (w1 @ w2 @ w3) \<and> w1 \<noteq> [] \<and> where_operand q col c t \<and> statement_end e)"

definition select_form :: "string \<Rightarrow> sql_query \<Rightarrow> bool" where
  "select_form input q \<longleftrightarrow>
     (\<exists>k1 w1 w2 k2 w3 tb x s. input = k1 @ w1 @ ''*'' @ w2 @ k2 @ w3 @ tb @ x @ s \<and>
        keyword k1 ''SELECT'' \<and> keyword k2 ''FROM'' \<and> keyword tb ''users'' \<and> spaces (w1 @ w2 @ w3) \<and> w3 \<noteq> [] \<and>
        statement_end x \<and> (if q = SelectAll then s = [] else x \<noteq> [] \<and> where_form s q))"

lemma statement_end_peek: "statement_end e \<Longrightarrow> \<not> isdigit (peek e) \<and> \<not> is_ident (peek e) \<and> peek e \<noteq> CHR ''=''"
  unfolding statement_end_def
proof (elim exE conjE)
  fix ws sc vs assume e: "e = ws @ sc @ vs" "spaces ws" "spaces vs" "sc = [] \<or> sc = '';''"
  have "peek e = NUL \<or> isspace (peek e) \<or> peek e = CHR '';''" using e by (cases ws; cases vs) auto
  moreover have "\<not> isspace (CHR ''='')" by (simp add: isspace_def)
  moreover have "\<not> isdigit c" if "isspace c" for c using that digit_class by blast
  ultimately show ?thesis using punct_class(8,10) space_not_ident NUL_class(2,3)
    by (elim disjE) (force, metis, force)
qed

lemma int_operand:
  assumes "NUL \<notin> set s"
  shows "(\<exists>c4 c5. sql_parse_int s = (c4, Some i) \<and> sql_match_statement_end c4 = (True, c5)) \<longleftrightarrow>
    (\<exists>ws l e. spaces ws \<and> s = ws @ l @ e \<and> int_literal l \<and> i = int_of_long (clamp_long (literal_val l)) \<and> statement_end e)"
proof
  assume "\<exists>c4 c5. sql_parse_int s = (c4, Some i) \<and> sql_match_statement_end c4 = (True, c5)"
  then obtain c4 c5 where c: "sql_parse_int s = (c4, Some i)" "sql_match_statement_end c4 = (True, c5)" by blast
  obtain ws l where l: "spaces ws" "s = ws @ l @ c4" "int_literal l" "i = int_of_long (clamp_long (literal_val l))"
    using c(1) unfolding parse_int_iff by blast
  moreover have "statement_end c4" using c(2) match_statement_end_iff [of c4] assms l(2) by auto
  ultimately show "\<exists>ws l e. spaces ws \<and> s = ws @ l @ e \<and> int_literal l \<and> i = int_of_long (clamp_long (literal_val l)) \<and> statement_end e" by blast
next
  assume "\<exists>ws l e. spaces ws \<and> s = ws @ l @ e \<and> int_literal l \<and> i = int_of_long (clamp_long (literal_val l)) \<and> statement_end e"
  then obtain ws l e where l: "spaces ws" "s = ws @ l @ e" "int_literal l" "i = int_of_long (clamp_long (literal_val l))" "statement_end e" by blast
  have "sql_parse_int s = (e, Some i)" unfolding parse_int_iff using l statement_end_peek by blast
  moreover have "sql_match_statement_end e = (True, [])" using match_statement_end_iff [of e] assms l(2,5) by auto
  ultimately show "\<exists>c4 c5. sql_parse_int s = (c4, Some i) \<and> sql_match_statement_end c4 = (True, c5)" by blast
qed

lemma string_operand:
  assumes "NUL \<notin> set s"
  shows "(\<exists>c4 c5. sql_parse_string s 64 = (c4, Some v) \<and> sql_match_statement_end c4 = (True, c5)) \<longleftrightarrow>
    (\<exists>ws e. spaces ws \<and> s = ws @ quoted v @ e \<and> CHR 0x27 \<notin> set v \<and> length v < 64 \<and> statement_end e)"
proof
  assume "\<exists>c4 c5. sql_parse_string s 64 = (c4, Some v) \<and> sql_match_statement_end c4 = (True, c5)"
  then obtain c4 c5 where c: "sql_parse_string s 64 = (c4, Some v)" "sql_match_statement_end c4 = (True, c5)" by blast
  obtain ws where w: "spaces ws" "s = ws @ quoted v @ c4" "CHR 0x27 \<notin> set v" "length v < 64"
    using c(1) parse_string_iff [of 64] by (auto simp: quoted_def)
  moreover have "statement_end c4" using c(2) match_statement_end_iff [of c4] assms w(2) by auto
  ultimately show "\<exists>ws e. spaces ws \<and> s = ws @ quoted v @ e \<and> CHR 0x27 \<notin> set v \<and> length v < 64 \<and> statement_end e" by blast
next
  assume "\<exists>ws e. spaces ws \<and> s = ws @ quoted v @ e \<and> CHR 0x27 \<notin> set v \<and> length v < 64 \<and> statement_end e"
  then obtain ws e where w: "spaces ws" "s = ws @ quoted v @ e" "CHR 0x27 \<notin> set v" "length v < 64" "statement_end e" by blast
  have "sql_parse_string s 64 = (e, Some v)" using w parse_string_iff [of 64] by (auto simp: quoted_def)
  moreover have "sql_match_statement_end e = (True, [])" using match_statement_end_iff [of e] assms w(2,5) by auto
  ultimately show "\<exists>c4 c5. sql_parse_string s 64 = (c4, Some v) \<and> sql_match_statement_end c4 = (True, c5)" by blast
qed

lemma keyword_distinct:
  "keyword col ''name'' \<Longrightarrow> \<not> keyword col ''id''" "keyword col ''age'' \<Longrightarrow> \<not> keyword col ''id''" "keyword col ''age'' \<Longrightarrow> \<not> keyword col ''name''"
  by (auto simp: keyword_def dest: map_eq_imp_length_eq)

definition where_rest :: "string \<Rightarrow> TableComparison \<Rightarrow> string \<Rightarrow> sql_query \<Rightarrow> bool" where
  "where_rest col c s q \<longleftrightarrow>
     (case q of
        SelectAll \<Rightarrow> False
      | SelectById c' v \<Rightarrow> keyword col ''id'' \<and> c = c' \<and>
          (\<exists>c4 c5. sql_parse_int s = (c4, Some v) \<and> sql_match_statement_end c4 = (True, c5))
      | SelectByName nm \<Rightarrow> keyword col ''name'' \<and> c = TABLE_COMPARISON_EQ \<and>
          (\<exists>c4 c5. sql_parse_string s 64 = (c4, Some nm) \<and> sql_match_statement_end c4 = (True, c5))
      | SelectByAge c' v \<Rightarrow> keyword col ''age'' \<and> c = c' \<and>
          (\<exists>c4 c5. sql_parse_int s = (c4, Some v) \<and> sql_match_statement_end c4 = (True, c5)))"

lemma where_rest_iff:
  assumes "NUL \<notin> set s"
  shows "where_rest col c s q \<longleftrightarrow> (\<exists>ws t e. spaces ws \<and> s = ws @ t @ e \<and> where_operand q col c t \<and> statement_end e)"
proof (cases q)
  case (SelectById c' v)
  then show ?thesis using int_operand [OF assms, of v] by (auto simp: where_rest_def)
next
  case (SelectByName nm)
  then show ?thesis using string_operand [OF assms, of nm] by (auto simp: where_rest_def)
next
  case (SelectByAge c' v)
  then show ?thesis using int_operand [OF assms, of v] by (auto simp: where_rest_def)
qed (simp add: where_rest_def)

lemma parse_condition_iff: "sql_parse_condition col c cc s = Inr q \<longleftrightarrow> where_rest col c s q"
proof -
  note k = keyword_distinct [of col]
  show ?thesis
  proof (cases "keyword col ''id''")
    case True
    then show ?thesis using k unfolding sql_parse_condition_def strcasecmp_eq_def keyword_def [symmetric] where_rest_def
      by (auto split: prod.splits option.splits sql_query.splits)
  next
    case False
    then show ?thesis using k unfolding sql_parse_condition_def strcasecmp_eq_def keyword_def [symmetric] where_rest_def
      by (auto split: prod.splits option.splits sql_query.splits)
  qed
qed

lemma parse_where_steps:
  "sql_parse_where s = Inr q \<longleftrightarrow>
   (\<exists>c1 c2 col c3 c. sql_match_keyword s ''WHERE'' = (True, c1) \<and> sql_parse_identifier c1 32 = (c2, Some col) \<and>
      sql_parse_comparison c2 = (c3, Some c) \<and> where_rest col c c3 q)"
  unfolding parse_condition_iff [symmetric] unfolding sql_parse_where_def Let_def
  by (auto simp: parse_condition_iff split: prod.splits option.splits if_splits)

lemma where_operand_ident: "where_operand q col c t \<Longrightarrow> ident_ok col \<and> length col < 32"
proof -
  assume "where_operand q col c t"
  then consider "keyword col ''id''" | "keyword col ''name''" | "keyword col ''age''" by (cases q) auto
  then show ?thesis
  proof cases
    case 1
    then have "ident_ok col" by (rule keyword_ident) (simp_all add: tolower_def islower_def isupper_def code_of_def)
    moreover have "length col = 2" using 1 map_eq_imp_length_eq unfolding keyword_def by fastforce
    ultimately show ?thesis by simp
  next
    case 2
    then have "ident_ok col" by (rule keyword_ident) (simp_all add: tolower_def islower_def isupper_def code_of_def)
    moreover have "length col = 4" using 2 map_eq_imp_length_eq unfolding keyword_def by fastforce
    ultimately show ?thesis by simp
  next
    case 3
    then have "ident_ok col" by (rule keyword_ident) (simp_all add: tolower_def islower_def isupper_def code_of_def)
    moreover have "length col = 3" using 3 map_eq_imp_length_eq unfolding keyword_def by fastforce
    ultimately show ?thesis by simp
  qed
qed

lemma where_operand_peek:
  assumes "where_operand q col c t"
  shows "\<exists>a u. t = a # u \<and> a \<noteq> CHR ''=''"
proof (cases q)
  case (SelectByName nm)
  then show ?thesis using assms by (simp add: quoted_def)
qed (use assms in \<open>auto simp: int_literal_def neq_Nil_conv isdigit_def code_of_def\<close>)

lemma cmp_peek: "\<exists>a u. cmp_text c = a # u \<and> \<not> is_ident a \<and> \<not> isspace a"
  by (cases c) (simp_all add: is_ident_def isalnum_def isdigit_def isupper_def islower_def code_of_def isspace_def)

lemma parse_where_iff:
  assumes nul: "NUL \<notin> set s"
  shows "sql_parse_where s = Inr q \<longleftrightarrow> where_form s q"
proof
  assume "sql_parse_where s = Inr q"
  then obtain c1 c2 col c3 c where st: "sql_match_keyword s ''WHERE'' = (True, c1)" "sql_parse_identifier c1 32 = (c2, Some col)"
    "sql_parse_comparison c2 = (c3, Some c)" "where_rest col c c3 q" unfolding parse_where_steps by blast
  obtain k where k: "s = k @ c1" "keyword k ''WHERE''" "\<not> is_ident (peek c1)"
    using st(1) unfolding match_keyword_iff keyword_def by blast
  obtain w1 where w1: "spaces w1" "c1 = w1 @ col @ c2" "ident_ok col" using st(2) parse_identifier_iff [of 32 c1 c2 col] by auto
  obtain w2 where w2: "spaces w2" "c2 = w2 @ cmp_text c @ c3" using st(3) unfolding parse_comparison_iff by blast
  have "NUL \<notin> set c3" using nul k(1) w1(2) w2(2) by simp
  then obtain w3 t e where w3: "spaces w3" "c3 = w3 @ t @ e" "where_operand q col c t" "statement_end e"
    using st(4) where_rest_iff by blast
  have "w1 \<noteq> []" using k(3) w1(2,3) by (cases col; cases w1) (auto simp: ident_ok_def)
  then show "where_form s q" unfolding where_form_def spaces_simps
    using k(1,2) w1(1,2) w2 w3 by blast
next
  assume "where_form s q"
  then obtain k w1 col w2 c w3 t e where f: "s = k @ w1 @ col @ w2 @ cmp_text c @ w3 @ t @ e" "keyword k ''WHERE''"
    "spaces w1" "spaces w2" "spaces w3" "w1 \<noteq> []" "where_operand q col c t" "statement_end e"
    unfolding where_form_def spaces_simps by blast
  let ?c3 = "w3 @ t @ e" let ?c2 = "w2 @ cmp_text c @ ?c3" let ?c1 = "w1 @ col @ ?c2"
  have "sql_match_keyword s ''WHERE'' = (True, ?c1)"
    unfolding match_keyword_iff using f(1,2) spaces_peek [OF f(3,6)] by (auto simp: keyword_def)
  moreover have "sql_parse_identifier ?c1 32 = (?c2, Some col)"
  proof -
    have "\<not> is_ident (peek ?c2)" using cmp_peek [of c] spaces_peek [OF f(4)] by (cases w2) auto
    then show ?thesis using where_operand_ident [OF f(7)] f(3) parse_identifier_iff [of 32 ?c1 ?c2 col] by auto
  qed
  moreover have "sql_parse_comparison ?c2 = (?c3, Some c)"
  proof -
    have "peek ?c3 \<noteq> CHR ''=''" using where_operand_peek [OF f(7)] f(5) by (cases w3) (auto simp: isspace_def)
    then show ?thesis unfolding parse_comparison_iff using f(4) by blast
  qed
  moreover have "where_rest col c ?c3 q" using where_rest_iff [of ?c3 col c q] nul f by auto
  ultimately show "sql_parse_where s = Inr q" unfolding parse_where_steps by blast
qed

lemma statement_end_split:
  assumes "NUL \<notin> set s" "sql_match_statement_end s = (False, t)"
  shows "\<exists>x. s = x @ t \<and> statement_end x"
proof -
  define cur where "cur = sql_skip_spaces s"
  define u where "u = (if peek cur = CHR '';'' then tl cur else cur)"
  have t: "t = sql_skip_spaces u" using assms(2) by (auto simp: sql_match_statement_end_def Let_def cur_def u_def)
  obtain ws where ws: "spaces ws" "s = ws @ cur" using skip_iff [of s cur] cur_def by auto
  obtain vs where vs: "spaces vs" "u = vs @ t" using skip_iff [of u t] t by auto
  have "cur = (if peek cur = CHR '';'' then '';'' else []) @ u" by (cases cur) (auto simp: u_def)
  then have "s = (ws @ (if peek cur = CHR '';'' then '';'' else []) @ vs) @ t" using ws(2) vs(2) by (metis append_assoc)
  moreover have "statement_end (ws @ (if peek cur = CHR '';'' then '';'' else []) @ vs)"
    unfolding statement_end_def using ws(1) vs(1) by (metis (full_types))
  ultimately show ?thesis by blast
qed

lemma statement_end_before:
  assumes "statement_end x" "peek t \<noteq> NUL" "\<not> isspace (peek t)" "peek t \<noteq> CHR '';''"
  shows "sql_match_statement_end (x @ t) = (False, t)"
proof -
  obtain ws sc vs where x: "x = ws @ sc @ vs" "spaces ws" "spaces vs" "sc = [] \<or> sc = '';''" using assms(1) by (auto simp: statement_end_def)
  from x(4) show ?thesis
  proof
    assume "sc = []"
    then have "sql_skip_spaces (x @ t) = t" using x assms(3) skip_spaces_append [of "ws @ vs" t] by simp
    moreover have "sql_skip_spaces t = t" using assms(3) skip_spaces_append [of "[]" t] by simp
    ultimately show ?thesis using assms(2,4) by (simp add: sql_match_statement_end_def Let_def)
  next
    assume "sc = '';''"
    then have "sql_skip_spaces (x @ t) = CHR '';'' # vs @ t" using x skip_spaces_append [of ws "CHR '';'' # vs @ t"] punct_class(5) by simp
    moreover have "sql_skip_spaces (vs @ t) = t" using assms(3) x(3) skip_spaces_append by simp
    ultimately show ?thesis using assms(2) by (simp add: sql_match_statement_end_def Let_def)
  qed
qed

lemma parse_select_steps:
  "sql_parse_select input = Inr q \<longleftrightarrow>
   (\<exists>c1 c2 c3 c4 tb ok c5.
      sql_match_keyword input ''SELECT'' = (True, c1) \<and> sql_match_char (sql_skip_spaces c1) (CHR ''*'') = (True, c2) \<and>
      sql_match_keyword (sql_skip_spaces c2) ''FROM'' = (True, c3) \<and> sql_parse_identifier c3 32 = (c4, Some tb) \<and>
      keyword tb ''users'' \<and> sql_match_statement_end (sql_skip_spaces c4) = (ok, c5) \<and>
      (if ok then q = SelectAll else sql_parse_where c5 = Inr q))"
  unfolding sql_parse_select_def strcasecmp_eq_def keyword_def Let_def
  by (auto split: prod.splits option.splits if_splits)

lemma skip_skip: "sql_skip_spaces (sql_skip_spaces s) = sql_skip_spaces s"
  by (simp add: sql_skip_spaces_def takeWhile_dropWhile_same(2))

lemma match_end_skip: "sql_match_statement_end (sql_skip_spaces s) = sql_match_statement_end s"
  by (simp add: sql_match_statement_end_def skip_skip)

lemma match_char_skip: "sql_match_char (sql_skip_spaces s) c = sql_match_char s c"
  by (simp add: sql_match_char_def skip_skip)

lemma select_tail_sound:
  assumes "NUL \<notin> set s" "\<not> is_ident (peek s)" "sql_match_statement_end s = (ok, c5)"
    "if ok then q = SelectAll else sql_parse_where c5 = Inr q"
  shows "\<exists>x u. s = x @ u \<and> statement_end x \<and> (if q = SelectAll then u = [] else x \<noteq> [] \<and> where_form u q)"
proof (cases ok)
  case True
  then show ?thesis using assms match_statement_end_iff [OF assms(1)] by auto
next
  case False
  obtain x where x: "s = x @ c5" "statement_end x" using statement_end_split [OF assms(1)] assms(3) False by auto
  have w: "where_form c5 q" using assms(1,4) False x(1) parse_where_iff [of c5 q] by auto
  then obtain k r where "c5 = k @ r" "keyword k ''WHERE''" unfolding where_form_def by blast
  then have "is_ident (peek c5)" using keyword_Cons [of k "CHR ''W''" "''HERE''"] lower_heads(4) alpha_ident by auto
  then have "x \<noteq> []" using assms(2) x(1) by auto
  moreover have "q \<noteq> SelectAll" using w unfolding where_form_def by auto
  ultimately show ?thesis using x w by auto
qed

lemma select_tail_complete:
  assumes "NUL \<notin> set (x @ s)" "statement_end x" "if q = SelectAll then s = [] else x \<noteq> [] \<and> where_form s q"
  shows "\<exists>ok c5. sql_match_statement_end (x @ s) = (ok, c5) \<and> (if ok then q = SelectAll else sql_parse_where c5 = Inr q)"
proof (cases "q = SelectAll")
  case True
  then show ?thesis using assms match_statement_end_iff [of "x @ s" "[]"] by auto
next
  case False
  then have w: "where_form s q" using assms(3) by simp
  then obtain k r where "s = k @ r" "keyword k ''WHERE''" unfolding where_form_def by blast
  then obtain a u where a: "s = a # u" "isalpha a" using keyword_Cons [of k "CHR ''W''" "''HERE''"] lower_heads(4) by auto
  have "is_ident a" using a(2) by (rule alpha_ident)
  then have "sql_match_statement_end (x @ s) = (False, s)"
    using a(1) space_not_ident NUL_class(2) punct_class(8) by (intro statement_end_before assms(2)) auto
  moreover have "sql_parse_where s = Inr q" using parse_where_iff [of s q] w assms(1) by auto
  ultimately show ?thesis by auto
qed

lemma parse_select_iff:
  assumes nul: "NUL \<notin> set input"
  shows "sql_parse_select input = Inr q \<longleftrightarrow> select_form input q"
proof
  assume "sql_parse_select input = Inr q"
  then obtain c1 c2 c3 c4 tb ok c5 where st:
    "sql_match_keyword input ''SELECT'' = (True, c1)" "sql_match_char c1 (CHR ''*'') = (True, c2)"
    "sql_match_keyword (sql_skip_spaces c2) ''FROM'' = (True, c3)" "sql_parse_identifier c3 32 = (c4, Some tb)"
    "keyword tb ''users''" "sql_match_statement_end c4 = (ok, c5)"
    "if ok then q = SelectAll else sql_parse_where c5 = Inr q"
    unfolding parse_select_steps match_char_skip match_end_skip by blast
  obtain k1 where k1: "input = k1 @ c1" "keyword k1 ''SELECT''" using st(1) unfolding match_keyword_iff keyword_def by blast
  obtain w1 where w1: "spaces w1" "c1 = w1 @ CHR ''*'' # c2" using st(2) match_char_iff [of "CHR ''*''"] punct_class by auto
  obtain w2 k2 where k2: "spaces w2" "c2 = w2 @ k2 @ c3" "keyword k2 ''FROM''" "\<not> is_ident (peek c3)"
    using st(3) unfolding match_keyword_skip_iff [OF refl lower_heads(3)] keyword_def by blast
  obtain w3 where w3: "spaces w3" "c3 = w3 @ tb @ c4" "ident_ok tb" "\<not> is_ident (peek c4)"
    using st(4) parse_identifier_iff [of 32 c3 c4 tb] by auto
  have "w3 \<noteq> []" using k2(4) w3(2,3) by (cases tb; cases w3) (auto simp: ident_ok_def)
  moreover have "NUL \<notin> set c4" using nul k1(1) w1(2) k2(2) w3(2) by simp
  then obtain x s where xs: "c4 = x @ s" "statement_end x" "if q = SelectAll then s = [] else x \<noteq> [] \<and> where_form s q"
    using select_tail_sound [OF _ w3(4) st(6,7)] by blast
  moreover have "input = k1 @ w1 @ ''*'' @ w2 @ k2 @ w3 @ tb @ x @ s"
    using k1(1) w1(2) k2(2) w3(2) xs(1) by simp
  ultimately show "select_form input q"
    using k1(2) w1(1) k2(1,3) w3(1) st(5) xs(2,3) unfolding select_form_def spaces_simps by blast
next
  assume "select_form input q"
  then obtain k1 w1 w2 k2 w3 tb x s where f: "input = k1 @ w1 @ ''*'' @ w2 @ k2 @ w3 @ tb @ x @ s"
    "keyword k1 ''SELECT''" "keyword k2 ''FROM''" "keyword tb ''users''" "spaces w1" "spaces w2" "spaces w3" "w3 \<noteq> []"
    "statement_end x" "if q = SelectAll then s = [] else x \<noteq> [] \<and> where_form s q"
    unfolding select_form_def spaces_simps by blast
  let ?c4 = "x @ s" let ?c3 = "w3 @ tb @ ?c4" let ?c2 = "w2 @ k2 @ ?c3" let ?c1 = "w1 @ CHR ''*'' # ?c2"
  have "sql_match_keyword input ''SELECT'' = (True, ?c1)"
  proof -
    have "\<not> is_ident (peek ?c1)" using punct_class(7) spaces_peek [OF f(5)] by (cases w1) auto
    then show ?thesis unfolding match_keyword_iff using f(1,2) by (auto simp: keyword_def)
  qed
  moreover have "sql_match_char ?c1 (CHR ''*'') = (True, ?c2)" using f(5) match_char_iff [of "CHR ''*''"] punct_class by auto
  moreover have "sql_match_keyword (sql_skip_spaces ?c2) ''FROM'' = (True, ?c3)"
    unfolding match_keyword_skip_iff [OF refl lower_heads(3)] using f(3,6) spaces_peek [OF f(7,8)] by (auto simp: keyword_def)
  moreover have "\<not> is_ident (peek ?c4)"
    using statement_end_peek [OF f(9)] f(10) by (cases x) (auto split: if_splits)
  then have "sql_parse_identifier ?c3 32 = (?c4, Some tb)"
    using users_ident [OF f(4)] f(7) parse_identifier_iff [of 32 ?c3 ?c4 tb] by auto
  moreover obtain ok c5 where "sql_match_statement_end ?c4 = (ok, c5)" "if ok then q = SelectAll else sql_parse_where c5 = Inr q"
    using select_tail_complete [OF _ f(9,10)] nul f(1) by auto
  ultimately show "sql_parse_select input = Inr q"
    unfolding parse_select_steps match_char_skip match_end_skip using f(4) by blast
qed

end
