(* ===== verification/Sql_Refine.thy ===== *)
theory Sql_Refine
  imports Sql_Parse
begin

text \<open>
  Execution of SQL statements against the specification of the table: every statement returns, an
  accepted statement has the effect and the result that its meaning asks for, and a rejected one reports
  an error and changes nothing.
\<close>

section \<open>Decimal literals\<close>

lemma digit_char: "d < 10 \<Longrightarrow> isdigit (digit_char d) \<and> digit_val (digit_char d) = int d"
proof -
  assume "d < 10"
  then have "d \<in> {0, 1, 2, 3, 4, 5, 6, 7, 8, 9}" by auto
  then show ?thesis by (auto simp: isdigit_def digit_val_def digit_char_def code_of_def)
qed

lemma digits_val_snoc: "digits_val (ds @ [c]) = 10 * digits_val ds + digit_val c"
  by (simp add: digits_val_def)

lemma show_nat_digits: "show_nat n \<noteq> [] \<and> (\<forall>c \<in> set (show_nat n). isdigit c) \<and> digits_val (show_nat n) = int n"
proof (induction n rule: show_nat.induct)
  case (1 n)
  show ?case
  proof (cases "n < 10")
    case True
    then show ?thesis using digit_char [of n] by (simp add: show_nat.simps digits_val_def)
  next
    case False
    then have "show_nat n = show_nat (n div 10) @ [digit_char (n mod 10)]" by (subst show_nat.simps) simp
    moreover have "int n = 10 * int (n div 10) + int (n mod 10)" by presburger
    ultimately show ?thesis using 1 [OF False] digit_char [of "n mod 10"] by (simp add: digits_val_snoc)
  qed
qed

lemma show_int_literal: "int_literal (show_int i)" "literal_val (show_int i) = i"
proof -
  note n = show_nat_digits [of "nat i"] and m = show_nat_digits [of "nat (- i)"]
  show "int_literal (show_int i)" using n m by (auto simp: int_literal_def show_int_def)
  have "peek (show_nat (nat i)) \<noteq> CHR ''-''" using n digit_class by (cases "show_nat (nat i)") auto
  then show "literal_val (show_int i) = i" using n m by (simp add: literal_val_def show_int_def)
qed

lemma int_of_long_range: "INT_MIN \<le> i \<Longrightarrow> i \<le> INT_MAX \<Longrightarrow> int_of_long (clamp_long i) = i"
  by (simp add: int_of_long_def clamp_long_def)

definition insert_text :: "string \<Rightarrow> int \<Rightarrow> string" where
  "insert_text name age = ''INSERT INTO users VALUES ('' @ quoted name @ '', '' @ show_int age @ '');''"

lemma insert_text_form:
  assumes "CHR 0x27 \<notin> set name" "length name < 64"
  shows "insert_form (insert_text name age) name (show_int age)"
proof -
  have sp: "isspace (CHR '' '')" by (simp add: isspace_def)
  have se: "statement_end '';''" unfolding statement_end_def by (intro exI [of _ "[]"] exI [of _ "'';''"]) simp
  show ?thesis unfolding insert_form_def insert_text_def
    by (rule exI [of _ "''INSERT''"], rule exI [of _ "'' ''"], rule exI [of _ "''INTO''"], rule exI [of _ "'' ''"], rule exI [of _ "''users''"], rule exI [of _ "'' ''"], rule exI [of _ "''VALUES''"], rule exI [of _ "'' ''"], rule exI [of _ "[]"], rule exI [of _ "[]"], rule exI [of _ "'' ''"], rule exI [of _ "[]"], rule exI [of _ "'';''"])
      (use assms sp se show_int_literal in \<open>simp add: keyword_def\<close>)
qed

section \<open>Error messages\<close>

lemma excerpt_copy_length: "length buf < n \<Longrightarrow> length (sql_excerpt_copy s buf n) < n"
  by (induction s buf n rule: sql_excerpt_copy.induct) auto

lemma strip_right_length: "length (sql_strip_right s) \<le> length s"
  using length_dropWhile_le [of isspace "rev s"] by (simp add: sql_strip_right_def)

lemma excerpt_bounds: "length (sql_build_near_excerpt s 64) \<le> 63 \<and> sql_build_near_excerpt s 64 \<noteq> []"
proof -
  have "length (sql_strip_right (sql_excerpt_copy c [] 64)) \<le> 63" for c
    using strip_right_length [of "sql_excerpt_copy c [] 64"] excerpt_copy_length [of "[]" 64 c] by simp
  then show ?thesis by (auto simp: sql_build_near_excerpt_def Let_def snprintf_def)
qed

lemma snprintf_fits: "length s < n \<Longrightarrow> snprintf n s = s"
  by (simp add: snprintf_def)

lemma syntax_message:
  "error_message (sql_set_syntax_error r s) = syntax_error_text (sql_build_near_excerpt s 64)"
  "error_message (sql_set_syntax_error r s) \<noteq> []"
proof -
  have "length (syntax_error_text (sql_build_near_excerpt s 64)) < 256"
    using excerpt_bounds [of s] by (simp add: syntax_error_text_def)
  then show "error_message (sql_set_syntax_error r s) = syntax_error_text (sql_build_near_excerpt s 64)"
    by (simp add: sql_set_syntax_error_def snprintf_fits)
  then show "error_message (sql_set_syntax_error r s) \<noteq> []" by (simp add: syntax_error_text_def)
qed

lemma unknown_message:
  assumes "length col < 32" "length cl < 32"
  shows "error_message (sql_set_unknown_column_error r col cl) = unknown_column_text col cl"
  using assms by (simp add: sql_set_unknown_column_error_def unknown_column_text_def snprintf_fits)

section \<open>Execution\<close>

fun query_matches :: "sql_query \<Rightarrow> Record \<Rightarrow> bool" where
  "query_matches SelectAll r = True"
| "query_matches (SelectById c v) r = table_compare_int (rec_id r) c v"
| "query_matches (SelectByName nm) r = (cstr (rec_name r) = cstr nm)"
| "query_matches (SelectByAge c v) r = table_compare_int (rec_age r) c v"

lemma query_matches_fun:
  "query_matches SelectAll = (\<lambda>r. True)" "query_matches (SelectById c v) = (\<lambda>r. table_compare_int (rec_id r) c v)"
  "query_matches (SelectByName nm) = (\<lambda>r. cstr (rec_name r) = cstr nm)"
  "query_matches (SelectByAge c v) = (\<lambda>r. table_compare_int (rec_age r) c v)"
  by (rule ext, simp)+

definition result_rows :: "'a db_mem_scheme \<Rightarrow> SQLResult \<Rightarrow> Record list \<Rightarrow> bool" where
  "result_rows m r rs \<longleftrightarrow> (\<exists>ps. row_count r = length rs \<and> take (row_count r) (res_records r) = map Some ps \<and>
     map (recs m) ps = map Some rs \<and> res_record r = hd (ps @ [NULL]))"

lemma run_query_yields:
  assumes "table_rep m t ps rs" "live_mem m"
  shows "yields m (sql_run_query m (Some t) q) (filter (query_matches q) rs)"
proof (cases q)
  case SelectAll
  have "match_ptrs (\<lambda>_. True) ps rs = ps" using assms(1) by (simp add: match_ptrs_def table_rep_def)
  then show ?thesis using SelectAll collects_yields [OF assms(1), of _ "\<lambda>_. True"] collect_all [OF assms]
    by (simp add: sql_run_query_def query_matches_fun)
next
  case (SelectById c v)
  then show ?thesis using collects_yields [OF assms(1) id_condition [OF assms]] by (simp add: sql_run_query_def query_matches_fun)
next
  case (SelectByName nm)
  then show ?thesis using collects_yields [OF assms(1) name_matches [OF assms]] by (simp add: sql_run_query_def query_matches_fun)
next
  case (SelectByAge c v)
  then show ?thesis using collects_yields [OF assms(1) age_condition [OF assms]] by (simp add: sql_run_query_def query_matches_fun)
qed

lemma first_record_holds: "arr_holds a ps \<Longrightarrow> first_record a = Some (hd (ps @ [NULL]))"
proof -
  assume a: "arr_holds a ps"
  show ?thesis
  proof (cases ps)
    case Nil
    then show ?thesis using a by (simp add: arr_holds_def first_record_def)
  next
    case (Cons p qs)
    then have "take (Suc (length qs)) (cells a) = Some p # map Some qs" using a by (auto simp: arr_holds_def)
    then have "cells a \<noteq> []" "cells a ! 0 = Some p" by (cases "cells a"; simp)+
    then show ?thesis using a Cons by (simp add: arr_holds_def first_record_def tmp_get_def arr_get_def)
  qed
qed

lemma execute_select_ok:
  assumes "table_rep m t ps rs" "live_mem m" "sql_parse_select input = Inr q"
  shows "\<exists>m' r. sql_execute_select m (Some t) input = Some (m', r) \<and> quiet m m' \<and>
    status r = (if q \<noteq> SelectAll \<and> filter (query_matches q) rs = [] then SQL_STATUS_NOT_FOUND else SQL_STATUS_OK) \<and>
    action r = SQL_ACTION_SELECT_ROWS \<and> error_message r = [] \<and> result_rows m' r (filter (query_matches q) rs)"
proof -
  obtain m' a qs where y: "sql_run_query m (Some t) q = Some (m', a, True)" "arr_holds a qs" "quiet m m'"
    "map (recs m') qs = map Some (filter (query_matches q) rs)"
    using run_query_yields [OF assms(1,2)] unfolding yields_def by blast
  have len: "length qs = length (filter (query_matches q) rs)" using y(4) map_eq_imp_length_eq by fastforce
  have c: "count a = length qs" "take (length qs) (cells a) = map Some qs" using y(2) by (auto simp: arr_holds_def)
  then have "filter (query_matches q) rs = [] \<longleftrightarrow> count a = 0" using len by auto
  then show ?thesis using y(1,3,4) c len first_record_holds [OF y(2)] assms(3)
    by (auto simp: sql_execute_select_def sql_make_result_def result_rows_def Let_def)
qed

lemma execute_insert_ok:
  assumes "table_rep m t ps rs" "live_mem m" "next_id t < INT_MAX" "sql_parse_insert input = Inr (nm, age)"
  shows "\<exists>m' t' p r. sql_execute_insert m (Some t) input = Some (m', Some t', r) \<and>
    status r = SQL_STATUS_OK \<and> action r = SQL_ACTION_INSERT \<and> inserted_id r = next_id t \<and> row_count r = 1 \<and>
    res_record r = p \<and> table_rep m' t' (ps @ [p]) (rs @ [new_record (next_id t) nm age]) \<and> live_mem m' \<and>
    next_id t' = next_id t + 1"
proof -
  obtain m' t' p where i: "table_insert m (Some t) (Some nm) age = Some (m', Some t', p)" "p \<noteq> NULL"
    "table_rep m' t' (ps @ [p]) (rs @ [new_record (next_id t) nm age])" "live_mem m'" "next_id t' = next_id t + 1"
    using table_insert_rep [OF assms(1-3)] by blast
  have "recs m' p = Some (new_record (next_id t) nm age)" using i(3) by (simp add: table_rep_def)
  then show ?thesis using i assms(4)
    by (auto simp: sql_execute_insert_def sql_make_result_def new_record_def Let_def)
qed

lemma lower_consts:
  "tolower (CHR ''I'') = CHR ''i''" "tolower (CHR ''S'') = CHR ''s''" "tolower (CHR ''E'') = CHR ''e''" "tolower (CHR ''Q'') = CHR ''q''"
  by code_simp+

lemma keyword_first:
  assumes "sql_match_keyword s (k # ks) = (True, r)"
  shows "tolower (peek s) = tolower k \<and> s \<noteq> []"
  using assms unfolding match_keyword_iff by (auto simp: map_eq_Cons_conv)

lemma exit_first:
  assumes "sql_match_exit s = (True, r)"
  shows "tolower (peek s) = CHR ''e'' \<or> tolower (peek s) = CHR ''q''"
proof -
  have "sql_match_keyword s ''EXIT'' = (True, r) \<or> sql_match_keyword s ''QUIT'' = (True, r)"
    using assms by (auto simp: sql_match_exit_def sql_match_keyword_def split: prod.splits if_splits option.splits)
  then show ?thesis using keyword_first [of s "CHR ''E''"] keyword_first [of s "CHR ''Q''"]
    by (auto simp: lower_consts)
qed

lemma parse_insert_first: "sql_parse_insert s \<noteq> Inl NotThisStatement \<Longrightarrow> tolower (peek s) = CHR ''i'' \<and> s \<noteq> []"
proof -
  assume "sql_parse_insert s \<noteq> Inl NotThisStatement"
  then obtain c where "sql_match_keyword s ''INSERT'' = (True, c)"
    unfolding sql_parse_insert_def by (cases "sql_match_keyword s ''INSERT''") (auto split: if_splits)
  then show ?thesis using keyword_first [of s "CHR ''I''"] by (auto simp: lower_consts)
qed

lemma parse_select_first: "sql_parse_select s \<noteq> Inl NotThisStatement \<Longrightarrow> tolower (peek s) = CHR ''s'' \<and> s \<noteq> []"
proof -
  assume "sql_parse_select s \<noteq> Inl NotThisStatement"
  then obtain c where "sql_match_keyword s ''SELECT'' = (True, c)"
    unfolding sql_parse_select_def by (cases "sql_match_keyword s ''SELECT''") (auto split: if_splits)
  then show ?thesis using keyword_first [of s "CHR ''S''"] by (auto simp: lower_consts)
qed

lemma lower_not_space:
  assumes "tolower c \<in> {CHR ''i'', CHR ''s''}"
  shows "\<not> isspace c"
proof -
  have "islower (tolower c)" using assms by (auto simp: islower_def code_of_def)
  then show ?thesis using tolower_alpha alpha_ident space_not_ident by blast
qed

lemma starts_no_exit:
  assumes "tolower (peek s) \<in> {CHR ''i'', CHR ''s''}"
  shows "sql_skip_spaces s = s \<and> (\<forall>r. sql_match_exit s \<noteq> (True, r))"
  using assms lower_not_space [OF assms] exit_first [of s] skip_iff [of s s] by auto

lemma match_exit_cases:
  obtains r where "sql_match_exit s = (True, r)" | r where "sql_match_exit s = (False, r)"
  by (cases "sql_match_exit s") (metis (full_types))

lemma exit_cursor: "sql_match_exit s = (False, r) \<Longrightarrow> r = s"
  by (auto simp: sql_match_exit_def sql_match_keyword_def split: prod.splits if_splits option.splits)

text \<open>What a text means as a statement.\<close>

datatype sql_statement =
    ExitStatement
  | InsertStatement string int
  | SelectStatement sql_query
  | BadStatement

definition statement_of :: "string \<Rightarrow> sql_statement" where
  "statement_of text =
     (if fst (sql_match_exit (sql_skip_spaces text))
      then (if fst (sql_match_statement_end (snd (sql_match_exit (sql_skip_spaces text)))) then ExitStatement else BadStatement)
      else case sql_parse_insert text of
        Inr (name, age) \<Rightarrow> InsertStatement name age
      | Inl e \<Rightarrow>
          if e \<noteq> NotThisStatement then BadStatement
          else case sql_parse_select text of Inr q \<Rightarrow> SelectStatement q | Inl e' \<Rightarrow> BadStatement)"

definition error_result :: "SQLResult \<Rightarrow> bool" where
  "error_result r \<longleftrightarrow> (status r = SQL_STATUS_SYNTAX_ERROR \<and> error_code r = 1064 \<and> sql_state r = ''42000'' \<or>
      status r = SQL_STATUS_QUERY_ERROR \<and> error_code r = 1054 \<and> sql_state r = ''42S22'') \<and>
     action r = SQL_ACTION_NONE \<and> error_message r \<noteq> [] \<and> length (error_message r) < SQL_ERROR_MESSAGE_SIZE \<and> row_count r = 0"

lemma report_error:
  assumes "e \<noteq> NotThisStatement"
  shows "error_result (sql_report (sql_make_result SQL_STATUS_SYNTAX_ERROR SQL_ACTION_NONE) e)"
proof (cases e)
  case (SyntaxError s)
  have l: "length (snprintf 256 x) < 256" for x by (simp add: snprintf_def)
  then show ?thesis using SyntaxError syntax_message(2)
    by (simp add: sql_report_def error_result_def sql_set_syntax_error_def sql_make_result_def snprintf_fits)
next
  case (UnknownColumn col cl)
  have l: "length (snprintf 256 x) < 256" "x \<noteq> [] \<Longrightarrow> snprintf 256 x \<noteq> []" for x by (simp_all add: snprintf_def)
  have "unknown_column_text col cl \<noteq> []" by (simp add: unknown_column_text_def)
  then show ?thesis using UnknownColumn l
    by (simp add: sql_report_def error_result_def sql_set_unknown_column_error_def sql_make_result_def snprintf_fits)
qed (use assms in simp)

lemma report_syntax:
  "error_result (sql_set_syntax_error (sql_make_result SQL_STATUS_SYNTAX_ERROR SQL_ACTION_NONE) s)"
  using report_error [of "SyntaxError s"] by (simp add: sql_report_def)

definition sql_outcome ::
  "'a db_mem_scheme \<Rightarrow> Table \<Rightarrow> ptr list \<Rightarrow> Record list \<Rightarrow> sql_statement \<Rightarrow> 'a db_mem_scheme \<Rightarrow> Table \<Rightarrow> SQLResult \<Rightarrow> bool" where
  "sql_outcome m t ps rs st m' t' r \<longleftrightarrow>
     (case st of
        ExitStatement \<Rightarrow> m' = m \<and> t' = t \<and> status r = SQL_STATUS_EXIT
      | InsertStatement name age \<Rightarrow>
          status r = SQL_STATUS_OK \<and> action r = SQL_ACTION_INSERT \<and> inserted_id r = next_id t \<and> row_count r = 1 \<and>
          table_rep m' t' (ps @ [res_record r]) (rs @ [new_record (next_id t) name age]) \<and> next_id t' = next_id t + 1
      | SelectStatement q \<Rightarrow>
          t' = t \<and> quiet m m' \<and> action r = SQL_ACTION_SELECT_ROWS \<and> result_rows m' r (filter (query_matches q) rs) \<and>
          status r = (if q \<noteq> SelectAll \<and> filter (query_matches q) rs = [] then SQL_STATUS_NOT_FOUND else SQL_STATUS_OK)
      | BadStatement \<Rightarrow> m' = m \<and> t' = t \<and> error_result r)"

lemma execute_no_exit:
  assumes "\<not> fst (sql_match_exit (sql_skip_spaces (cstr input)))"
  shows "sql_execute m (Some t) (Some input) = do {
     (m, table, result) \<leftarrow> sql_execute_insert m (Some t) (cstr input);
     if status result \<noteq> SQL_STATUS_SYNTAX_ERROR \<or> error_message result \<noteq> [] then Some (m, table, result)
     else do {
       (m, result) \<leftarrow> sql_execute_select m table (cstr input);
       if status result = SQL_STATUS_SYNTAX_ERROR \<and> error_message result = []
       then Some (m, table, sql_set_syntax_error result (sql_skip_spaces (cstr input)))
       else Some (m, table, result)
     }
   }"
  using assms exit_cursor [of "sql_skip_spaces (cstr input)"]
  by (cases "sql_match_exit (sql_skip_spaces (cstr input))") (simp add: sql_execute_def Let_def)

lemma execute_exit:
  assumes "fst (sql_match_exit (sql_skip_spaces (cstr input)))"
  shows "\<exists>r. sql_execute m (Some t) (Some input) = Some (m, Some t, r) \<and>
    sql_outcome m t ps rs (statement_of (cstr input)) m t r"
proof -
  obtain c where c: "sql_match_exit (sql_skip_spaces (cstr input)) = (True, c)"
    using assms by (cases "sql_match_exit (sql_skip_spaces (cstr input))") auto
  obtain ok d where d: "sql_match_statement_end c = (ok, d)" by (cases "sql_match_statement_end c")
  show ?thesis using c d report_syntax
    by (cases ok) (auto simp: sql_execute_def Let_def statement_of_def sql_outcome_def sql_make_result_def)
qed

lemma execute_outcome:
  assumes rep: "table_rep m t ps rs" and live: "live_mem m"
    and room: "next_id t < INT_MAX \<or> (\<forall>name age. statement_of (cstr input) \<noteq> InsertStatement name age)"
  shows "\<exists>m' t' r. sql_execute m (Some t) (Some input) = Some (m', Some t', r) \<and> live_mem m' \<and>
    sql_outcome m t ps rs (statement_of (cstr input)) m' t' r"
proof (cases "fst (sql_match_exit (sql_skip_spaces (cstr input)))")
  case True
  then show ?thesis using execute_exit live by blast
next
  case False
  note run = execute_no_exit [of input m t, OF False]
  let ?r0 = "sql_make_result SQL_STATUS_SYNTAX_ERROR SQL_ACTION_NONE"
  show ?thesis
  proof (cases "sql_parse_insert (cstr input)")
    case (Inr na)
    obtain nm age where na: "na = (nm, age)" by (cases na)
    have st: "statement_of (cstr input) = InsertStatement nm age" using Inr na False by (simp add: statement_of_def)
    then have "next_id t < INT_MAX" using room by blast
    from execute_insert_ok [OF rep live this Inr [unfolded na]] show ?thesis using run st
      by (auto simp: sql_outcome_def)
  next
    case (Inl e)
    have ins: "sql_execute_insert m (Some t) (cstr input) = Some (m, Some t, sql_report ?r0 e)"
      using Inl by (simp add: sql_execute_insert_def)
    show ?thesis
    proof (cases "e = NotThisStatement")
      case bad: False
      then show ?thesis using run ins report_error [OF bad] Inl False live
        by (auto simp: sql_outcome_def statement_of_def error_result_def)
    next
      case True
      then have run': "sql_execute m (Some t) (Some input) = do {
         (m, result) \<leftarrow> sql_execute_select m (Some t) (cstr input);
         if status result = SQL_STATUS_SYNTAX_ERROR \<and> error_message result = []
         then Some (m, Some t, sql_set_syntax_error result (sql_skip_spaces (cstr input)))
         else Some (m, Some t, result) }"
        using run ins by (simp add: sql_report_def sql_make_result_def)
      show ?thesis
      proof (cases "sql_parse_select (cstr input)")
        case (Inr q)
        then show ?thesis using execute_select_ok [OF rep live Inr] run' Inl True False live quiet_simps(2)
          by (fastforce simp: sql_outcome_def statement_of_def)
      next
        case sel: (Inl e')
        have s: "sql_execute_select m (Some t) (cstr input) = Some (m, sql_report ?r0 e')"
          using sel by (simp add: sql_execute_select_def)
        have "statement_of (cstr input) = BadStatement" using Inl True sel False by (simp add: statement_of_def)
        moreover have "\<exists>r. sql_execute m (Some t) (Some input) = Some (m, Some t, r) \<and> error_result r"
        proof (cases "e' = NotThisStatement")
          case True
          then show ?thesis using run' s report_syntax by (simp add: sql_report_def sql_make_result_def)
        next
          case False
          then show ?thesis using run' s report_error [OF False] by (auto simp: error_result_def)
        qed
        ultimately show ?thesis using live by (auto simp: sql_outcome_def)
      qed
    qed
  qed
qed

text \<open>After the last identifier the increment of the counter overflows, which is undefined.\<close>

lemma execute_insert_overflow:
  assumes "table_rep m t ps rs" "live_mem m" "next_id t = INT_MAX" "statement_of (cstr input) = InsertStatement name age"
  shows "sql_execute m (Some t) (Some input) = None"
proof -
  have ne: "\<not> fst (sql_match_exit (sql_skip_spaces (cstr input)))"
    using assms(4) by (auto simp: statement_of_def split: if_splits)
  have p: "sql_parse_insert (cstr input) = Inr (name, age)"
    using assms(4) ne by (auto simp: statement_of_def split: sum.splits if_splits)
  have "table_insert m (Some t) (Some name) age = None"
    using table_insert_overflow [OF assms(1-3)] .
  then show ?thesis using execute_no_exit [OF ne, of m t] p by (simp add: sql_execute_insert_def Let_def)
qed

lemma statement_insert_iff:
  "statement_of (cstr input) = InsertStatement name age \<longleftrightarrow>
   (\<exists>l. insert_form (cstr input) name l \<and> age = int_of_long (clamp_long (literal_val l)))"
proof -
  have "sql_parse_insert (cstr input) = Inr (name, age) \<longleftrightarrow> (\<exists>l. insert_form (cstr input) name l \<and> age = int_of_long (clamp_long (literal_val l)))"
    using parse_insert_sound [OF NUL_cstr] parse_insert_complete [OF NUL_cstr] by auto
  moreover have "fst (sql_match_exit (sql_skip_spaces (cstr input))) = False" if "sql_parse_insert (cstr input) = Inr (name, age)"
    using that parse_insert_first [of "cstr input"] starts_no_exit [of "cstr input"]
    by (cases "sql_match_exit (cstr input)") auto
  ultimately show ?thesis unfolding statement_of_def by (auto split: sum.splits if_splits)
qed

lemma statement_select_iff: "statement_of (cstr input) = SelectStatement q \<longleftrightarrow> select_form (cstr input) q"
proof -
  have "sql_parse_select (cstr input) = Inr q \<longleftrightarrow> select_form (cstr input) q" by (rule parse_select_iff [OF NUL_cstr])
  moreover have "fst (sql_match_exit (sql_skip_spaces (cstr input))) = False \<and> sql_parse_insert (cstr input) = Inl NotThisStatement"
    if "sql_parse_select (cstr input) = Inr q"
  proof -
    have f: "tolower (peek (cstr input)) = CHR ''s''" using that parse_select_first [of "cstr input"] by simp
    then have "sql_parse_insert (cstr input) = Inl NotThisStatement" using parse_insert_first [of "cstr input"] by auto
    moreover have "fst (sql_match_exit (sql_skip_spaces (cstr input))) = False"
      using f starts_no_exit [of "cstr input"] by (cases "sql_match_exit (cstr input)") auto
    ultimately show ?thesis by simp
  qed
  ultimately show ?thesis unfolding statement_of_def by (auto split: sum.splits if_splits)
qed

section \<open>Properties\<close>

text \<open>
  C16. Executing a text against a well-formed table, with memory available and the next identifier below 2147483647, always returns and
  has the outcome of its meaning: EXIT and QUIT report the exit status; an INSERT appends the row under the next
  identifier and reports it; a SELECT returns exactly the rows that satisfy its condition, in order, reports
  not-found when a condition selects none, and leaves the table as it was; any other text changes nothing and
  reports the syntax error 1064 or the unknown column 1054 with a message.
\<close>

theorem sql_execute_refines:
  assumes "table_rep m t ps rs" "live_mem m" "next_id t < INT_MAX"
  shows "\<exists>m' t' r. sql_execute m (Some t) (Some input) = Some (m', Some t', r) \<and> live_mem m' \<and>
    sql_outcome m t ps rs (statement_of (cstr input)) m' t' r"
  using execute_outcome [OF assms(1,2)] assms(3) by blast

theorem sql_execute_refines_witness:
  "table_rep db1_mem db1_table [4] [new_record 1 ''kim'' 20] \<and> live_mem db1_mem \<and> next_id db1_table < INT_MAX \<and>
   (\<exists>m' t' r. sql_execute db1_mem (Some db1_table) (Some ''SELECT * FROM users WHERE age >= 20;'') = Some (m', Some t', r) \<and>
      sql_outcome db1_mem db1_table [4] [new_record 1 ''kim'' 20] (SelectStatement (SelectByAge TABLE_COMPARISON_GE 20)) m' t' r)"
proof -
  have "next_id db1_table < INT_MAX" by (simp add: db1_table_def)
  moreover have "statement_of (cstr ''SELECT * FROM users WHERE age >= 20;'') = SelectStatement (SelectByAge TABLE_COMPARISON_GE 20)"
    by code_simp
  ultimately show ?thesis
    using sql_execute_refines [OF db1_rep, of "''SELECT * FROM users WHERE age >= 20;''"] db1_rep by auto
qed

text \<open>
  C18. A text is read as an INSERT of a name and an age exactly when it has the documented form:
  the keywords in any case and with any white space between them, the table users, a quoted name of at most
  63 characters, and an integer literal, whose value is cut to 32 bits.
\<close>

theorem sql_insert_grammar:
  "statement_of (cstr input) = InsertStatement name age \<longleftrightarrow>
   (\<exists>l. insert_form (cstr input) name l \<and> age = int_of_long (clamp_long (literal_val l)))"
  by (rule statement_insert_iff)

text \<open>
  C19. A text is read as the query \<open>q\<close> exactly when it has the form of a SELECT for \<open>q\<close>: all rows, or
  one comparison on id or age with an integer literal, or equality of the name with a quoted string. The form
  includes a semicolon before WHERE, which the parser lets pass.
\<close>

theorem sql_select_grammar:
  "statement_of (cstr input) = SelectStatement q \<longleftrightarrow> select_form (cstr input) q"
  by (rule statement_select_iff)

text \<open>
  C20. Printing an INSERT for a name without quotes of at most 63 characters and any 32-bit age, and
  parsing it again, gives the name and the age back.
\<close>

theorem sql_insert_roundtrip:
  assumes "CHR 0x27 \<notin> set name" "NUL \<notin> set name" "length name < 64" "INT_MIN \<le> age" "age \<le> INT_MAX"
  shows "sql_parse_insert (insert_text name age) = Inr (name, age)"
proof -
  have "NUL \<notin> set (show_nat n)" for n using show_nat_digits [of n] NUL_class(3) by blast
  then have "NUL \<notin> set (show_int age)" unfolding show_int_def by simp
  then have "NUL \<notin> set (insert_text name age)" using assms(2) by (simp add: insert_text_def quoted_def)
  from parse_insert_complete [OF this insert_text_form [OF assms(1,3)]]
  show ?thesis using show_int_literal(2) int_of_long_range [OF assms(4,5)] by simp
qed

theorem sql_insert_roundtrip_witness:
  "CHR 0x27 \<notin> set ''kim'' \<and> NUL \<notin> set ''kim'' \<and> length ''kim'' < 64 \<and> INT_MIN \<le> (- 7 :: int) \<and> (- 7 :: int) \<le> INT_MAX \<and>
   sql_parse_insert (insert_text ''kim'' (- 7)) = Inr (''kim'', - 7)"
  using sql_insert_roundtrip [of "''kim''" "- 7"] by simp

text \<open>
  C21. The fixed buffers of the error messages are large enough: the excerpt quoted in a syntax error is
  never empty and has at most 63 characters, and the syntax error and unknown column messages are stored in
  full, without truncation.
\<close>

theorem sql_error_messages_fit:
  assumes "length column < 32" "clause_name = ''field list'' \<or> clause_name = ''where clause''"
  shows "error_message (sql_set_syntax_error r cursor) = syntax_error_text (sql_build_near_excerpt cursor 64) \<and>
    sql_build_near_excerpt cursor 64 \<noteq> [] \<and> length (sql_build_near_excerpt cursor 64) \<le> 63 \<and>
    error_message (sql_set_unknown_column_error r column clause_name) = unknown_column_text column clause_name"
  using syntax_message(1) excerpt_bounds unknown_message [OF assms(1), of clause_name] assms(2) by auto

theorem sql_error_messages_fit_witness:
  "length ''salary'' < 32 \<and> (''field list'' = ''field list'' \<or> ''field list'' = ''where clause'') \<and>
   error_message (sql_set_unknown_column_error (sql_make_result SQL_STATUS_OK SQL_ACTION_NONE) ''salary'' ''field list'') =
     unknown_column_text ''salary'' ''field list''"
  using sql_error_messages_fit [of "''salary''" "''field list''" "sql_make_result SQL_STATUS_OK SQL_ACTION_NONE"] by simp

text \<open>
  An integer literal beyond 32 bits is not rejected but wraps: the condition id = 4294967297 is
  read as id = 1.
\<close>

theorem sql_literal_wraps:
  "statement_of ''SELECT * FROM users WHERE id = 4294967297'' = SelectStatement (SelectById TABLE_COMPARISON_EQ 1)"
  by code_simp

text \<open>
  White space before a statement is skipped for EXIT, but makes every INSERT and SELECT a syntax
  error: no text that starts with white space is read as either.
\<close>

theorem sql_leading_space_rejected:
  assumes "isspace c"
  shows "statement_of (c # s) \<noteq> InsertStatement name age \<and> statement_of (c # s) \<noteq> SelectStatement q"
proof -
  have "sql_parse_insert (c # s) = Inl NotThisStatement"
    using assms parse_insert_first [of "c # s"] lower_not_space [of c] by auto
  moreover have "sql_parse_select (c # s) = Inl NotThisStatement"
    using assms parse_select_first [of "c # s"] lower_not_space [of c] by auto
  ultimately show ?thesis by (simp add: statement_of_def)
qed

theorem sql_leading_space_rejected_witness:
  "isspace (CHR '' '') \<and> statement_of ('' SELECT * FROM users'') \<noteq> SelectStatement SelectAll"
  using sql_leading_space_rejected [of "CHR '' ''" "''SELECT * FROM users''"] by (simp add: isspace_def)

end
