(* ===== verification/Platform.thy ===== *)
theory Platform
  imports CPrelude "HOL-Library.Word"
begin

text \<open>
  The platform layer of \<^verbatim>\<open>src/server/platform.c\<close>. The readers-writer lock functions wrap the POSIX lock and stand
  for its documented behaviour: a read lock is refused while a writer holds the lock, a write lock while anyone
  does. The locale \<open>rw_lock\<close> is the contract that the database server relies on, with the number of threads
  that hold the lock for reading and for writing; the lock of the platform is an instance. Clock readings
  are 64-bit words.
\<close>

record PlatformRWLock =
  readers :: nat
  writing :: bool

section \<open>The readers-writer lock\<close>

definition platform_rwlock_init :: PlatformRWLock where
  "platform_rwlock_init = \<lparr>readers = 0, writing = False\<rparr>"

definition platform_rwlock_try_read_lock :: "PlatformRWLock \<Rightarrow> PlatformRWLock \<times> bool" where
  "platform_rwlock_try_read_lock l =
     (if writing l then (l, False) else (l\<lparr>readers := Suc (readers l)\<rparr>, True))"

definition platform_rwlock_try_write_lock :: "PlatformRWLock \<Rightarrow> PlatformRWLock \<times> bool" where
  "platform_rwlock_try_write_lock l =
     (if writing l \<or> 0 < readers l then (l, False) else (l\<lparr>writing := True\<rparr>, True))"

definition platform_rwlock_read_unlock :: "PlatformRWLock \<Rightarrow> PlatformRWLock" where
  "platform_rwlock_read_unlock l = l\<lparr>readers := readers l - 1\<rparr>"

definition platform_rwlock_write_unlock :: "PlatformRWLock \<Rightarrow> PlatformRWLock" where
  "platform_rwlock_write_unlock l = l\<lparr>writing := False\<rparr>"

section \<open>Time\<close>

definition platform_now_millis :: "64 word \<Rightarrow> 64 word \<Rightarrow> 64 word" where
  "platform_now_millis tv_sec tv_nsec = tv_sec * 1000 + tv_nsec div 1000000"

definition platform_sleep_duration :: "32 word \<Rightarrow> 32 word \<times> 64 word" where
  "platform_sleep_duration milliseconds = (milliseconds div 1000, ucast (milliseconds mod 1000) * 1000000)"

text \<open>The request for a sleep is one that \<^verbatim>\<open>nanosleep\<close> accepts: its nanoseconds are below one second.\<close>

lemma sleep_duration_nsec: "snd (platform_sleep_duration ms) < 1000000000"
proof -
  have "unat (ms mod 1000) < 1000" by (simp add: unat_mod)
  then have "unat (ucast (ms mod 1000) :: 64 word) < 1000"
    by (simp add: unsigned_ucast_eq le_less_trans [OF take_bit_nat_less_eq_self])
  then have "unat (ucast (ms mod 1000) * 1000000 :: 64 word) < 1000000000" by (simp add: unat_word_ariths)
  then show ?thesis by (simp add: platform_sleep_duration_def word_less_nat_alt)
qed

section \<open>The contract of the lock\<close>

text \<open>\<open>held l r w\<close>: the lock \<open>l\<close> is held by \<open>r\<close> readers and \<open>w\<close> writers.\<close>

locale rw_lock =
  fixes try_read :: "'l \<Rightarrow> 'l \<times> bool"
    and try_write :: "'l \<Rightarrow> 'l \<times> bool"
    and read_unlock :: "'l \<Rightarrow> 'l"
    and write_unlock :: "'l \<Rightarrow> 'l"
    and held :: "'l \<Rightarrow> nat \<Rightarrow> nat \<Rightarrow> bool"
  assumes held_exclusive: "held l r w \<Longrightarrow> w = 0 \<or> w = 1 \<and> r = 0"
    and try_read_ok: "held l r w \<Longrightarrow> try_read l = (l', True) \<Longrightarrow> w = 0 \<and> held l' (Suc r) 0"
    and try_read_fail: "held l r w \<Longrightarrow> try_read l = (l', False) \<Longrightarrow> l' = l \<and> 0 < w"
    and try_write_ok: "held l r w \<Longrightarrow> try_write l = (l', True) \<Longrightarrow> w = 0 \<and> r = 0 \<and> held l' 0 1"
    and try_write_fail: "held l r w \<Longrightarrow> try_write l = (l', False) \<Longrightarrow> l' = l \<and> (0 < w \<or> 0 < r)"
    and read_unlock_held: "held l (Suc r) w \<Longrightarrow> held (read_unlock l) r 0"
    and write_unlock_held: "held l r (Suc w) \<Longrightarrow> held (write_unlock l) 0 0"
begin

lemma free_read:
  assumes "held l r 0"
  obtains l' where "try_read l = (l', True)" "held l' (Suc r) 0"
proof (cases "try_read l")
  case (Pair l' ok)
  then have "ok" using assms try_read_fail by (cases ok) auto
  then show ?thesis using that [of l'] try_read_ok [OF assms, of l'] Pair by auto
qed

lemma free_write:
  assumes "held l 0 0"
  obtains l' where "try_write l = (l', True)" "held l' 0 1"
proof (cases "try_write l")
  case (Pair l' ok)
  then have "ok" using assms try_write_fail by (cases ok) auto
  then show ?thesis using that [of l'] try_write_ok [OF assms, of l'] Pair by auto
qed

lemma read_cycle: "held l r 0 \<Longrightarrow> try_read l = (l', True) \<Longrightarrow> held (read_unlock l') r 0"
  using try_read_ok read_unlock_held by blast

lemma write_cycle: "held l 0 0 \<Longrightarrow> try_write l = (l', True) \<Longrightarrow> held (write_unlock l') 0 0"
  using try_write_ok write_unlock_held [of l' 0 0] by auto

end

definition rwlock_held :: "PlatformRWLock \<Rightarrow> nat \<Rightarrow> nat \<Rightarrow> bool" where
  "rwlock_held l r w \<longleftrightarrow> readers l = r \<and> w = (if writing l then 1 else 0) \<and> (writing l \<longrightarrow> r = 0)"

interpretation db: rw_lock platform_rwlock_try_read_lock platform_rwlock_try_write_lock
  platform_rwlock_read_unlock platform_rwlock_write_unlock rwlock_held
  by unfold_locales
    (auto simp: rwlock_held_def platform_rwlock_try_read_lock_def platform_rwlock_try_write_lock_def
      platform_rwlock_read_unlock_def platform_rwlock_write_unlock_def split: if_splits)

lemma rwlock_held_init [simp]: "rwlock_held platform_rwlock_init 0 0"
  by (simp add: rwlock_held_def platform_rwlock_init_def)

end
