(* ===== verification/DbServer.thy ===== *)
theory DbServer
  imports Sql_Refine Platform
begin

text \<open>
  The database server of \<^verbatim>\<open>src/server/db_server.c\<close>: classification of a query, the readers-writer lock
  around the table with its time-out, execution, and the metrics. The metrics functions take a mutex
  around their updates and are atomic here. Counters and times are 64-bit words, which wrap.
\<close>

section \<open>Data\<close>

datatype DBServerExecStatus =
    DB_SERVER_EXEC_STATUS_OK
  | DB_SERVER_EXEC_STATUS_LOCK_TIMEOUT
  | DB_SERVER_EXEC_STATUS_ERROR

datatype DBServerQueryKind =
    DB_SERVER_QUERY_KIND_NONE
  | DB_SERVER_QUERY_KIND_READ
  | DB_SERVER_QUERY_KIND_WRITE

record DBServerConfig =
  lock_timeout_ms :: "32 word"
  simulate_read_delay_ms :: "32 word"
  simulate_write_delay_ms :: "32 word"

record DBServerMetrics =
  total_requests :: "64 word"
  total_health_requests :: "64 word"
  total_metrics_requests :: "64 word"
  total_query_requests :: "64 word"
  total_select_requests :: "64 word"
  total_insert_requests :: "64 word"
  total_errors :: "64 word"
  total_syntax_errors :: "64 word"
  total_query_errors :: "64 word"
  total_internal_errors :: "64 word"
  total_not_found_results :: "64 word"
  total_queue_full :: "64 word"
  total_lock_timeouts :: "64 word"
  active_query_requests :: "64 word"

record DBServer =
  srv_table :: "Table option"
  db_lock :: PlatformRWLock
  config :: DBServerConfig
  metrics :: DBServerMetrics

record DBServerExecution =
  ex_result :: SQLResult
  used_index :: bool
  is_write :: bool
  server_status :: DBServerExecStatus
  message :: string

section \<open>Classification\<close>

definition db_server_zero_execution :: DBServerExecution where
  "db_server_zero_execution =
     \<lparr>ex_result = sql_make_result SQL_STATUS_ERROR SQL_ACTION_NONE, used_index = False, is_write = False,
      server_status = DB_SERVER_EXEC_STATUS_ERROR, message = snprintf 128 ''Execution not started''\<rparr>"

fun db_server_skip_spaces :: "string \<Rightarrow> string" where
  "db_server_skip_spaces [] = []"
| "db_server_skip_spaces (c # cursor) = (if isspace c then db_server_skip_spaces cursor else c # cursor)"

fun db_server_match_word :: "string \<Rightarrow> string \<Rightarrow> string option" where
  "db_server_match_word start [] = Some start"
| "db_server_match_word [] (w # word) = None"
| "db_server_match_word (c # start) (w # word) =
     (if tolower c \<noteq> tolower w then None else db_server_match_word start word)"

definition db_server_match_keyword :: "string \<Rightarrow> string \<Rightarrow> bool \<times> string" where
  "db_server_match_keyword cursor kw =
     (case db_server_match_word cursor kw of
        None \<Rightarrow> (False, cursor)
      | Some start \<Rightarrow> if isalnum (peek start) \<or> peek start = CHR ''_'' then (False, cursor) else (True, start))"

definition db_server_parse_identifier :: "string \<Rightarrow> nat \<Rightarrow> string \<times> string option" where
  "db_server_parse_identifier cursor buffer_size =
     (let cursor = db_server_skip_spaces cursor
      in if \<not> (isalpha (peek cursor) \<or> peek cursor = CHR ''_'') then (cursor, None)
         else
           let (cursor, buffer) = sql_ident_copy cursor [] buffer_size;
               (cursor, len) = sql_ident_rest cursor (length buffer)
           in if len \<ge> buffer_size then (cursor, None) else (cursor, Some buffer))"

fun db_server_identifier_equals :: "string \<Rightarrow> string \<Rightarrow> bool" where
  "db_server_identifier_equals (a # left) (b # right) =
     (if tolower a \<noteq> tolower b then False else db_server_identifier_equals left right)"
| "db_server_identifier_equals left right = (left = [] \<and> right = [])"

definition db_server_classify_query :: "string option \<Rightarrow> DBServerQueryKind" where
  "db_server_classify_query query =
     (case query of
        None \<Rightarrow> DB_SERVER_QUERY_KIND_NONE
      | Some q \<Rightarrow>
          let cursor = db_server_skip_spaces (cstr q)
          in if fst (db_server_match_keyword cursor ''SELECT'') then DB_SERVER_QUERY_KIND_READ
             else if fst (db_server_match_keyword cursor ''INSERT'') then DB_SERVER_QUERY_KIND_WRITE
             else DB_SERVER_QUERY_KIND_NONE)"

fun db_server_scan_where :: "string \<Rightarrow> bool" where
  "db_server_scan_where [] = False"
| "db_server_scan_where (c # cursor) =
     (case db_server_match_keyword (c # cursor) ''WHERE'' of (ok, rest) \<Rightarrow>
      if ok then
        (case db_server_parse_identifier rest 32 of
           (_, None) \<Rightarrow> False
         | (_, Some column) \<Rightarrow> db_server_identifier_equals column ''id'')
      else db_server_scan_where cursor)"

definition db_server_guess_uses_index :: "string option \<Rightarrow> bool" where
  "db_server_guess_uses_index query =
     (case query of
        None \<Rightarrow> False
      | Some q \<Rightarrow>
          (case db_server_match_keyword (db_server_skip_spaces (cstr q)) ''SELECT'' of (ok, cursor) \<Rightarrow>
           if \<not> ok then False else db_server_scan_where cursor))"

section \<open>Locking\<close>

definition db_server_attempt_lock :: "DBServer \<Rightarrow> DBServerQueryKind \<Rightarrow> DBServer \<times> bool" where
  "db_server_attempt_lock server query_kind =
     (let (l, ok) =
        (if query_kind = DB_SERVER_QUERY_KIND_WRITE then platform_rwlock_try_write_lock (db_lock server)
         else platform_rwlock_try_read_lock (db_lock server))
      in (server\<lparr>db_lock := l\<rparr>, ok))"

definition db_server_lock_expired :: "DBServer \<Rightarrow> 64 word \<Rightarrow> 64 word \<Rightarrow> bool" where
  "db_server_lock_expired server start_time now =
     (0 < lock_timeout_ms (config server) \<and> ucast (lock_timeout_ms (config server)) \<le> now - start_time)"

text \<open>
  The loop of \<^verbatim>\<open>db_server_try_acquire_lock\<close>: \<open>clock i\<close> is the \<open>i\<close>-th reading of the millisecond clock, and
  \<open>others i\<close> is what the other threads do to the lock during the sleep that follows it.
\<close>

partial_function (option) db_server_acquire_from ::
  "DBServer \<Rightarrow> DBServerQueryKind \<Rightarrow> 64 word \<Rightarrow> (nat \<Rightarrow> 64 word) \<Rightarrow> (nat \<Rightarrow> PlatformRWLock \<Rightarrow> PlatformRWLock) \<Rightarrow>
   nat \<Rightarrow> (DBServer \<times> bool) option" where
  "db_server_acquire_from server query_kind start_time clock others i =
     (case db_server_attempt_lock server query_kind of (server', ok) \<Rightarrow>
      if ok then Some (server', True)
      else if db_server_lock_expired server' start_time (clock i) then Some (server', False)
      else db_server_acquire_from (server'\<lparr>db_lock := others i (db_lock server')\<rparr>) query_kind start_time clock others (Suc i))"

definition db_server_try_acquire_lock ::
  "DBServer \<Rightarrow> DBServerQueryKind \<Rightarrow> (nat \<Rightarrow> 64 word) \<Rightarrow> (nat \<Rightarrow> PlatformRWLock \<Rightarrow> PlatformRWLock) \<Rightarrow>
   (DBServer \<times> bool) option" where
  "db_server_try_acquire_lock server query_kind clock others =
     (if query_kind = DB_SERVER_QUERY_KIND_NONE then Some (server, True)
      else db_server_acquire_from server query_kind (clock 0) clock others 1)"

definition db_server_release_lock :: "DBServer \<Rightarrow> DBServerQueryKind \<Rightarrow> DBServer" where
  "db_server_release_lock server query_kind =
     (if query_kind = DB_SERVER_QUERY_KIND_WRITE then server\<lparr>db_lock := platform_rwlock_write_unlock (db_lock server)\<rparr>
      else if query_kind = DB_SERVER_QUERY_KIND_READ then server\<lparr>db_lock := platform_rwlock_read_unlock (db_lock server)\<rparr>
      else server)"

section \<open>Metrics\<close>

definition zero_metrics :: DBServerMetrics where
  "zero_metrics = \<lparr>total_requests = 0, total_health_requests = 0, total_metrics_requests = 0, total_query_requests = 0,
     total_select_requests = 0, total_insert_requests = 0, total_errors = 0, total_syntax_errors = 0,
     total_query_errors = 0, total_internal_errors = 0, total_not_found_results = 0, total_queue_full = 0,
     total_lock_timeouts = 0, active_query_requests = 0\<rparr>"

definition db_server_metrics_query_started :: "DBServer \<Rightarrow> DBServerQueryKind \<Rightarrow> DBServer" where
  "db_server_metrics_query_started server query_kind =
     (let mt = metrics server;
          mt = mt\<lparr>total_requests := total_requests mt + 1, total_query_requests := total_query_requests mt + 1,
                 active_query_requests := active_query_requests mt + 1\<rparr>;
          mt = (if query_kind = DB_SERVER_QUERY_KIND_WRITE then mt\<lparr>total_insert_requests := total_insert_requests mt + 1\<rparr>
                else if query_kind = DB_SERVER_QUERY_KIND_READ then mt\<lparr>total_select_requests := total_select_requests mt + 1\<rparr>
                else mt)
      in server\<lparr>metrics := mt\<rparr>)"

definition db_server_metrics_query_finished :: "DBServer \<Rightarrow> DBServerExecution \<Rightarrow> DBServer" where
  "db_server_metrics_query_finished server execution =
     (let mt = metrics server;
          mt = (if 0 < active_query_requests mt then mt\<lparr>active_query_requests := active_query_requests mt - 1\<rparr> else mt);
          st = status (ex_result execution);
          mt = (if server_status execution = DB_SERVER_EXEC_STATUS_LOCK_TIMEOUT then
                  mt\<lparr>total_errors := total_errors mt + 1, total_lock_timeouts := total_lock_timeouts mt + 1\<rparr>
                else if st = SQL_STATUS_NOT_FOUND then
                  mt\<lparr>total_not_found_results := total_not_found_results mt + 1\<rparr>
                else if st = SQL_STATUS_SYNTAX_ERROR then
                  mt\<lparr>total_errors := total_errors mt + 1, total_syntax_errors := total_syntax_errors mt + 1\<rparr>
                else if st = SQL_STATUS_QUERY_ERROR \<or> st = SQL_STATUS_EXIT then
                  mt\<lparr>total_errors := total_errors mt + 1, total_query_errors := total_query_errors mt + 1\<rparr>
                else if st = SQL_STATUS_ERROR then
                  mt\<lparr>total_errors := total_errors mt + 1, total_internal_errors := total_internal_errors mt + 1\<rparr>
                else mt)
      in server\<lparr>metrics := mt\<rparr>)"

definition db_server_get_metrics :: "DBServer \<Rightarrow> DBServerMetrics" where
  "db_server_get_metrics server = metrics server"

definition db_server_record_health_request :: "DBServer \<Rightarrow> DBServer" where
  "db_server_record_health_request server =
     server\<lparr>metrics := (metrics server)\<lparr>total_requests := total_requests (metrics server) + 1,
       total_health_requests := total_health_requests (metrics server) + 1\<rparr>\<rparr>"

definition db_server_record_metrics_request :: "DBServer \<Rightarrow> DBServer" where
  "db_server_record_metrics_request server =
     server\<lparr>metrics := (metrics server)\<lparr>total_requests := total_requests (metrics server) + 1,
       total_metrics_requests := total_metrics_requests (metrics server) + 1\<rparr>\<rparr>"

definition db_server_record_queue_full :: "DBServer \<Rightarrow> DBServer" where
  "db_server_record_queue_full server =
     server\<lparr>metrics := (metrics server)\<lparr>total_requests := total_requests (metrics server) + 1,
       total_errors := total_errors (metrics server) + 1, total_queue_full := total_queue_full (metrics server) + 1\<rparr>\<rparr>"

section \<open>Life cycle and execution\<close>

definition db_server_config_default :: DBServerConfig where
  "db_server_config_default = \<lparr>lock_timeout_ms = 1000, simulate_read_delay_ms = 0, simulate_write_delay_ms = 0\<rparr>"

text \<open>\<open>lock_ok\<close> and \<open>mutex_ok\<close> tell whether the lock and the mutex could be initialised.\<close>

definition db_server_init_with_config ::
  "'a db_mem_scheme \<Rightarrow> DBServerConfig option \<Rightarrow> bool \<Rightarrow> bool \<Rightarrow> 'a db_mem_scheme \<times> DBServer option" where
  "db_server_init_with_config m cfg lock_ok mutex_ok =
     (let server = \<lparr>srv_table = None, db_lock = platform_rwlock_init,
            config = (case cfg of None \<Rightarrow> db_server_config_default | Some c \<Rightarrow> c), metrics = zero_metrics\<rparr>
      in if \<not> lock_ok then (m, None)
         else if \<not> mutex_ok then (m, None)
         else
           let (m, table) = table_create m
           in if table = None then (m, None) else (m, Some (server\<lparr>srv_table := table\<rparr>)))"

definition db_server_init ::
  "'a db_mem_scheme \<Rightarrow> bool \<Rightarrow> bool \<Rightarrow> 'a db_mem_scheme \<times> DBServer option" where
  "db_server_init m lock_ok mutex_ok = db_server_init_with_config m (Some db_server_config_default) lock_ok mutex_ok"

definition db_server_destroy :: "'a db_mem_scheme \<Rightarrow> DBServer \<Rightarrow> ('a db_mem_scheme \<times> DBServer) option" where
  "db_server_destroy m server =
     (if srv_table server \<noteq> None then do {
        m \<leftarrow> table_destroy m (srv_table server);
        Some (m, server\<lparr>srv_table := None\<rparr>)
      } else Some (m, server))"

definition lock_timeout_execution :: "DBServerExecution \<Rightarrow> DBServerExecution" where
  "lock_timeout_execution execution =
     execution\<lparr>server_status := DB_SERVER_EXEC_STATUS_LOCK_TIMEOUT,
       ex_result := (ex_result execution)\<lparr>status := SQL_STATUS_ERROR, action := SQL_ACTION_NONE\<rparr>,
       message := snprintf 128 ''Lock wait timeout exceeded''\<rparr>"

definition db_server_begin :: "string \<Rightarrow> DBServerExecution" where
  "db_server_begin query =
     db_server_zero_execution\<lparr>used_index := db_server_guess_uses_index (Some query),
       is_write := (db_server_classify_query (Some query) = DB_SERVER_QUERY_KIND_WRITE)\<rparr>"

definition db_server_run ::
  "'a db_mem_scheme \<Rightarrow> DBServer \<Rightarrow> string \<Rightarrow> DBServerExecution \<Rightarrow>
   ('a db_mem_scheme \<times> DBServer \<times> DBServerExecution) option" where
  "db_server_run m server query execution = do {
     (m, table, result) \<leftarrow> sql_execute m (srv_table server) (Some query);
     Some (m, server\<lparr>srv_table := table\<rparr>,
           execution\<lparr>ex_result := result, server_status := DB_SERVER_EXEC_STATUS_OK, message := snprintf 128 ''OK''\<rparr>)
   }"

text \<open>
  \<^verbatim>\<open>db_server_execute\<close> of one thread while no other thread acts; \<open>None\<close> in the last component is the
  return value 0, with the execution record left alone. The interleaving with other threads is the subject
  of the step relation below.
\<close>

definition db_server_execute ::
  "'a db_mem_scheme \<Rightarrow> DBServer \<Rightarrow> string option \<Rightarrow> (nat \<Rightarrow> 64 word) \<Rightarrow>
   ('a db_mem_scheme \<times> DBServer \<times> DBServerExecution option) option" where
  "db_server_execute m server query clock =
     (case (srv_table server, query) of
        (Some _, Some q) \<Rightarrow>
          let execution = db_server_begin q;
              query_kind = db_server_classify_query query;
              server = db_server_metrics_query_started server query_kind
          in do {
            (server, acquired) \<leftarrow> db_server_try_acquire_lock server query_kind clock (\<lambda>_ l. l);
            if \<not> acquired then
              (let execution = lock_timeout_execution execution
               in Some (m, db_server_metrics_query_finished server execution, Some execution))
            else do {
              (m, server, execution) \<leftarrow> db_server_run m server q execution;
              (let server = db_server_release_lock server query_kind
               in Some (m, db_server_metrics_query_finished server execution, Some execution))
            }
          }
      | _ \<Rightarrow> Some (m, server, None))"

definition db_server_execution_destroy :: "DBServerExecution \<Rightarrow> DBServerExecution" where
  "db_server_execution_destroy execution = db_server_zero_execution"

declare db_server_acquire_from.simps [code]

end
