(* ===== verification/DbServer_Props.thy ===== *)
theory DbServer_Props
  imports DbServer
begin

text \<open>
  The database server of one thread: its copies of the token functions agree with those of the SQL
  front end, the classification of a query is right about what it will do to the table, the guess about the
  index is right for every accepted query, the wait for the lock ends, and an execution has the outcome of
  the statement.
\<close>

section \<open>Token functions\<close>

lemma skip_spaces_eq: "db_server_skip_spaces s = sql_skip_spaces s"
  by (induction s) (auto simp: sql_skip_spaces_def)

lemma match_word_eq: "db_server_match_word s w = sql_match_word s w"
  by (induction s w rule: sql_match_word.induct) auto

lemma match_keyword_eq: "db_server_match_keyword s w = sql_match_keyword s w"
  by (auto simp: db_server_match_keyword_def sql_match_keyword_def match_word_eq is_ident_def split: option.splits)

lemma parse_identifier_same: "1 < n \<Longrightarrow> db_server_parse_identifier s n = sql_parse_identifier s n"
proof -
  assume n: "1 < n"
  define cur where "cur = sql_skip_spaces s"
  have "length (snd (sql_ident_copy cur [] n)) \<noteq> 0" if "isalpha (peek cur) \<or> peek cur = CHR ''_''"
  proof -
    have "is_ident (peek cur)" using that alpha_ident by (auto simp: is_ident_def)
    then have "takeWhile is_ident cur \<noteq> []" "cur \<noteq> []" by (cases cur; auto)+
    then show ?thesis using ident_copy [of "[]" n cur] n by simp
  qed
  then show ?thesis
    by (auto simp: db_server_parse_identifier_def sql_parse_identifier_def skip_spaces_eq cur_def Let_def split: prod.splits)
qed

lemma identifier_equals_iff: "db_server_identifier_equals a b \<longleftrightarrow> keyword a b"
  by (induction a b rule: db_server_identifier_equals.induct) (auto simp: keyword_def)

section \<open>Classification\<close>

lemma keyword_first_lower:
  assumes "fst (sql_match_keyword s (k # ks))"
  shows "tolower (peek s) = tolower k \<and> s \<noteq> []"
  using keyword_first [of s k ks "snd (sql_match_keyword s (k # ks))"] assms by (metis prod.collapse)

lemma parse_insert_keyword: "\<not> fst (sql_match_keyword s ''INSERT'') \<Longrightarrow> sql_parse_insert s = Inl NotThisStatement"
  by (cases "sql_match_keyword s ''INSERT''") (simp add: sql_parse_insert_def)

lemma parse_select_keyword: "\<not> fst (sql_match_keyword s ''SELECT'') \<Longrightarrow> sql_parse_select s = Inl NotThisStatement"
  by (cases "sql_match_keyword s ''SELECT''") (simp add: sql_parse_select_def)

lemma keyword_at_start:
  assumes "fst (sql_match_keyword s (k # ks))" "islower (tolower k)"
  shows "sql_skip_spaces s = s"
proof -
  have "tolower (peek s) = tolower k" using keyword_first_lower [OF assms(1)] by simp
  then have "\<not> isspace (peek s)" using assms(2) tolower_alpha [of "peek s"] alpha_ident space_not_ident by metis
  then show ?thesis using skip_iff [of s s] by auto
qed

lemma classify_simps:
  "db_server_classify_query (Some q) =
     (if fst (sql_match_keyword (sql_skip_spaces (cstr q)) ''SELECT'') then DB_SERVER_QUERY_KIND_READ
      else if fst (sql_match_keyword (sql_skip_spaces (cstr q)) ''INSERT'') then DB_SERVER_QUERY_KIND_WRITE
      else DB_SERVER_QUERY_KIND_NONE)"
  by (simp add: db_server_classify_query_def skip_spaces_eq match_keyword_eq Let_def)

lemma lower_S: "islower (tolower (CHR ''S''))"
  by (simp add: tolower_def islower_def isupper_def code_of_def)

lemma classify_insert:
  assumes "fst (sql_match_keyword (cstr q) ''INSERT'')"
  shows "db_server_classify_query (Some q) = DB_SERVER_QUERY_KIND_WRITE"
proof -
  have "sql_skip_spaces (cstr q) = cstr q" using keyword_at_start [OF assms lower_heads(1)] .
  moreover have "\<not> fst (sql_match_keyword (cstr q) ''SELECT'')"
    using keyword_first_lower [OF assms] keyword_first_lower [of "cstr q" "CHR ''S''" "''ELECT''"] by (auto simp: lower_consts)
  ultimately show ?thesis using assms by (simp add: classify_simps)
qed

lemma classify_select:
  assumes "fst (sql_match_keyword (cstr q) ''SELECT'')"
  shows "db_server_classify_query (Some q) = DB_SERVER_QUERY_KIND_READ"
  using keyword_at_start [OF assms lower_S] assms by (simp add: classify_simps)

lemma statement_kind:
  "statement_of (cstr q) = InsertStatement name age \<Longrightarrow> db_server_classify_query (Some q) = DB_SERVER_QUERY_KIND_WRITE"
  "statement_of (cstr q) = SelectStatement sel \<Longrightarrow> db_server_classify_query (Some q) = DB_SERVER_QUERY_KIND_READ"
proof -
  assume "statement_of (cstr q) = InsertStatement name age"
  then have "sql_parse_insert (cstr q) \<noteq> Inl NotThisStatement" by (auto simp: statement_of_def split: if_splits sum.splits)
  then show "db_server_classify_query (Some q) = DB_SERVER_QUERY_KIND_WRITE"
    using parse_insert_keyword classify_insert by blast
next
  assume "statement_of (cstr q) = SelectStatement sel"
  then have "sql_parse_select (cstr q) \<noteq> Inl NotThisStatement" by (auto simp: statement_of_def split: if_splits sum.splits)
  then show "db_server_classify_query (Some q) = DB_SERVER_QUERY_KIND_READ"
    using parse_select_keyword classify_select by blast
qed

text \<open>A query without a lock is answered from its text alone.\<close>

definition text_result :: "string \<Rightarrow> SQLResult" where
  "text_result text =
     (let result = sql_make_result SQL_STATUS_SYNTAX_ERROR SQL_ACTION_NONE;
          cursor = sql_skip_spaces text
      in case sql_match_exit cursor of (ok, cursor) \<Rightarrow>
         if ok then
           (case sql_match_statement_end cursor of (ok, cursor) \<Rightarrow>
            if ok then result\<lparr>status := SQL_STATUS_EXIT\<rparr> else sql_set_syntax_error result cursor)
         else sql_set_syntax_error result cursor)"

lemma execute_kind_none:
  assumes "db_server_classify_query (Some q) = DB_SERVER_QUERY_KIND_NONE"
  shows "sql_execute m (Some t) (Some q) = Some (m, Some t, text_result (cstr q))"
proof -
  have "\<not> fst (sql_match_keyword (cstr q) ''INSERT'')" "\<not> fst (sql_match_keyword (cstr q) ''SELECT'')"
    using assms classify_insert [of q] classify_select [of q] by auto
  then have "sql_parse_insert (cstr q) = Inl NotThisStatement" "sql_parse_select (cstr q) = Inl NotThisStatement"
    using parse_insert_keyword parse_select_keyword by blast+
  then show ?thesis
    by (auto simp: sql_execute_def text_result_def sql_execute_insert_def sql_execute_select_def sql_report_def
        sql_make_result_def Let_def split: prod.splits)
qed

section \<open>The guess about the index\<close>

definition no_w :: "string \<Rightarrow> bool" where
  "no_w s \<longleftrightarrow> (\<forall>c \<in> set s. tolower c \<noteq> CHR ''w'')"

lemma no_w_append [simp]: "no_w (s @ t) \<longleftrightarrow> no_w s \<and> no_w t"
  by (auto simp: no_w_def)

lemma lower_W: "tolower (CHR ''W'') = CHR ''w''"
  by code_simp

lemma scan_where_skip: "no_w p \<Longrightarrow> db_server_scan_where (p @ s) = db_server_scan_where s"
proof (induction p)
  case (Cons c p)
  have "\<not> fst (sql_match_keyword ((c # p) @ s) ''WHERE'')"
    using keyword_first_lower [of "(c # p) @ s" "CHR ''W''" "''HERE''"] Cons.prems by (auto simp: lower_W no_w_def)
  then show ?case using Cons by (cases "sql_match_keyword (c # p @ s) ''WHERE''") (auto simp: match_keyword_eq no_w_def)
qed simp

lemma spaces_no_w: "spaces ws \<Longrightarrow> no_w ws"
  by (induction ws) (auto simp: no_w_def isspace_def tolower_def isupper_def code_of_def)

lemma keyword_no_w: "keyword w kw \<Longrightarrow> no_w kw \<Longrightarrow> no_w w"
proof -
  assume "keyword w kw" "no_w kw"
  then have "CHR ''w'' \<notin> set (map tolower w)" by (auto simp: keyword_def no_w_def)
  then show "no_w w" unfolding no_w_def by force
qed

lemma statement_end_no_w: "statement_end e \<Longrightarrow> no_w e"
  using spaces_no_w by (fastforce simp: statement_end_def no_w_def tolower_def isupper_def code_of_def)

definition by_id :: "sql_query \<Rightarrow> bool" where
  "by_id q = (case q of SelectById _ _ \<Rightarrow> True | _ \<Rightarrow> False)"

lemma where_operand_by_id: "where_operand q col c t \<Longrightarrow> keyword col ''id'' \<longleftrightarrow> by_id q"
  using keyword_distinct(1,2) [of col] by (cases q) (auto simp: by_id_def)

lemma scan_where_form:
  assumes "where_form s q" "NUL \<notin> set s"
  shows "db_server_scan_where s = by_id q"
proof -
  have "sql_parse_where s = Inr q" using parse_where_iff [OF assms(2)] assms(1) by simp
  then obtain c1 c2 col c3 c where st: "sql_match_keyword s ''WHERE'' = (True, c1)" "sql_parse_identifier c1 32 = (c2, Some col)"
    "where_rest col c c3 q" unfolding parse_where_steps by blast
  have "s \<noteq> []" using keyword_first_lower [of s "CHR ''W''" "''HERE''"] st(1) by auto
  moreover have "keyword col ''id'' \<longleftrightarrow> by_id q"
    using st(3) keyword_distinct(1,2) [of col] by (cases q) (auto simp: where_rest_def by_id_def)
  ultimately show ?thesis using st(1,2) parse_identifier_same [of 32 c1]
    by (cases s) (simp_all add: match_keyword_eq identifier_equals_iff)
qed

lemma no_w_words: "no_w ''*''" "no_w ''FROM''" "no_w ''users''"
  by code_simp+

lemma guess_select:
  assumes "select_form s q" "NUL \<notin> set s"
  shows "db_server_guess_uses_index (Some s) = by_id q"
proof -
  obtain k1 w1 w2 k2 w3 tb x u where f: "s = k1 @ w1 @ ''*'' @ w2 @ k2 @ w3 @ tb @ x @ u"
    "keyword k1 ''SELECT''" "keyword k2 ''FROM''" "keyword tb ''users''" "spaces w1" "spaces w2" "spaces w3"
    "statement_end x" "if q = SelectAll then u = [] else x \<noteq> [] \<and> where_form u q"
    using assms(1) unfolding select_form_def spaces_simps by blast
  let ?p = "w1 @ ''*'' @ w2 @ k2 @ w3 @ tb @ x"
  have "\<not> is_ident (peek (?p @ u))" using punct_class(7) spaces_peek [OF f(5)] by (cases w1) auto
  then have k: "sql_match_keyword s ''SELECT'' = (True, ?p @ u)"
    unfolding match_keyword_iff using f(1,2) by (auto simp: keyword_def)
  then have "sql_skip_spaces s = s" using keyword_at_start [OF _ lower_S, of s "''ELECT''"] by simp
  then have "db_server_guess_uses_index (Some s) = db_server_scan_where (?p @ u)"
    using k cstr_no_NUL [OF assms(2)] by (simp add: db_server_guess_uses_index_def skip_spaces_eq match_keyword_eq)
  also have "\<dots> = db_server_scan_where u"
    using keyword_no_w [OF f(3)] keyword_no_w [OF f(4)] no_w_words spaces_no_w [OF f(5)] spaces_no_w [OF f(6)]
      spaces_no_w [OF f(7)] statement_end_no_w [OF f(8)] no_w_append by (intro scan_where_skip) presburger
  also have "\<dots> = by_id q"
    using f(9) scan_where_form [of u q] assms(2) f(1) by (auto simp: by_id_def split: if_splits)
  finally show ?thesis .
qed

section \<open>Waiting for the lock\<close>

lemma attempt_keeps:
  assumes "db_server_attempt_lock server k = (server', ok)"
  shows "config server' = config server" "srv_table server' = srv_table server" "metrics server' = metrics server"
    "server' = server\<lparr>db_lock := db_lock server'\<rparr>"
  using assms by (auto simp: db_server_attempt_lock_def Let_def split: prod.splits)

lemma expired_config: "config server' = config server \<Longrightarrow> db_server_lock_expired server' = db_server_lock_expired server"
  by (intro ext) (simp add: db_server_lock_expired_def)

lemma acquire_ends:
  assumes "db_server_lock_expired server st (clock n)" "i \<le> n"
  shows "\<exists>r. db_server_acquire_from server k st clock others i = Some r"
  using assms
proof (induction "n - i" arbitrary: server i)
  case 0
  obtain s' ok where a: "db_server_attempt_lock server k = (s', ok)" by (cases "db_server_attempt_lock server k")
  have "db_server_lock_expired s' st (clock i)" using 0 expired_config [OF attempt_keeps(1) [OF a]] by simp
  then show ?case using a by (subst db_server_acquire_from.simps) (cases ok, auto)
next
  case (Suc d)
  obtain s' ok where a: "db_server_attempt_lock server k = (s', ok)" by (cases "db_server_attempt_lock server k")
  let ?s = "s'\<lparr>db_lock := others i (db_lock s')\<rparr>"
  have "db_server_lock_expired ?s st (clock n)"
    using Suc.prems(1) expired_config [of ?s server] attempt_keeps(1) [OF a] by simp
  moreover have "d = n - Suc i" "Suc i \<le> n" using Suc.hyps(2) by auto
  ultimately obtain r where "db_server_acquire_from ?s k st clock others (Suc i) = Some r" using Suc.hyps(1) by blast
  then show ?case using a by (subst db_server_acquire_from.simps) (cases ok, auto)
qed

lemma acquire_timeout:
  assumes "db_server_acquire_from server k st clock others i = Some (server', False)"
  shows "\<exists>j \<ge> i. db_server_lock_expired server st (clock j)"
proof -
  have "\<not> snd r \<longrightarrow> (\<exists>j \<ge> i. db_server_lock_expired server st (clock j))"
    if "db_server_acquire_from server k st clock others i = Some r" for r
  proof (rule db_server_acquire_from.raw_induct [where P = "\<lambda>server k st clock others i r.
      \<not> snd r \<longrightarrow> (\<exists>j \<ge> i. db_server_lock_expired server st (clock j))", OF _ that], goal_cases)
    case (1 f server k st clock others i r)
    obtain s' ok where a: "db_server_attempt_lock server k = (s', ok)" by (cases "db_server_attempt_lock server k")
    note e = expired_config [OF attempt_keeps(1) [OF a]]
    let ?s = "s'\<lparr>db_lock := others i (db_lock s')\<rparr>"
    show ?case
    proof (cases "ok \<or> db_server_lock_expired s' st (clock i)")
      case True
      then show ?thesis using 1(2) a e by auto
    next
      case False
      then have "f ?s k st clock others (Suc i) = Some r" using 1(2) a by simp
      then have "\<not> snd r \<longrightarrow> (\<exists>j \<ge> Suc i. db_server_lock_expired ?s st (clock j))" by (rule 1(1))
      then show ?thesis using e expired_config [of ?s s'] by (auto intro: Suc_leD)
    qed
  qed
  from this [OF assms] show ?thesis by simp
qed

lemma acquire_ok:
  assumes "db_server_acquire_from server k st clock others i = Some (server', ok)"
  shows "server' = server\<lparr>db_lock := db_lock server'\<rparr> \<and>
    (ok \<longrightarrow> (\<exists>l. (if k = DB_SERVER_QUERY_KIND_WRITE then platform_rwlock_try_write_lock l else platform_rwlock_try_read_lock l) =
      (db_lock server', True)))"
proof -
  have "fst r = server\<lparr>db_lock := db_lock (fst r)\<rparr> \<and>
    (snd r \<longrightarrow> (\<exists>l. (if k = DB_SERVER_QUERY_KIND_WRITE then platform_rwlock_try_write_lock l else platform_rwlock_try_read_lock l) =
      (db_lock (fst r), True)))"
    if "db_server_acquire_from server k st clock others i = Some r" for r
  proof (rule db_server_acquire_from.raw_induct [where P = "\<lambda>server k st clock others i r.
      fst r = server\<lparr>db_lock := db_lock (fst r)\<rparr> \<and>
      (snd r \<longrightarrow> (\<exists>l. (if k = DB_SERVER_QUERY_KIND_WRITE then platform_rwlock_try_write_lock l else platform_rwlock_try_read_lock l) =
        (db_lock (fst r), True)))", OF _ that], goal_cases)
    case (1 f server k st clock others i r)
    obtain s' ok where a: "db_server_attempt_lock server k = (s', ok)" by (cases "db_server_attempt_lock server k")
    have s': "s' = server\<lparr>db_lock := db_lock s'\<rparr>" by (rule attempt_keeps(4) [OF a])
    let ?s = "s'\<lparr>db_lock := others i (db_lock s')\<rparr>"
    show ?case
    proof (cases "ok \<or> db_server_lock_expired s' st (clock i)")
      case True
      then have "r = (s', ok)" using 1(2) a by (cases ok) simp_all
      then show ?thesis using s' a
        by (auto simp: db_server_attempt_lock_def Let_def split: prod.splits if_splits intro!: exI [of _ "db_lock server"])
    next
      case False
      then have "f ?s k st clock others (Suc i) = Some r" using 1(2) a by simp
      from 1(1) [OF this] have r: "fst r = ?s\<lparr>db_lock := db_lock (fst r)\<rparr>" and l: "snd r \<longrightarrow>
        (\<exists>l. (if k = DB_SERVER_QUERY_KIND_WRITE then platform_rwlock_try_write_lock l else platform_rwlock_try_read_lock l) =
          (db_lock (fst r), True))" by auto
      obtain l where "s' = server\<lparr>db_lock := l\<rparr>" using s' by blast
      then have "?s\<lparr>db_lock := db_lock (fst r)\<rparr> = server\<lparr>db_lock := db_lock (fst r)\<rparr>" by simp
      then show ?thesis using r l by metis
    qed
  qed
  from this [OF assms] show ?thesis by simp
qed

lemma acquire_busy:
  assumes "db_server_attempt_lock server k = (server, False)" "db_server_lock_expired server st (clock n)" "i \<le> n"
  shows "db_server_acquire_from server k st clock (\<lambda>_ l. l) i = Some (server, False)"
  using assms(3)
proof (induction "n - i" arbitrary: i)
  case 0
  then show ?case using assms(1,2) by (subst db_server_acquire_from.simps) simp
next
  case (Suc d)
  then have "db_server_acquire_from server k st clock (\<lambda>_ l. l) (Suc i) = Some (server, False)" by auto
  then show ?case using assms(1) by (subst db_server_acquire_from.simps) simp
qed

section \<open>Executing a query\<close>

lemma started_keeps [simp]:
  "srv_table (db_server_metrics_query_started server k) = srv_table server"
  "db_lock (db_server_metrics_query_started server k) = db_lock server"
  "config (db_server_metrics_query_started server k) = config server"
  by (simp_all add: db_server_metrics_query_started_def Let_def)

lemma finished_keeps [simp]:
  "srv_table (db_server_metrics_query_finished server ex) = srv_table server"
  "db_lock (db_server_metrics_query_finished server ex) = db_lock server"
  "config (db_server_metrics_query_finished server ex) = config server"
  by (simp_all add: db_server_metrics_query_finished_def Let_def)

lemma release_keeps [simp]:
  "srv_table (db_server_release_lock server k) = srv_table server"
  "config (db_server_release_lock server k) = config server"
  "metrics (db_server_release_lock server k) = metrics server"
  by (simp_all add: db_server_release_lock_def)

text \<open>The lock of the server held by \<open>r\<close> readers and \<open>w\<close> writers, and what each kind of query adds.\<close>

definition read_holds :: "DBServerQueryKind \<Rightarrow> nat" where
  "read_holds k = (if k = DB_SERVER_QUERY_KIND_READ then 1 else 0)"

definition write_holds :: "DBServerQueryKind \<Rightarrow> nat" where
  "write_holds k = (if k = DB_SERVER_QUERY_KIND_WRITE then 1 else 0)"

lemma attempt_ok:
  assumes "rwlock_held (db_lock server) r w" "db_server_attempt_lock server k = (server', True)" "k \<noteq> DB_SERVER_QUERY_KIND_NONE"
  shows "rwlock_held (db_lock server') (r + read_holds k) (w + write_holds k) \<and> w = 0 \<and> (write_holds k = 0 \<or> r = 0)"
  using assms db.try_read_ok [OF assms(1)] db.try_write_ok [OF assms(1)]
  by (cases k) (auto simp: db_server_attempt_lock_def Let_def read_holds_def write_holds_def split: prod.splits)

lemma attempt_fail:
  assumes "rwlock_held (db_lock server) r w" "db_server_attempt_lock server k = (server', False)"
  shows "server' = server \<and> (0 < w \<or> k = DB_SERVER_QUERY_KIND_WRITE \<and> 0 < r)"
  using assms db.try_read_fail [OF assms(1)] db.try_write_fail [OF assms(1)]
  by (auto simp: db_server_attempt_lock_def Let_def split: prod.splits if_splits)

lemma release_held:
  assumes "rwlock_held (db_lock server) (r + read_holds k) (w + write_holds k)"
  shows "rwlock_held (db_lock (db_server_release_lock server k)) r w"
  using assms db.read_unlock_held [of "db_lock server" r w] db.write_unlock_held [of "db_lock server" r w] db.held_exclusive [OF assms]
  by (cases k) (auto simp: db_server_release_lock_def read_holds_def write_holds_def)

lemma acquire_free:
  assumes "rwlock_held (db_lock server) 0 0"
  obtains l where "db_server_try_acquire_lock server k clock others = Some (server\<lparr>db_lock := l\<rparr>, True)"
    "rwlock_held l (read_holds k) (write_holds k)"
proof (cases "k = DB_SERVER_QUERY_KIND_NONE")
  case True
  then show ?thesis using that [of "db_lock server"] assms
    by (simp add: db_server_try_acquire_lock_def read_holds_def write_holds_def)
next
  case False
  obtain s' ok where a: "db_server_attempt_lock server k = (s', ok)" by (cases "db_server_attempt_lock server k")
  then have ok: "ok" using attempt_fail [OF assms] by (cases ok) auto
  then have "rwlock_held (db_lock s') (read_holds k) (write_holds k)" using attempt_ok [OF assms _ False] a by auto
  moreover have "db_server_acquire_from server k (clock 0) clock others 1 = Some (s', True)"
    using a ok by (subst db_server_acquire_from.simps) simp
  ultimately show ?thesis using that [of "db_lock s'"] attempt_keeps(4) [OF a] False
    by (simp add: db_server_try_acquire_lock_def)
qed

lemma execute_free:
  assumes "srv_table server = Some t" "rwlock_held (db_lock server) 0 0"
    "sql_execute m (Some t) (Some q) = Some (m', t', r)"
  shows "\<exists>server'. db_server_execute m server (Some q) clock = Some (m', server', Some ((db_server_begin q)
      \<lparr>ex_result := r, server_status := DB_SERVER_EXEC_STATUS_OK, message := snprintf 128 ''OK''\<rparr>)) \<and>
    srv_table server' = t' \<and> rwlock_held (db_lock server') 0 0 \<and> config server' = config server"
proof -
  define k where "k = db_server_classify_query (Some q)"
  let ?s = "db_server_metrics_query_started server k"
  obtain l where l: "db_server_try_acquire_lock ?s k clock (\<lambda>_ l. l) = Some (?s\<lparr>db_lock := l\<rparr>, True)"
    "rwlock_held l (read_holds k) (write_holds k)"
    using acquire_free [of ?s k clock] assms(2) by auto
  let ?r = "db_server_release_lock (?s\<lparr>db_lock := l, srv_table := t'\<rparr>) k"
  have "rwlock_held (db_lock ?r) 0 0" using release_held [of "?s\<lparr>db_lock := l, srv_table := t'\<rparr>" 0 k 0] l(2) by simp
  moreover have "?s\<lparr>db_lock := l\<rparr>\<lparr>srv_table := t'\<rparr> = ?s\<lparr>db_lock := l, srv_table := t'\<rparr>" by simp
  ultimately show ?thesis using assms l(1) unfolding k_def
    by (simp add: db_server_execute_def db_server_run_def Let_def)
qed

lemma execute_busy:
  assumes "srv_table server = Some t" "rwlock_held (db_lock server) r w" "k = db_server_classify_query (Some q)"
    "k = DB_SERVER_QUERY_KIND_READ \<and> 0 < w \<or> k = DB_SERVER_QUERY_KIND_WRITE \<and> 0 < r + w"
    "db_server_lock_expired server (clock 0) (clock (Suc n))"
  shows "db_server_execute m server (Some q) clock =
    Some (m, db_server_metrics_query_finished (db_server_metrics_query_started server k) (lock_timeout_execution (db_server_begin q)),
          Some (lock_timeout_execution (db_server_begin q)))"
proof -
  let ?s = "db_server_metrics_query_started server k"
  obtain s' ok where a: "db_server_attempt_lock ?s k = (s', ok)" by (cases "db_server_attempt_lock ?s k")
  have h: "rwlock_held (db_lock ?s) r w" using assms(2) by simp
  have "\<not> ok" using attempt_ok [OF h, of k s'] a assms(4) by (auto simp: write_holds_def)
  then have "db_server_attempt_lock ?s k = (?s, False)" using attempt_fail [OF h] a by auto
  moreover have "db_server_lock_expired ?s (clock 0) (clock (Suc n))" using assms(5) expired_config [of ?s server] by simp
  ultimately have "db_server_acquire_from ?s k (clock 0) clock (\<lambda>_ l. l) 1 = Some (?s, False)" using acquire_busy by auto
  then show ?thesis using assms(1,3,4)
    by (auto simp: db_server_execute_def db_server_try_acquire_lock_def Let_def)
qed

lemma outcome_reads:
  assumes "sql_outcome m t ps rs st m' t' r" "\<forall>name age. st \<noteq> InsertStatement name age"
  shows "t' = t \<and> quiet m m'"
  using assms by (cases st) (auto simp: sql_outcome_def)

lemma execute_read:
  assumes "db_server_classify_query (Some q) \<noteq> DB_SERVER_QUERY_KIND_WRITE" "table_rep m t ps rs" "live_mem m"
  shows "\<exists>m' r. sql_execute m (Some t) (Some q) = Some (m', Some t, r) \<and> quiet m m' \<and> live_mem m' \<and>
    sql_outcome m t ps rs (statement_of (cstr q)) m' t r"
proof -
  have ni: "\<forall>name age. statement_of (cstr q) \<noteq> InsertStatement name age"
    using assms(1) statement_kind(1) [of q] by blast
  then obtain m' t' r where "sql_execute m (Some t) (Some q) = Some (m', Some t', r)" "live_mem m'"
    "sql_outcome m t ps rs (statement_of (cstr q)) m' t' r"
    using execute_outcome [OF assms(2,3)] by blast
  moreover from this(3) have "t' = t \<and> quiet m m'" using outcome_reads ni by blast
  ultimately show ?thesis by blast
qed

definition server1 :: "PlatformRWLock \<Rightarrow> DBServer" where
  "server1 l = \<lparr>srv_table = Some db1_table, db_lock = l, config = db_server_config_default\<lparr>lock_timeout_ms := 5\<rparr>, metrics = zero_metrics\<rparr>"

text \<open>The flag for the index is only set for a query that is classified as reading; EXIT is not.\<close>

lemma guess_reads: "db_server_guess_uses_index (Some q) \<Longrightarrow> db_server_classify_query (Some q) = DB_SERVER_QUERY_KIND_READ"
  by (auto simp: db_server_guess_uses_index_def db_server_classify_query_def Let_def split: prod.splits if_splits)

lemma exit_kind:
  assumes "statement_of (cstr q) = ExitStatement"
  shows "db_server_classify_query (Some q) \<noteq> DB_SERVER_QUERY_KIND_READ"
proof -
  let ?s = "sql_skip_spaces (cstr q)"
  have "fst (sql_match_exit ?s)" using assms by (auto simp: statement_of_def split: if_splits sum.splits)
  then have "fst (sql_match_keyword ?s ''EXIT'') \<or> fst (sql_match_keyword ?s ''QUIT'')"
    by (auto simp: sql_match_exit_def sql_match_keyword_def split: prod.splits if_splits option.splits)
  then have "\<not> fst (sql_match_keyword ?s ''SELECT'')"
    using keyword_first_lower [of ?s "CHR ''E''" "''XIT''"] keyword_first_lower [of ?s "CHR ''Q''" "''UIT''"]
      keyword_first_lower [of ?s "CHR ''S''" "''ELECT''"] by (auto simp: tolower_def isupper_def code_of_def)
  then show ?thesis by (simp add: classify_simps)
qed

definition tricky_insert :: string where
  "tricky_insert = ''INSERT INTO users VALUES ('' @ [CHR 0x27] @ ''a WHERE id'' @ [CHR 0x27] @ '', 1)''"

section \<open>Properties\<close>

text \<open>
  C22. The lock that the server takes for a query is enough for what the query does: a query
  classified as neither reading nor writing, which runs without a lock, is answered from its text alone,
  whatever the table and the memory are; a query that is not classified as writing leaves the table, the
  records and the tree nodes as they are.
\<close>

theorem db_server_classification_sound:
  assumes "db_server_classify_query (Some q) \<noteq> DB_SERVER_QUERY_KIND_WRITE" "table_rep m t ps rs" "live_mem m"
  shows "(\<exists>m' r. sql_execute m (Some t) (Some q) = Some (m', Some t, r) \<and> recs m' = recs m \<and> nodes m' = nodes m) \<and>
    (db_server_classify_query (Some q) = DB_SERVER_QUERY_KIND_NONE \<longrightarrow>
      (\<forall>(m2 :: 'b db_mem_scheme) t2. sql_execute m2 (Some t2) (Some q) = Some (m2, Some t2, text_result (cstr q))))"
proof -
  obtain m' r where r: "sql_execute m (Some t) (Some q) = Some (m', Some t, r)" "quiet m m'"
    using execute_read [OF assms] by blast
  then have "recs m' = recs m" "nodes m' = nodes m" using quiet_recs quiet_simps by blast+
  then show ?thesis using r(1) execute_kind_none by blast
qed

theorem db_server_classification_sound_witness:
  "db_server_classify_query (Some ''SELECT * FROM users;'') = DB_SERVER_QUERY_KIND_READ \<and>
   (\<exists>m' r. sql_execute db1_mem (Some db1_table) (Some ''SELECT * FROM users;'') = Some (m', Some db1_table, r) \<and>
      recs m' = recs db1_mem \<and> nodes m' = nodes db1_mem)"
proof -
  have "db_server_classify_query (Some ''SELECT * FROM users;'') = DB_SERVER_QUERY_KIND_READ" by code_simp
  then show ?thesis using db_server_classification_sound [OF _ db1_rep, of "''SELECT * FROM users;''"] by simp
qed

text \<open>
  C23. For every text that is accepted as a statement, an INSERT, a SELECT or EXIT, the flag that reports the use of the
  index is right: it is set exactly when the statement is a SELECT with a condition on the column id, whatever a quoted name contains.
\<close>

theorem db_server_used_index_correct:
  assumes "statement_of (cstr q) \<noteq> BadStatement"
  shows "db_server_guess_uses_index (Some q) \<longleftrightarrow> (\<exists>c v. statement_of (cstr q) = SelectStatement (SelectById c v))"
proof (cases "\<exists>sel. statement_of (cstr q) = SelectStatement sel")
  case True
  then obtain sel where sel: "statement_of (cstr q) = SelectStatement sel" by blast
  then have "select_form (cstr q) sel" using statement_select_iff by simp
  then have "db_server_guess_uses_index (Some (cstr q)) = by_id sel" by (rule guess_select) simp
  then show ?thesis using sel by (simp add: db_server_guess_uses_index_def by_id_def split: sql_query.splits)
next
  case False
  then have "db_server_classify_query (Some q) \<noteq> DB_SERVER_QUERY_KIND_READ"
  proof (cases "statement_of (cstr q)")
    case (InsertStatement name age)
    then show ?thesis using statement_kind(1) by simp
  qed (use assms exit_kind in auto)
  then show ?thesis using False guess_reads by blast
qed

theorem db_server_used_index_correct_witness:
  "statement_of (cstr ''select * from users where ID >= 7'') = SelectStatement (SelectById TABLE_COMPARISON_GE 7) \<and>
   db_server_guess_uses_index (Some ''select * from users where ID >= 7'') \<and>
   \<not> db_server_guess_uses_index (Some tricky_insert)"
proof -
  have s: "statement_of (cstr ''select * from users where ID >= 7'') = SelectStatement (SelectById TABLE_COMPARISON_GE 7)"
    "statement_of (cstr tricky_insert) = InsertStatement ''a WHERE id'' 1" by code_simp+
  show ?thesis using db_server_used_index_correct [of "''select * from users where ID >= 7''"]
      db_server_used_index_correct [of tricky_insert] unfolding s by simp
qed

text \<open>
  C24. The wait for the lock ends: whatever the other threads do to the lock meanwhile, with a positive
  time-out and a clock that gets that far the loop returns. It gives up only with a positive time-out and when a
  reading of the clock shows that it has passed, and when it succeeds the lock was granted by the platform.
\<close>

theorem db_server_lock_wait_ends:
  "(0 < lock_timeout_ms (config server) \<and> (\<exists>n. ucast (lock_timeout_ms (config server)) \<le> clock (Suc n) - clock 0) \<longrightarrow>
      (\<exists>result. db_server_try_acquire_lock server k clock others = Some result)) \<and>
   (\<forall>server' ok. db_server_try_acquire_lock server k clock others = Some (server', ok) \<longrightarrow>
      server' = server\<lparr>db_lock := db_lock server'\<rparr> \<and>
      (\<not> ok \<longrightarrow> 0 < lock_timeout_ms (config server) \<and>
         (\<exists>j. ucast (lock_timeout_ms (config server)) \<le> clock (Suc j) - clock 0)) \<and>
      (ok \<and> k = DB_SERVER_QUERY_KIND_READ \<longrightarrow> (\<exists>l. platform_rwlock_try_read_lock l = (db_lock server', True))) \<and>
      (ok \<and> k = DB_SERVER_QUERY_KIND_WRITE \<longrightarrow> (\<exists>l. platform_rwlock_try_write_lock l = (db_lock server', True))))"
proof (cases "k = DB_SERVER_QUERY_KIND_NONE")
  case True
  then show ?thesis by (auto simp: db_server_try_acquire_lock_def)
next
  case False
  then have run: "db_server_try_acquire_lock server k clock others = db_server_acquire_from server k (clock 0) clock others 1"
    by (simp add: db_server_try_acquire_lock_def)
  have "\<exists>r. db_server_acquire_from server k (clock 0) clock others 1 = Some r"
    if "0 < lock_timeout_ms (config server)" "ucast (lock_timeout_ms (config server)) \<le> clock (Suc n) - clock 0" for n
    using acquire_ends [of server "clock 0" clock "Suc n" 1] that by (simp add: db_server_lock_expired_def)
  moreover have "0 < lock_timeout_ms (config server) \<and> (\<exists>j. ucast (lock_timeout_ms (config server)) \<le> clock (Suc j) - clock 0)"
    if "db_server_acquire_from server k (clock 0) clock others 1 = Some (server', False)" for server'
    using acquire_timeout [OF that] by (auto simp: db_server_lock_expired_def Suc_le_eq gr0_conv_Suc)
  moreover note acquire_ok [of server k "clock 0" clock others 1]
  ultimately show ?thesis unfolding run by (auto split: if_splits)
qed

theorem db_server_lock_wait_ends_witness:
  "\<exists>server'. db_server_try_acquire_lock (server1 \<lparr>readers = 2, writing = False\<rparr>) DB_SERVER_QUERY_KIND_WRITE
     (\<lambda>i. of_nat i) (\<lambda>i l. if i = 3 then l\<lparr>readers := 0\<rparr> else l) = Some (server', True)"
proof -
  let ?s = "server1 \<lparr>readers = 2, writing = False\<rparr>"
  let ?o = "\<lambda>i l. if i = (3 :: nat) then l\<lparr>readers := 0\<rparr> else l"
  have "0 < lock_timeout_ms (config ?s) \<and> ucast (lock_timeout_ms (config ?s)) \<le> (of_nat (Suc 9) - of_nat 0 :: 64 word)"
    by (simp add: server1_def db_server_config_default_def)
  then have "\<exists>r. db_server_try_acquire_lock ?s DB_SERVER_QUERY_KIND_WRITE (\<lambda>i. of_nat i) ?o = Some r"
    using db_server_lock_wait_ends [of ?s "\<lambda>i. of_nat i" DB_SERVER_QUERY_KIND_WRITE ?o] by blast
  moreover have "map_option snd (db_server_try_acquire_lock ?s DB_SERVER_QUERY_KIND_WRITE (\<lambda>i. of_nat i) ?o) = Some True"
    by code_simp
  ultimately show ?thesis by auto
qed

text \<open>
  A query that finds the lock free is executed: the call returns with the outcome of its statement
  on the table, the server keeps the resulting table and its configuration, the lock is free again, and the
  execution record says whether it wrote.
\<close>

theorem db_server_execute_refines:
  assumes "srv_table server = Some t" "table_rep m t ps rs" "live_mem m" "next_id t < INT_MAX"
    "rwlock_held (db_lock server) 0 0"
  shows "\<exists>m' server' t' ex. db_server_execute m server (Some q) clock = Some (m', server', Some ex) \<and>
    srv_table server' = Some t' \<and> rwlock_held (db_lock server') 0 0 \<and> config server' = config server \<and> live_mem m' \<and>
    sql_outcome m t ps rs (statement_of (cstr q)) m' t' (ex_result ex) \<and>
    server_status ex = DB_SERVER_EXEC_STATUS_OK \<and> is_write ex = (db_server_classify_query (Some q) = DB_SERVER_QUERY_KIND_WRITE)"
proof -
  obtain m' t' r where x: "sql_execute m (Some t) (Some q) = Some (m', Some t', r)" "live_mem m'"
    "sql_outcome m t ps rs (statement_of (cstr q)) m' t' r"
    using execute_outcome [OF assms(2,3)] assms(4) by blast
  show ?thesis using execute_free [OF assms(1,5) x(1), of clock] x(2,3) by (auto simp: db_server_begin_def)
qed

theorem db_server_execute_refines_witness:
  "\<exists>m' server' t' ex. db_server_execute db1_mem (server1 platform_rwlock_init) (Some (''INSERT INTO users VALUES ('' @ quoted ''kim'' @ '', 3);'')) (\<lambda>_. 0) =
     Some (m', server', Some ex) \<and> srv_table server' = Some t' \<and> is_write ex \<and> inserted_id (ex_result ex) = 2"
proof -
  let ?q = "(''INSERT INTO users VALUES ('' @ quoted ''kim'' @ '', 3);'')"
  have "next_id db1_table < INT_MAX" "next_id db1_table = 2" by (simp_all add: db1_table_def)
  moreover have "srv_table (server1 platform_rwlock_init) = Some db1_table"
    "rwlock_held (db_lock (server1 platform_rwlock_init)) 0 0" by (simp_all add: server1_def)
  moreover have "statement_of (cstr ?q) = InsertStatement ''kim'' 3" "db_server_classify_query (Some ?q) = DB_SERVER_QUERY_KIND_WRITE"
    by code_simp+
  ultimately show ?thesis using db_server_execute_refines [OF _ db1_rep, of "server1 platform_rwlock_init" ?q "\<lambda>_. 0"]
    by (auto simp: sql_outcome_def)
qed

text \<open>
  C25. A query that finds the lock taken until its time-out has passed changes neither the memory nor the
  table nor the lock; it reports the lock time-out, and the counters of lock time-outs and of errors each grow by one.
\<close>

theorem db_server_execute_lock_timeout:
  assumes "srv_table server = Some t" "rwlock_held (db_lock server) r w"
    "db_server_classify_query (Some q) = DB_SERVER_QUERY_KIND_READ \<and> 0 < w \<or>
     db_server_classify_query (Some q) = DB_SERVER_QUERY_KIND_WRITE \<and> 0 < r + w"
    "0 < lock_timeout_ms (config server)" "ucast (lock_timeout_ms (config server)) \<le> clock (Suc n) - clock 0"
  shows "\<exists>server' ex. db_server_execute m server (Some q) clock = Some (m, server', Some ex) \<and>
    srv_table server' = Some t \<and> db_lock server' = db_lock server \<and>
    server_status ex = DB_SERVER_EXEC_STATUS_LOCK_TIMEOUT \<and> message ex = ''Lock wait timeout exceeded'' \<and>
    total_lock_timeouts (metrics server') = total_lock_timeouts (metrics server) + 1 \<and>
    total_errors (metrics server') = total_errors (metrics server) + 1"
proof -
  have "db_server_lock_expired server (clock 0) (clock (Suc n))" using assms(4,5) by (simp add: db_server_lock_expired_def)
  from execute_busy [OF assms(1,2) refl assms(3) this, of m] show ?thesis using assms(1)
    by (auto simp: lock_timeout_execution_def db_server_metrics_query_finished_def db_server_metrics_query_started_def
        snprintf_def Let_def)
qed

theorem db_server_execute_lock_timeout_witness:
  "\<exists>server' ex. db_server_execute db1_mem (server1 \<lparr>readers = 0, writing = True\<rparr>) (Some ''select * from users'') (\<lambda>i. of_nat i) =
     Some (db1_mem, server', Some ex) \<and> server_status ex = DB_SERVER_EXEC_STATUS_LOCK_TIMEOUT"
proof -
  let ?s = "server1 \<lparr>readers = 0, writing = True\<rparr>"
  have "db_server_classify_query (Some ''select * from users'') = DB_SERVER_QUERY_KIND_READ" by code_simp
  moreover have "srv_table ?s = Some db1_table" "rwlock_held (db_lock ?s) 0 1" "0 < lock_timeout_ms (config ?s)"
    "ucast (lock_timeout_ms (config ?s)) \<le> (of_nat (Suc 9) - of_nat 0 :: 64 word)"
    by (simp_all add: server1_def rwlock_held_def db_server_config_default_def)
  ultimately show ?thesis
    using db_server_execute_lock_timeout [of ?s db1_table 0 1 "''select * from users''" "\<lambda>i. of_nat i" 9 db1_mem] by auto
qed

end
