(* ===== verification/Tally.thy ===== *)
theory Tally
  imports Main
begin

text \<open>
  Totals over the first \<open>n\<close> threads of a family of thread states, and how a step of one thread changes them. The
  proofs about the database server and about the worker pool count lock holders, active queries, waiting workers and
  open sockets with it.
\<close>

definition tally :: "nat \<Rightarrow> ('a \<Rightarrow> 'b::comm_monoid_add) \<Rightarrow> (nat \<Rightarrow> 'a) \<Rightarrow> 'b" where
  "tally n f g = (\<Sum>i<n. f (g i))"

lemma tally_upd: "i < n \<Longrightarrow> tally n f (g(i := x)) + f (g i) = tally n f g + f x"
proof -
  assume i: "i < n"
  have "tally n f g = f (g i) + (\<Sum>j\<in>{..<n} - {i}. f (g j))" unfolding tally_def using i by (simp add: sum.remove)
  moreover have "tally n f (g(i := x)) = f x + (\<Sum>j\<in>{..<n} - {i}. f (g j))"
    unfolding tally_def using i by (simp add: sum.remove)
  ultimately show ?thesis by (simp add: ac_simps)
qed

lemma tally_same:
  fixes f :: "'a \<Rightarrow> 'b::cancel_comm_monoid_add"
  shows "i < n \<Longrightarrow> f x = f (g i) \<Longrightarrow> tally n f (g(i := x)) = tally n f g"
  using tally_upd [of i n f g x] by simp

lemma tally_zero: "(\<And>i. i < n \<Longrightarrow> f (g i) = 0) \<Longrightarrow> tally n f g = 0"
  by (simp add: tally_def)

lemma tally_zero_iff: "tally n f g = 0 \<longleftrightarrow> (\<forall>i<n. f (g i) = 0)" for f :: "'a \<Rightarrow> nat"
  by (auto simp: tally_def)

lemma tally_less:
  fixes f :: "'a \<Rightarrow> nat"
  shows "i < n \<Longrightarrow> f x < f (g i) \<Longrightarrow> tally n f (g(i := x)) < tally n f g"
  using tally_upd [of i n f g x] by simp

lemma tally_member:
  fixes f :: "'a \<Rightarrow> nat"
  shows "i < n \<Longrightarrow> f (g i) \<le> tally n f g"
  unfolding tally_def by (rule member_le_sum) auto

lemma tally_two:
  fixes f :: "'a \<Rightarrow> nat"
  assumes "i < n" "j < n" "i \<noteq> j"
  shows "f (g i) + f (g j) \<le> tally n f g"
proof -
  have "(\<Sum>k\<in>{i, j}. f (g k)) \<le> tally n f g" unfolding tally_def using assms by (intro sum_mono2) auto
  then show ?thesis using assms(3) by simp
qed

lemma tally_le:
  fixes f :: "'a \<Rightarrow> nat"
  assumes "\<And>x. f x \<le> 1"
  shows "tally n f g \<le> n"
proof -
  have "tally n f g \<le> (\<Sum>i<n. 1)" unfolding tally_def using assms by (intro sum_mono)
  then show ?thesis by simp
qed

end
