(* ===== verification/DbServer_Conc.thy ===== *)
theory DbServer_Conc
  imports DbServer_Props Tally
begin

text \<open>
  The database server under many threads. Each of \<open>n\<close> threads takes its query through the phases of
  \<^verbatim>\<open>db_server_execute\<close> in \<^verbatim>\<open>src/server/db_server.c\<close>, one atomic action at a time: the start (metrics mutex), an
  attempt on the lock, the statement under the lock, the release, the end (metrics mutex), and the response,
  which reads the selected rows after the lock was released; building responses only allocates, which is the step \<open>allocate\<close>. A failed attempt that is not yet expired changes
  nothing and is no step. The statement is one action because, as proved below, no other
  thread is inside the table when a writer is, and readers do not change it.
\<close>

section \<open>Threads\<close>

datatype phase =
    Idle
  | Waiting string "64 word"
  | Holding string
  | Executed string DBServerExecution
  | Finishing string DBServerExecution
  | Responding string DBServerExecution

record db_conc =
  cmem :: db_mem
  csrv :: DBServer
  thr :: "nat \<Rightarrow> phase"

abbreviation kind_of :: "string \<Rightarrow> DBServerQueryKind" where
  "kind_of q \<equiv> db_server_classify_query (Some q)"

definition step_to :: "db_conc \<Rightarrow> nat \<Rightarrow> db_mem \<Rightarrow> DBServer \<Rightarrow> phase \<Rightarrow> db_conc" where
  "step_to s i m srv ph = \<lparr>cmem = m, csrv = srv, thr = (thr s)(i := ph)\<rparr>"

text \<open>The steps of a query in progress.\<close>

inductive query_step :: "nat \<Rightarrow> db_conc \<Rightarrow> db_conc \<Rightarrow> bool" for n where
  pass: "\<lbrakk>i < n; thr s i = Waiting q t0; kind_of q = DB_SERVER_QUERY_KIND_NONE\<rbrakk> \<Longrightarrow>
    query_step n s (step_to s i (cmem s) (csrv s) (Holding q))"
| acquire: "\<lbrakk>i < n; thr s i = Waiting q t0; kind_of q \<noteq> DB_SERVER_QUERY_KIND_NONE;
     db_server_attempt_lock (csrv s) (kind_of q) = (srv, True)\<rbrakk> \<Longrightarrow>
    query_step n s (step_to s i (cmem s) srv (Holding q))"
| expire: "\<lbrakk>i < n; thr s i = Waiting q t0; kind_of q \<noteq> DB_SERVER_QUERY_KIND_NONE;
     db_server_attempt_lock (csrv s) (kind_of q) = (srv, False); db_server_lock_expired srv t0 now\<rbrakk> \<Longrightarrow>
    query_step n s (step_to s i (cmem s) srv (Finishing q (lock_timeout_execution (db_server_begin q))))"
| run: "\<lbrakk>i < n; thr s i = Holding q; db_server_run (cmem s) (csrv s) q (db_server_begin q) = Some (m, srv, ex)\<rbrakk> \<Longrightarrow>
    query_step n s (step_to s i m srv (Executed q ex))"
| release: "\<lbrakk>i < n; thr s i = Executed q ex\<rbrakk> \<Longrightarrow>
    query_step n s (step_to s i (cmem s) (db_server_release_lock (csrv s) (kind_of q)) (Finishing q ex))"
| finish: "\<lbrakk>i < n; thr s i = Finishing q ex\<rbrakk> \<Longrightarrow>
    query_step n s (step_to s i (cmem s) (db_server_metrics_query_finished (csrv s) ex) (Responding q ex))"
| respond: "\<lbrakk>i < n; thr s i = Responding q ex\<rbrakk> \<Longrightarrow>
    query_step n s (step_to s i (cmem s) (csrv s) Idle)"

inductive db_step :: "nat \<Rightarrow> db_conc \<Rightarrow> db_conc \<Rightarrow> bool" for n where
  query: "query_step n s s' \<Longrightarrow> db_step n s s'"
| start: "\<lbrakk>i < n; thr s i = Idle\<rbrakk> \<Longrightarrow>
    db_step n s (step_to s i (cmem s) (db_server_metrics_query_started (csrv s) (kind_of q)) (Waiting q now))"
| health: "db_step n s (s\<lparr>csrv := db_server_record_health_request (csrv s)\<rparr>)"
| metrics: "db_step n s (s\<lparr>csrv := db_server_record_metrics_request (csrv s)\<rparr>)"
| queue_full: "db_step n s (s\<lparr>csrv := db_server_record_queue_full (csrv s)\<rparr>)"
| allocate: "quiet (cmem s) m \<Longrightarrow> db_step n s (s\<lparr>cmem := m\<rparr>)"

definition db_conc_init :: "db_mem \<Rightarrow> DBServerConfig \<Rightarrow> db_conc \<Rightarrow> bool" where
  "db_conc_init m cfg s \<longleftrightarrow> live_mem m \<and> nodes m = Map.empty \<and> recs m = Map.empty \<and> blocks m = {} \<and>
     db_server_init_with_config m (Some cfg) True True = (cmem s, Some (csrv s)) \<and> thr s = (\<lambda>_. Idle)"

section \<open>The invariant\<close>

fun lock_kind :: "phase \<Rightarrow> DBServerQueryKind" where
  "lock_kind (Holding q) = kind_of q"
| "lock_kind (Executed q ex) = kind_of q"
| "lock_kind _ = DB_SERVER_QUERY_KIND_NONE"

fun counted :: "phase \<Rightarrow> nat" where
  "counted (Waiting q t0) = 1"
| "counted (Holding q) = 1"
| "counted (Executed q ex) = 1"
| "counted (Finishing q ex) = 1"
| "counted _ = 0"

fun result_of :: "phase \<Rightarrow> SQLResult option" where
  "result_of (Executed q ex) = Some (ex_result ex)"
| "result_of (Finishing q ex) = Some (ex_result ex)"
| "result_of (Responding q ex) = Some (ex_result ex)"
| "result_of _ = None"

definition over :: "nat \<Rightarrow> db_conc \<Rightarrow> (phase \<Rightarrow> nat) \<Rightarrow> nat" where
  "over n s f = tally n f (thr s)"

abbreviation read_count :: "phase \<Rightarrow> nat" where "read_count ph \<equiv> read_holds (lock_kind ph)"
abbreviation write_count :: "phase \<Rightarrow> nat" where "write_count ph \<equiv> write_holds (lock_kind ph)"

definition lock_inv :: "nat \<Rightarrow> db_conc \<Rightarrow> bool" where
  "lock_inv n s \<longleftrightarrow> rwlock_held (db_lock (csrv s)) (over n s read_count) (over n s write_count)"

definition table_of :: "db_conc \<Rightarrow> Table \<Rightarrow> ptr list \<Rightarrow> Record list \<Rightarrow> bool" where
  "table_of s t ps rs \<longleftrightarrow> srv_table (csrv s) = Some t \<and> table_rep (cmem s) t ps rs \<and> live_mem (cmem s)"

definition metrics_ok :: "DBServerMetrics \<Rightarrow> bool" where
  "metrics_ok mt \<longleftrightarrow>
     total_requests mt = total_health_requests mt + total_metrics_requests mt + total_query_requests mt + total_queue_full mt \<and>
     total_errors mt = total_syntax_errors mt + total_query_errors mt + total_internal_errors mt + total_queue_full mt +
       total_lock_timeouts mt"

definition count_inv :: "nat \<Rightarrow> db_conc \<Rightarrow> bool" where
  "count_inv n s \<longleftrightarrow> metrics_ok (metrics (csrv s)) \<and> active_query_requests (metrics (csrv s)) = of_nat (over n s counted)"

definition selected :: "SQLResult \<Rightarrow> bool" where
  "selected r \<longleftrightarrow> action r = SQL_ACTION_SELECT_ROWS \<and> status r = SQL_STATUS_OK"

definition results_inv :: "nat \<Rightarrow> db_conc \<Rightarrow> bool" where
  "results_inv n s \<longleftrightarrow> (\<forall>i<n. \<forall>r. result_of (thr s i) = Some r \<and> selected r \<longrightarrow> (\<exists>rows. result_rows (cmem s) r rows))"

definition conc_inv :: "nat \<Rightarrow> db_conc \<Rightarrow> bool" where
  "conc_inv n s \<longleftrightarrow> lock_inv n s \<and> (\<exists>t ps rs. table_of s t ps rs) \<and> count_inv n s \<and> results_inv n s"

subsection \<open>Counting\<close>

lemma step_to_simps [simp]:
  "cmem (step_to s i m srv ph) = m" "csrv (step_to s i m srv ph) = srv" "thr (step_to s i m srv ph) = (thr s)(i := ph)"
  by (simp_all add: step_to_def)

lemma over_step: "i < n \<Longrightarrow> over n (step_to s i m srv ph) f + f (thr s i) = over n s f + f ph"
  unfolding over_def by (simp add: tally_upd)

lemma over_same: "i < n \<Longrightarrow> f ph = f (thr s i) \<Longrightarrow> over n (step_to s i m srv ph) f = over n s f"
  unfolding over_def by (simp add: tally_same)

lemma over_csrv [simp]: "over n (s\<lparr>csrv := x\<rparr>) f = over n s f" "over n (s\<lparr>cmem := m\<rparr>) f = over n s f"
  by (simp_all add: over_def)

lemma over_member: "i < n \<Longrightarrow> f (thr s i) \<le> over n s f"
  unfolding over_def by (rule tally_member)

lemma over_two: "\<lbrakk>i < n; j < n; i \<noteq> j\<rbrakk> \<Longrightarrow> f (thr s i) + f (thr s j) \<le> over n s f"
  unfolding over_def by (rule tally_two)

lemma over_zero: "(\<And>i. i < n \<Longrightarrow> f (thr s i) = 0) \<Longrightarrow> over n s f = 0"
  unfolding over_def by (rule tally_zero)

lemma over_counted: "over n s counted \<le> n"
proof -
  have "counted ph \<le> 1" for ph by (cases ph) auto
  then show ?thesis unfolding over_def by (rule tally_le)
qed

lemma holds_none [simp]: "read_holds DB_SERVER_QUERY_KIND_NONE = 0" "write_holds DB_SERVER_QUERY_KIND_NONE = 0"
  by (simp_all add: read_holds_def write_holds_def)

subsection \<open>The lock\<close>

lemma run_keeps:
  assumes "db_server_run m srv q ex = Some (m', srv', ex')"
  shows "db_lock srv' = db_lock srv" "metrics srv' = metrics srv" "config srv' = config srv"
  using assms by (auto simp: db_server_run_def split: Option.bind_splits prod.splits)

lemma record_keeps [simp]:
  "db_lock (db_server_record_health_request srv) = db_lock srv" "db_lock (db_server_record_metrics_request srv) = db_lock srv"
  "db_lock (db_server_record_queue_full srv) = db_lock srv"
  "srv_table (db_server_record_health_request srv) = srv_table srv" "srv_table (db_server_record_metrics_request srv) = srv_table srv"
  "srv_table (db_server_record_queue_full srv) = srv_table srv"
  by (simp_all add: db_server_record_health_request_def db_server_record_metrics_request_def db_server_record_queue_full_def)

lemma lock_inv_same:
  assumes "lock_inv n s" "i < n" "read_count ph = read_count (thr s i)" "write_count ph = write_count (thr s i)"
    "db_lock srv = db_lock (csrv s)"
  shows "lock_inv n (step_to s i m srv ph)"
  using assms over_same [where f = read_count] over_same [where f = write_count] by (simp add: lock_inv_def)

lemma lock_inv_query:
  assumes "query_step n s s'" "lock_inv n s"
  shows "lock_inv n s'"
  using assms
proof (induction rule: query_step.induct)
  case (acquire i s q t0 srv)
  have h: "rwlock_held (db_lock (csrv s)) (over n s read_count) (over n s write_count)"
    using acquire.prems by (simp add: lock_inv_def)
  show ?case using attempt_ok [OF h acquire.hyps(4,3)] acquire.hyps(1,2)
      over_step [of i n s "cmem s" srv "Holding q" read_count] over_step [of i n s "cmem s" srv "Holding q" write_count]
    by (auto simp: lock_inv_def)
next
  case (expire i s q t0 srv now)
  have "srv = csrv s" using attempt_fail expire.hyps(4) expire.prems unfolding lock_inv_def by blast
  then show ?case using expire by (intro lock_inv_same) auto
next
  case (run i s q m srv ex)
  then show ?case using run_keeps by (intro lock_inv_same) auto
next
  case (release i s q ex)
  let ?s = "step_to s i (cmem s) (db_server_release_lock (csrv s) (kind_of q)) (Finishing q ex)"
  have "over n s read_count = over n ?s read_count + read_holds (kind_of q)"
    "over n s write_count = over n ?s write_count + write_holds (kind_of q)"
    using release.hyps over_step [of i n s "cmem s" "db_server_release_lock (csrv s) (kind_of q)" "Finishing q ex" read_count]
      over_step [of i n s "cmem s" "db_server_release_lock (csrv s) (kind_of q)" "Finishing q ex" write_count] by simp_all
  then show ?case using release_held [of "csrv s" "over n ?s read_count" "kind_of q" "over n ?s write_count"] release.prems
    by (simp add: lock_inv_def)
qed (auto intro!: lock_inv_same)

lemma lock_inv_step: "db_step n s s' \<Longrightarrow> lock_inv n s \<Longrightarrow> lock_inv n s'"
proof (induction rule: db_step.induct)
  case (query s s')
  then show ?case by (rule lock_inv_query)
next
  case (start i s q now)
  then show ?case by (intro lock_inv_same) auto
qed (simp_all add: lock_inv_def)

subsection \<open>The table\<close>

text \<open>The statement of a query: the table keeps its rows and may get new ones at the end.\<close>

lemma run_table:
  assumes "srv_table srv = Some t" "table_rep m t ps rs" "live_mem m" "db_server_run m srv q ex = Some (m', srv', ex')"
  obtains t' ps' rs' where "srv_table srv' = Some t'" "table_rep m' t' (ps @ ps') (rs @ rs')" "live_mem m'"
    "sql_outcome m t ps rs (statement_of (cstr q)) m' t' (ex_result ex')"
    "int (length rs') \<le> 1" "next_id t' = next_id t + int (length rs')" "rs' \<noteq> [] \<Longrightarrow> kind_of q = DB_SERVER_QUERY_KIND_WRITE"
proof -
  obtain tb r where x: "sql_execute m (Some t) (Some q) = Some (m', tb, r)" "srv_table srv' = tb" "ex_result ex' = r"
    using assms(1,4) by (auto simp: db_server_run_def split: Option.bind_splits prod.splits)
  have "next_id t \<le> INT_MAX" using assms(2) by (simp add: table_rep_def)
  then have "next_id t < INT_MAX \<or> (\<forall>name age. statement_of (cstr q) \<noteq> InsertStatement name age)"
    using execute_insert_overflow [OF assms(2,3), of q] x(1) by fastforce
  then obtain t' where o: "tb = Some t'" "live_mem m'" "sql_outcome m t ps rs (statement_of (cstr q)) m' t' r"
    using execute_outcome [OF assms(2,3), of q] x(1) by auto
  show ?thesis
  proof (cases "\<exists>name age. statement_of (cstr q) = InsertStatement name age")
    case True
    then obtain name age where st: "statement_of (cstr q) = InsertStatement name age" by blast
    then have "table_rep m' t' (ps @ [res_record r]) (rs @ [new_record (next_id t) name age])" "next_id t' = next_id t + 1"
      using o(3) by (simp_all add: sql_outcome_def)
    then show ?thesis using that [of t' "[res_record r]" "[new_record (next_id t) name age]"] x o statement_kind(1) [OF st] by simp
  next
    case False
    then have "t' = t" "quiet m m'" using outcome_reads [OF o(3)] by blast+
    then show ?thesis using that [of t "[]" "[]"] x o table_rep_quiet [OF assms(2)] by simp
  qed
qed

definition grows :: "db_conc \<Rightarrow> db_conc \<Rightarrow> bool" where
  "grows s s' \<longleftrightarrow> (\<forall>t ps rs. table_of s t ps rs \<longrightarrow> (\<exists>t' ps' rs'. table_of s' t' (ps @ ps') (rs @ rs')))"

lemma grows_refl [simp]: "grows s s"
  unfolding grows_def by (metis append_Nil2)

lemma grows_trans: "grows s s' \<Longrightarrow> grows s' s'' \<Longrightarrow> grows s s''"
  unfolding grows_def by (metis append.assoc)

lemma table_same: "cmem s' = cmem s \<Longrightarrow> srv_table (csrv s') = srv_table (csrv s) \<Longrightarrow> grows s s'"
  unfolding grows_def table_of_def by (metis append_Nil2)

lemma grows_query: "query_step n s s' \<Longrightarrow> grows s s'"
proof (induction rule: query_step.induct)
  case (run i s q m srv ex)
  show ?case unfolding grows_def
  proof (intro allI impI)
    fix t ps rs assume t: "table_of s t ps rs"
    then obtain t' ps' rs' where "srv_table srv = Some t'" "table_rep m t' (ps @ ps') (rs @ rs')" "live_mem m"
      using run_table run.hyps(3) unfolding table_of_def by metis
    then show "\<exists>t' ps' rs'. table_of (step_to s i m srv (Executed q ex)) t' (ps @ ps') (rs @ rs')" by (auto simp: table_of_def)
  qed
qed (auto intro!: table_same dest: attempt_keeps)

lemma grows_quiet:
  assumes "quiet (cmem s) m"
  shows "grows s (s\<lparr>cmem := m\<rparr>)"
  unfolding grows_def
proof (intro allI impI)
  fix t ps rs assume "table_of s t ps rs"
  then have "table_of (s\<lparr>cmem := m\<rparr>) t (ps @ []) (rs @ [])"
    using table_rep_quiet [OF _ assms] quiet_simps(2) [OF assms] by (simp add: table_of_def)
  then show "\<exists>t' ps' rs'. table_of (s\<lparr>cmem := m\<rparr>) t' (ps @ ps') (rs @ rs')" by blast
qed

lemma grows_step: "db_step n s s' \<Longrightarrow> grows s s'"
  by (induction rule: db_step.induct) (auto intro: grows_query table_same grows_quiet)

lemma grows_steps: "(db_step n)\<^sup>*\<^sup>* s s' \<Longrightarrow> grows s s'"
  by (induction rule: rtranclp_induct) (auto intro: grows_trans grows_step)

lemma grows_recs:
  assumes "grows s s'" "table_of s t ps rs"
  shows "recs (cmem s) \<subseteq>\<^sub>m recs (cmem s')"
proof -
  obtain t' ps' rs' where "table_of s' t' (ps @ ps') (rs @ rs')" using assms unfolding grows_def by blast
  then have "map (recs (cmem s')) ps = map Some rs" "map (recs (cmem s)) ps = map Some rs" "dom (recs (cmem s)) = set ps"
    using assms(2) by (auto simp: table_of_def table_rep_def)
  then show ?thesis unfolding map_le_def by (metis map_eq_conv)
qed

lemma result_rows_le: "result_rows m r xs \<Longrightarrow> recs m \<subseteq>\<^sub>m recs m' \<Longrightarrow> result_rows m' r xs"
proof -
  assume r: "result_rows m r xs" and le: "recs m \<subseteq>\<^sub>m recs m'"
  have "map (recs m') ps = map Some xs" if "map (recs m) ps = map Some xs" for ps
    using that le by (induction ps arbitrary: xs) (auto simp: map_le_def dom_def)
  then show ?thesis using r unfolding result_rows_def by blast
qed

lemma outcome_selected:
  assumes "sql_outcome m t ps rs st m' t' r" "selected r"
  shows "\<exists>xs. result_rows m' r xs"
  using assms by (cases st) (auto simp: sql_outcome_def selected_def error_result_def)

lemma results_inv_step_to:
  assumes "results_inv n s" "grows s (step_to s i m srv ph)" "table_of s t ps rs"
    "\<And>r. result_of ph = Some r \<Longrightarrow> selected r \<Longrightarrow> result_of (thr s i) = Some r \<or> (\<exists>xs. result_rows m r xs)"
  shows "results_inv n (step_to s i m srv ph)"
proof -
  have le: "recs (cmem s) \<subseteq>\<^sub>m recs m" using grows_recs [OF assms(2,3)] by simp
  show ?thesis unfolding results_inv_def
  proof (intro allI impI, elim conjE)
    fix j r assume j: "j < n" "result_of (thr (step_to s i m srv ph) j) = Some r" "selected r"
    show "\<exists>xs. result_rows (cmem (step_to s i m srv ph)) r xs"
    proof (cases "j = i \<and> result_of (thr s i) \<noteq> Some r")
      case True
      then show ?thesis using assms(4) j by simp
    next
      case False
      then have "result_of (thr s j) = Some r" using j(2) by (auto split: if_splits)
      then obtain xs where "result_rows (cmem s) r xs" using assms(1) j unfolding results_inv_def by blast
      then show ?thesis using result_rows_le [OF _ le] by auto
    qed
  qed
qed

lemma timeout_not_selected: "\<not> selected (ex_result (lock_timeout_execution ex))"
  by (simp add: selected_def lock_timeout_execution_def)

lemma results_inv_query:
  assumes "query_step n s s'" "results_inv n s" "table_of s t ps rs"
  shows "results_inv n s'"
  using assms(1) grows_query [OF assms(1)] assms(2,3)
proof (induction rule: query_step.induct)
  case (run i s q m srv ex)
  then have "srv_table (csrv s) = Some t" "table_rep (cmem s) t ps rs" "live_mem (cmem s)" by (simp_all add: table_of_def)
  from run_table [OF this run.hyps(3)] obtain t' where "sql_outcome (cmem s) t ps rs (statement_of (cstr q)) m t' (ex_result ex)" by blast
  note sel = outcome_selected [OF this]
  show ?case by (rule results_inv_step_to [OF run.prems(2,1,3)]) (use sel in auto)
qed (auto intro!: results_inv_step_to simp: timeout_not_selected)

subsection \<open>The counters\<close>

lemma metrics_started:
  "metrics_ok (metrics srv) \<Longrightarrow> metrics_ok (metrics (db_server_metrics_query_started srv k))"
  "active_query_requests (metrics (db_server_metrics_query_started srv k)) = active_query_requests (metrics srv) + 1"
  by (simp_all add: metrics_ok_def db_server_metrics_query_started_def Let_def)

lemma metrics_finished:
  "metrics_ok (metrics srv) \<Longrightarrow> metrics_ok (metrics (db_server_metrics_query_finished srv ex))"
  "active_query_requests (metrics (db_server_metrics_query_finished srv ex)) =
     (if 0 < active_query_requests (metrics srv) then active_query_requests (metrics srv) - 1 else active_query_requests (metrics srv))"
  by (auto simp: metrics_ok_def db_server_metrics_query_finished_def Let_def)

lemma metrics_recorded:
  "metrics_ok (metrics srv) \<Longrightarrow> metrics_ok (metrics (db_server_record_health_request srv))"
  "metrics_ok (metrics srv) \<Longrightarrow> metrics_ok (metrics (db_server_record_metrics_request srv))"
  "metrics_ok (metrics srv) \<Longrightarrow> metrics_ok (metrics (db_server_record_queue_full srv))"
  "active_query_requests (metrics (db_server_record_health_request srv)) = active_query_requests (metrics srv)"
  "active_query_requests (metrics (db_server_record_metrics_request srv)) = active_query_requests (metrics srv)"
  "active_query_requests (metrics (db_server_record_queue_full srv)) = active_query_requests (metrics srv)"
  by (auto simp: metrics_ok_def db_server_record_health_request_def db_server_record_metrics_request_def
      db_server_record_queue_full_def)

lemma word_of_nat_pos: "0 < k \<Longrightarrow> k < 2 ^ 64 \<Longrightarrow> 0 < (of_nat k :: 64 word)"
  by (auto simp: word_neq_0_conv [symmetric] word_of_nat_eq_0_iff dest: dvd_imp_le)

lemma count_inv_same:
  assumes "count_inv n s" "i < n" "counted ph = counted (thr s i)" "metrics srv = metrics (csrv s)"
  shows "count_inv n (step_to s i m srv ph)"
  using assms over_same [where f = counted] by (simp add: count_inv_def)

lemma count_inv_query:
  assumes "query_step n s s'" "count_inv n s" "n < 2 ^ 64"
  shows "count_inv n s'"
  using assms
proof (induction rule: query_step.induct)
  case (finish i s q ex)
  let ?s = "step_to s i (cmem s) (db_server_metrics_query_finished (csrv s) ex) (Responding q ex)"
  have o: "over n s counted = Suc (over n ?s counted)"
    using over_step [OF finish.hyps(1), of s "cmem s" "db_server_metrics_query_finished (csrv s) ex" "Responding q ex" counted] finish.hyps(2) by simp
  have "over n s counted < 2 ^ 64" "0 < over n s counted" using over_counted [of n s] finish.prems(2) o by simp_all
  then have "0 < (of_nat (over n s counted) :: 64 word)" by (intro word_of_nat_pos)
  moreover have "(of_nat (over n s counted) :: 64 word) - 1 = of_nat (over n ?s counted)" unfolding o by simp
  ultimately show ?case using finish.prems(1) metrics_finished [of "csrv s" ex] by (simp add: count_inv_def)
next
  case (run i s q m srv ex)
  then show ?case using run_keeps by (intro count_inv_same) auto
qed (auto intro!: count_inv_same dest: attempt_keeps)

lemma count_inv_step:
  assumes "db_step n s s'" "count_inv n s" "n < 2 ^ 64"
  shows "count_inv n s'"
  using assms
proof (induction rule: db_step.induct)
  case (query s s')
  then show ?case by (rule count_inv_query)
next
  case (start i s q now)
  let ?v = "db_server_metrics_query_started (csrv s) (kind_of q)"
  have "over n (step_to s i (cmem s) ?v (Waiting q now)) counted = Suc (over n s counted)"
    using over_step [OF start.hyps(1), of s "cmem s" ?v "Waiting q now" counted] start.hyps(2) by simp
  then show ?case using start.prems(1) metrics_started [of "csrv s" "kind_of q"] by (simp add: count_inv_def algebra_simps)
qed (simp_all add: count_inv_def metrics_recorded)

subsection \<open>Reachable states\<close>

lemma conc_inv_step:
  assumes "db_step n s s'" "conc_inv n s" "n < 2 ^ 64"
  shows "conc_inv n s'"
proof -
  obtain t ps rs where t: "table_of s t ps rs" using assms(2) by (auto simp: conc_inv_def)
  have i: "lock_inv n s" "count_inv n s" "results_inv n s" using assms(2) by (simp_all add: conc_inv_def)
  have "\<exists>t ps rs. table_of s' t ps rs" using grows_step [OF assms(1)] t unfolding grows_def by blast
  moreover have "results_inv n s'"
    using assms(1)
  proof cases
    case query
    then show ?thesis using results_inv_query [OF _ i(3) t] by blast
  next
    case (start i q now)
    show ?thesis unfolding start(1) using grows_step [OF assms(1)] unfolding start(1)
      by (intro results_inv_step_to [OF i(3) _ t]) auto
  next
    case (allocate m)
    have "result_rows m r xs" if "result_rows (cmem s) r xs" for r xs
      using result_rows_le [OF that, of m] quiet_recs [OF allocate(2)] by simp
    then have "results_inv n (s\<lparr>cmem := m\<rparr>)" using i(3) unfolding results_inv_def by (simp, blast)
    then show ?thesis unfolding allocate(1) .
  qed (use i(3) in \<open>simp_all add: results_inv_def\<close>)
  ultimately show ?thesis using lock_inv_step [OF assms(1) i(1)] count_inv_step [OF assms(1) i(2) assms(3)]
    by (simp add: conc_inv_def)
qed

lemma conc_inv_init:
  assumes "db_conc_init m cfg s"
  shows "conc_inv n s"
proof -
  obtain m' t where c: "table_create m = (m', Some t)" "table_rep m' t [] []" "live_mem m'"
    using table_create_rep assms unfolding db_conc_init_def by blast
  then have s: "cmem s = m'" "csrv s = \<lparr>srv_table = Some t, db_lock = platform_rwlock_init, config = cfg, metrics = zero_metrics\<rparr>"
    "thr s = (\<lambda>_. Idle)"
    using assms by (auto simp: db_conc_init_def db_server_init_with_config_def Let_def)
  have z: "over n s f = 0" if "f Idle = 0" for f using that s(3) by (intro over_zero) simp
  have "lock_inv n s" using s z [of read_count] z [of write_count] by (simp add: lock_inv_def)
  moreover have "count_inv n s" using s z [of counted] by (simp add: count_inv_def metrics_ok_def zero_metrics_def)
  moreover have "results_inv n s" "table_of s t [] []" using s c by (simp_all add: results_inv_def table_of_def)
  ultimately show ?thesis unfolding conc_inv_def by blast
qed

lemma conc_inv_reach:
  assumes "(db_step n)\<^sup>*\<^sup>* s s'" "conc_inv n s" "n < 2 ^ 64"
  shows "conc_inv n s'"
  using assms(1) by (induction rule: rtranclp_induct) (auto intro: assms(2) conc_inv_step [OF _ _ assms(3)])

lemma query_reach: "(query_step n)\<^sup>*\<^sup>* s s' \<Longrightarrow> (db_step n)\<^sup>*\<^sup>* s s'"
  by (rule rtranclp_mono [THEN predicate2D, rotated]) (auto intro: db_step.query)

section \<open>Progress\<close>

fun work :: "phase \<Rightarrow> nat" where
  "work Idle = 0"
| "work (Responding q ex) = 1"
| "work (Finishing q ex) = 2"
| "work (Executed q ex) = 3"
| "work (Holding q) = 4"
| "work (Waiting q t0) = 5"

fun pending :: "phase \<Rightarrow> nat" where
  "pending (Waiting q t0) = 1"
| "pending (Holding q) = 1"
| "pending _ = 0"

lemma over_less: "i < n \<Longrightarrow> f ph < f (thr s i) \<Longrightarrow> over n (step_to s i m srv ph) f < over n s f"
  using over_step [of i n s m srv ph f] by simp

lemma query_work: "query_step n s s' \<Longrightarrow> over n s' work < over n s work"
  by (induction rule: query_step.induct) (auto intro!: over_less)

lemma query_wf: "wfp (\<lambda>s' s. query_step n s s')"
  by (rule wfp_if_convertible_to_nat [of _ "\<lambda>s. over n s work"]) (rule query_work)

lemma over_pending_le:
  assumes "i < n" "pending ph \<le> pending (thr s i)"
  shows "over n (step_to s i m srv ph) pending \<le> over n s pending"
  using assms over_step [of i n s m srv ph pending] by simp

lemma query_room:
  assumes "query_step n s s'" "table_of s t ps rs" "next_id t + int (over n s pending) \<le> INT_MAX"
  shows "\<exists>t' ps' rs'. table_of s' t' ps' rs' \<and> next_id t' + int (over n s' pending) \<le> INT_MAX"
  using assms
proof (induction rule: query_step.induct)
  case (run i s q m srv ex)
  then have t: "srv_table (csrv s) = Some t" "table_rep (cmem s) t ps rs" "live_mem (cmem s)" by (simp_all add: table_of_def)
  obtain t' ps' rs' where "srv_table srv = Some t'" "table_rep m t' (ps @ ps') (rs @ rs')" "live_mem m"
    "int (length rs') \<le> 1" "next_id t' = next_id t + int (length rs')"
    using run_table [OF t run.hyps(3)] by metis
  moreover have "over n s pending = Suc (over n (step_to s i m srv (Executed q ex)) pending)"
    using over_step [OF run.hyps(1), of s m srv "Executed q ex" pending] run.hyps(2) by simp
  ultimately have "table_of (step_to s i m srv (Executed q ex)) t' (ps @ ps') (rs @ rs')"
    "next_id t' + int (over n (step_to s i m srv (Executed q ex)) pending) \<le> INT_MAX"
    using run.prems(2) by (simp_all add: table_of_def)
  then show ?case by blast
next
  case (acquire i s q t0 srv)
  then show ?case using over_pending_le [of i n "Holding q" s "cmem s" srv] attempt_keeps(2) [OF acquire.hyps(4)]
    by (intro exI [of _ t] exI [of _ ps] exI [of _ rs]) (auto simp: table_of_def)
next
  case (expire i s q t0 srv now)
  then show ?case
    using over_pending_le [of i n "Finishing q (lock_timeout_execution (db_server_begin q))" s "cmem s" srv]
      attempt_keeps(2) [OF expire.hyps(4)]
    by (intro exI [of _ t] exI [of _ ps] exI [of _ rs]) (auto simp: table_of_def)
next
  case (pass i s q t0)
  then show ?case using over_pending_le [of i n "Holding q" s "cmem s" "csrv s"]
    by (intro exI [of _ t] exI [of _ ps] exI [of _ rs]) (auto simp: table_of_def)
next
  case (release i s q ex)
  then show ?case using over_pending_le [of i n "Finishing q ex" s "cmem s" "db_server_release_lock (csrv s) (kind_of q)"]
    by (intro exI [of _ t] exI [of _ ps] exI [of _ rs]) (auto simp: table_of_def)
next
  case (finish i s q ex)
  then show ?case using over_pending_le [of i n "Responding q ex" s "cmem s" "db_server_metrics_query_finished (csrv s) ex"]
    by (intro exI [of _ t] exI [of _ ps] exI [of _ rs]) (auto simp: table_of_def)
next
  case (respond i s q ex)
  then show ?case using over_pending_le [of i n Idle s "cmem s" "csrv s"]
    by (intro exI [of _ t] exI [of _ ps] exI [of _ rs]) (auto simp: table_of_def)
qed

lemma holding_progress:
  assumes "i < n" "thr s i = Holding q" "table_of s t ps rs" "next_id t < INT_MAX"
  shows "\<exists>s'. query_step n s s'"
proof -
  obtain m' t' r where "sql_execute (cmem s) (Some t) (Some q) = Some (m', Some t', r)"
    using execute_outcome [of "cmem s" t ps rs q] assms(3,4) by (auto simp: table_of_def)
  then have "\<exists>m srv ex. db_server_run (cmem s) (csrv s) q (db_server_begin q) = Some (m, srv, ex)"
    using assms(3) by (simp add: db_server_run_def table_of_def)
  then show ?thesis using query_step.run [of i n s q] assms(1,2) by blast
qed

lemma waiting_progress:
  assumes "i < n" "thr s i = Waiting q t0" "lock_inv n s" "\<And>j. j < n \<Longrightarrow> lock_kind (thr s j) = DB_SERVER_QUERY_KIND_NONE"
  shows "\<exists>s'. query_step n s s'"
proof (cases "kind_of q = DB_SERVER_QUERY_KIND_NONE")
  case True
  then show ?thesis using query_step.pass assms(1,2) by blast
next
  case False
  have "over n s read_count = 0" "over n s write_count = 0" using assms(4) by (auto intro: over_zero)
  then have "rwlock_held (db_lock (csrv s)) 0 0" using assms(3) by (simp add: lock_inv_def)
  then have "snd (db_server_attempt_lock (csrv s) (kind_of q))"
    using attempt_fail [of "csrv s" 0 0 "kind_of q"] by (cases "db_server_attempt_lock (csrv s) (kind_of q)") auto
  then show ?thesis using query_step.acquire [OF assms(1,2) False] by (metis prod.collapse)
qed

lemma progress:
  assumes "lock_inv n s" "table_of s t ps rs" "next_id t + int (over n s pending) \<le> INT_MAX" "i < n" "thr s i \<noteq> Idle"
  shows "\<exists>s'. query_step n s s'"
proof (cases "\<exists>j<n. \<exists>q. thr s j = Holding q")
  case True
  then obtain j q where j: "j < n" "thr s j = Holding q" by blast
  then have "0 < over n s pending" using over_member [of j n pending s] by simp
  then show ?thesis using holding_progress [OF j assms(2)] assms(3) by simp
next
  case nohold: False
  show ?thesis
  proof (cases "\<exists>j<n. \<exists>q ex. thr s j = Executed q ex")
    case True
    then show ?thesis using query_step.release by blast
  next
    case False
    then have none: "lock_kind (thr s j) = DB_SERVER_QUERY_KIND_NONE" if "j < n" for j
      using nohold that by (cases "thr s j") auto
    show ?thesis
    proof (cases "thr s i")
      case (Waiting q t0)
      then show ?thesis using waiting_progress [OF assms(4) _ assms(1)] none by blast
    qed (use assms(4,5) nohold False in \<open>auto intro: query_step.finish query_step.respond\<close>)
  qed
qed

lemma drain:
  assumes "conc_inv n s" "n < 2 ^ 64" "table_of s t ps rs" "next_id t + int (over n s pending) \<le> INT_MAX"
  shows "\<exists>s'. (query_step n)\<^sup>*\<^sup>* s s' \<and> (\<forall>i<n. thr s' i = Idle)"
  using assms
proof (induction "over n s work" arbitrary: s t ps rs rule: less_induct)
  case less
  show ?case
  proof (cases "\<forall>i<n. thr s i = Idle")
    case False
    then obtain s1 where s1: "query_step n s s1"
      using progress [OF _ less.prems(3,4)] less.prems(1) unfolding conc_inv_def by blast
    obtain t1 ps1 rs1 where t1: "table_of s1 t1 ps1 rs1" "next_id t1 + int (over n s1 pending) \<le> INT_MAX"
      using query_room [OF s1 less.prems(3,4)] by blast
    have "conc_inv n s1" using conc_inv_step [OF db_step.query [OF s1] less.prems(1,2)] .
    from less.hyps [OF query_work [OF s1] this less.prems(2) t1] show ?thesis using s1
      by (meson converse_rtranclp_into_rtranclp)
  qed auto
qed

section \<open>A run with one query\<close>

definition conc0 :: db_conc where
  "conc0 = (let (m, srv) = db_server_init_with_config db0 (Some db_server_config_default) True True
            in \<lparr>cmem = m, csrv = the srv, thr = \<lambda>_. Idle\<rparr>)"

definition all_query :: string where
  "all_query = ''select * from users''"

lemma all_query_kind: "statement_of (cstr all_query) = SelectStatement SelectAll" "kind_of all_query = DB_SERVER_QUERY_KIND_READ"
  by code_simp+

lemma conc0_init: "db_conc_init db0 db_server_config_default conc0" "\<exists>t. srv_table (csrv conc0) = Some t \<and> next_id t = 1"
proof -
  obtain m' t where "table_create db0 = (m', Some t)" "next_id t = 1" using table_create_rep [OF db0_live] by blast
  then show "db_conc_init db0 db_server_config_default conc0" "\<exists>t. srv_table (csrv conc0) = Some t \<and> next_id t = 1"
    using db0_live by (simp_all add: db_conc_init_def conc0_def db_server_init_with_config_def)
qed

text \<open>Thread 0 of two asks for all rows and gets to hold the lock, then to its result.\<close>

lemma conc0_run:
  obtains s1 s2 ex where "(db_step 2)\<^sup>*\<^sup>* conc0 s1" "thr s1 0 = Holding all_query" "query_step 2 s1 s2"
    "thr s2 0 = Executed all_query ex" "selected (ex_result ex)" "srv_table (csrv s1) = srv_table (csrv conc0)"
proof -
  let ?w = "step_to conc0 0 (cmem conc0) (db_server_metrics_query_started (csrv conc0) (kind_of all_query)) (Waiting all_query 0)"
  have idle: "thr conc0 = (\<lambda>_. Idle)" using conc0_init(1) by (simp add: db_conc_init_def)
  then have w: "db_step 2 conc0 ?w" by (intro db_step.start) auto
  have iw: "conc_inv 2 ?w" by (rule conc_inv_step [OF w conc_inv_init [OF conc0_init(1)]]) simp
  have "lock_kind (thr ?w j) = DB_SERVER_QUERY_KIND_NONE" for j using idle by simp
  then have "rwlock_held (db_lock (csrv ?w)) 0 0"
    using iw over_zero [of 2 read_count ?w] over_zero [of 2 write_count ?w] by (simp add: conc_inv_def lock_inv_def)
  then obtain srv where srv: "db_server_attempt_lock (csrv ?w) (kind_of all_query) = (srv, True)"
    using attempt_fail [of "csrv ?w" 0 0 "kind_of all_query"] by (cases "db_server_attempt_lock (csrv ?w) (kind_of all_query)") auto
  let ?h = "step_to ?w 0 (cmem ?w) srv (Holding all_query)"
  have "query_step 2 ?w ?h" using query_step.acquire [of 0 2 ?w all_query 0 srv] srv all_query_kind(2) by simp
  then have h: "db_step 2 ?w ?h" by (rule db_step.query)
  have "conc_inv 2 ?h" by (rule conc_inv_step [OF h iw]) simp
  then obtain t ps rs where t: "srv_table srv = Some t" "table_rep (cmem ?h) t ps rs" "live_mem (cmem ?h)"
    by (auto simp: conc_inv_def table_of_def)
  then obtain m' t' r where x: "sql_execute (cmem ?h) (Some t) (Some all_query) = Some (m', Some t', r)"
    "sql_outcome (cmem ?h) t ps rs (SelectStatement SelectAll) m' t' r"
    using execute_outcome [OF t(2,3), of all_query] all_query_kind(1) by auto
  then obtain srv2 ex where r: "db_server_run (cmem ?h) (csrv ?h) all_query (db_server_begin all_query) = Some (m', srv2, ex)" "ex_result ex = r"
    using t(1) by (simp add: db_server_run_def)
  have "selected r" using x(2) by (simp add: sql_outcome_def selected_def)
  moreover have "query_step 2 ?h (step_to ?h 0 m' srv2 (Executed all_query ex))" using r(1) by (intro query_step.run) auto
  ultimately show ?thesis using that [of ?h "step_to ?h 0 m' srv2 (Executed all_query ex)" ex] w h r(2) attempt_keeps(2) [OF srv]
    by (auto intro: rtranclp.rtrancl_into_rtrancl)
qed

section \<open>Properties\<close>

text \<open>
  C26. In every state that any interleaving of the threads can reach, the lock counts exactly the threads
  that hold it for reading and for writing, the table of the server is well formed, the totals of requests and of
  errors are the sums of their categories, and the number of active queries is the number of threads with a
  query under way.
\<close>

theorem db_server_invariant:
  assumes "db_conc_init m cfg s0" "(db_step n)\<^sup>*\<^sup>* s0 s" "n < 2 ^ 64"
  shows "rwlock_held (db_lock (csrv s)) (over n s read_count) (over n s write_count) \<and>
    (\<exists>t ps rs. srv_table (csrv s) = Some t \<and> table_rep (cmem s) t ps rs \<and> live_mem (cmem s)) \<and>
    metrics_ok (metrics (csrv s)) \<and> active_query_requests (metrics (csrv s)) = of_nat (over n s counted)"
  using conc_inv_reach [OF assms(2) conc_inv_init [OF assms(1)] assms(3)]
  by (simp add: conc_inv_def lock_inv_def table_of_def count_inv_def)

theorem db_server_invariant_witness:
  "\<exists>s. (db_step 2)\<^sup>*\<^sup>* conc0 s \<and> thr s 0 = Holding all_query \<and>
     rwlock_held (db_lock (csrv s)) (over 2 s read_count) (over 2 s write_count) \<and>
     active_query_requests (metrics (csrv s)) = of_nat (over 2 s counted)"
proof -
  obtain s where s: "(db_step 2)\<^sup>*\<^sup>* conc0 s" "thr s 0 = Holding all_query" using conc0_run by metis
  from db_server_invariant [OF conc0_init(1) s(1)] show ?thesis using s by auto
qed

text \<open>
  C27. Writers are alone: while a thread is between taking the lock for writing and releasing it, no other
  thread is between taking the lock, for reading or for writing, and releasing it; so a statement that changes
  the table never overlaps one that uses it.
\<close>

theorem db_server_writer_exclusion:
  assumes "db_conc_init m cfg s0" "(db_step n)\<^sup>*\<^sup>* s0 s" "n < 2 ^ 64" "i < n" "j < n" "i \<noteq> j"
    "lock_kind (thr s i) = DB_SERVER_QUERY_KIND_WRITE"
  shows "lock_kind (thr s j) = DB_SERVER_QUERY_KIND_NONE"
proof -
  have "lock_inv n s" using conc_inv_reach [OF assms(2) conc_inv_init [OF assms(1)] assms(3)] by (simp add: conc_inv_def)
  then have "over n s write_count = 0 \<or> over n s write_count = 1 \<and> over n s read_count = 0"
    unfolding lock_inv_def by (rule db.held_exclusive)
  moreover have "1 + write_count (thr s j) \<le> over n s write_count"
    using over_two [OF assms(4-6), of write_count s] assms(7) by (simp add: write_holds_def)
  moreover have "read_count (thr s j) \<le> over n s read_count" by (rule over_member [OF assms(5)])
  ultimately show ?thesis by (cases "lock_kind (thr s j)") (auto simp: read_holds_def write_holds_def)
qed

definition insert_query :: string where
  "insert_query = ''insert into users values ('' @ quoted ''kim'' @ '', 20)''"

theorem db_server_writer_exclusion_witness:
  "\<exists>s. (db_step 2)\<^sup>*\<^sup>* conc0 s \<and> lock_kind (thr s 0) = DB_SERVER_QUERY_KIND_WRITE \<and> lock_kind (thr s 1) = DB_SERVER_QUERY_KIND_NONE"
proof -
  let ?w = "step_to conc0 0 (cmem conc0) (db_server_metrics_query_started (csrv conc0) (kind_of insert_query)) (Waiting insert_query 0)"
  have k: "kind_of insert_query = DB_SERVER_QUERY_KIND_WRITE" by code_simp
  have idle: "thr conc0 = (\<lambda>_. Idle)" using conc0_init(1) by (simp add: db_conc_init_def)
  then have w: "db_step 2 conc0 ?w" by (intro db_step.start) auto
  have "conc_inv 2 ?w" by (rule conc_inv_step [OF w conc_inv_init [OF conc0_init(1)]]) simp
  then have "rwlock_held (db_lock (csrv ?w)) 0 0"
    using over_zero [of 2 read_count ?w] over_zero [of 2 write_count ?w] idle by (simp add: conc_inv_def lock_inv_def)
  then obtain srv where srv: "db_server_attempt_lock (csrv ?w) (kind_of insert_query) = (srv, True)"
    using attempt_fail [of "csrv ?w" 0 0 "kind_of insert_query"] by (cases "db_server_attempt_lock (csrv ?w) (kind_of insert_query)") auto
  let ?h = "step_to ?w 0 (cmem ?w) srv (Holding insert_query)"
  have "query_step 2 ?w ?h" using query_step.acquire [of 0 2 ?w insert_query 0 srv] srv k by simp
  then have "(db_step 2)\<^sup>*\<^sup>* conc0 ?h" using w by (auto intro: rtranclp.rtrancl_into_rtrancl db_step.query)
  moreover from db_server_writer_exclusion [OF conc0_init(1) this, of 0 1] k
  have "lock_kind (thr ?h 1) = DB_SERVER_QUERY_KIND_NONE" by simp
  moreover have "lock_kind (thr ?h 0) = DB_SERVER_QUERY_KIND_WRITE" using k by simp
  ultimately show ?thesis by blast
qed

text \<open>
  C28. The rows of a SELECT stay what they were when it ran: although the response reads them after the
  lock was released, in every later state, whatever the other threads have inserted meanwhile, the result still
  points to the same valid records with the same contents.
\<close>

theorem db_server_results_stable:
  assumes "db_conc_init m cfg s0" "(db_step n)\<^sup>*\<^sup>* s0 s" "n < 2 ^ 64" "i < n"
    "result_of (thr s i) = Some r" "selected r"
  shows "\<exists>xs. \<forall>s'. (db_step n)\<^sup>*\<^sup>* s s' \<longrightarrow> result_rows (cmem s') r xs"
proof -
  have inv: "conc_inv n s" using conc_inv_reach [OF assms(2) conc_inv_init [OF assms(1)] assms(3)] .
  then obtain xs where xs: "result_rows (cmem s) r xs" using assms(4-6) by (auto simp: conc_inv_def results_inv_def)
  obtain t ps rs where t: "table_of s t ps rs" using inv by (auto simp: conc_inv_def)
  have "result_rows (cmem s') r xs" if "(db_step n)\<^sup>*\<^sup>* s s'" for s'
    using result_rows_le [OF xs grows_recs [OF grows_steps [OF that] t]] .
  then show ?thesis by blast
qed

theorem db_server_results_stable_witness:
  "\<exists>s r xs. (db_step 2)\<^sup>*\<^sup>* conc0 s \<and> result_of (thr s 0) = Some r \<and> selected r \<and>
     (\<forall>s'. (db_step 2)\<^sup>*\<^sup>* s s' \<longrightarrow> result_rows (cmem s') r xs)"
proof -
  obtain s1 s2 ex where s: "(db_step 2)\<^sup>*\<^sup>* conc0 s1" "query_step 2 s1 s2" "thr s2 0 = Executed all_query ex" "selected (ex_result ex)"
    using conc0_run by metis
  then have "(db_step 2)\<^sup>*\<^sup>* conc0 s2" by (auto intro: rtranclp.rtrancl_into_rtrancl db_step.query)
  from db_server_results_stable [OF conc0_init(1) this, of 0 "ex_result ex"] this s(3,4) show ?thesis
    by (intro exI [of _ s2] exI [of _ "ex_result ex"]) auto
qed

text \<open>
  C29. The threads cannot block each other for ever: from every reachable state with identifiers left,
  the queries under way, with no new one started, can only make finitely many steps, a state where none of them
  can make a step is one where all threads are idle, and such a state is reached, with the lock free and no
  active query.
\<close>

theorem db_server_no_deadlock:
  assumes "db_conc_init m cfg s0" "(db_step n)\<^sup>*\<^sup>* s0 s" "n < 2 ^ 64" "srv_table (csrv s) = Some t" "next_id t + int n \<le> INT_MAX"
  shows "wfp (\<lambda>s' s. query_step n s s') \<and>
    ((\<nexists>s'. query_step n s s') \<longrightarrow> (\<forall>i<n. thr s i = Idle)) \<and>
    (\<exists>s'. (query_step n)\<^sup>*\<^sup>* s s' \<and> (\<forall>i<n. thr s' i = Idle) \<and> rwlock_held (db_lock (csrv s')) 0 0 \<and>
       active_query_requests (metrics (csrv s')) = 0)"
proof -
  have inv: "conc_inv n s" using conc_inv_reach [OF assms(2) conc_inv_init [OF assms(1)] assms(3)] .
  then obtain ps rs where t: "table_of s t ps rs" using assms(4) by (auto simp: conc_inv_def table_of_def)
  have "pending ph \<le> 1" for ph by (cases ph) auto
  then have "over n s pending \<le> n" unfolding over_def by (rule tally_le)
  then have room: "next_id t + int (over n s pending) \<le> INT_MAX" using assms(5) by simp
  obtain s' where s': "(query_step n)\<^sup>*\<^sup>* s s'" "\<forall>i<n. thr s' i = Idle" using drain [OF inv assms(3) t room] by blast
  have inv': "conc_inv n s'" by (rule conc_inv_reach [OF query_reach [OF s'(1)] inv assms(3)])
  have z: "over n s' f = 0" if "f Idle = 0" for f using s'(2) that by (intro over_zero) simp
  have "rwlock_held (db_lock (csrv s')) 0 0" "active_query_requests (metrics (csrv s')) = 0"
    using inv' z [of read_count] z [of write_count] z [of counted] by (simp_all add: conc_inv_def lock_inv_def count_inv_def)
  moreover have "\<forall>i<n. thr s i = Idle" if "\<nexists>s'. query_step n s s'"
    using progress [OF _ t room] inv that unfolding conc_inv_def by blast
  ultimately show ?thesis using s' query_wf by blast
qed

theorem db_server_no_deadlock_witness:
  "\<exists>s s'. (db_step 2)\<^sup>*\<^sup>* conc0 s \<and> thr s 0 = Holding all_query \<and> (query_step 2)\<^sup>*\<^sup>* s s' \<and> (\<forall>i<2. thr s' i = Idle)"
proof -
  obtain s where s: "(db_step 2)\<^sup>*\<^sup>* conc0 s" "thr s 0 = Holding all_query" "srv_table (csrv s) = srv_table (csrv conc0)"
    using conc0_run by metis
  obtain t where "srv_table (csrv s) = Some t" "next_id t = 1" using s(3) conc0_init(2) by auto
  from db_server_no_deadlock [OF conc0_init(1) s(1) _ this(1)] this(2) show ?thesis using s by auto
qed

end
