(* ===== verification/DbServer_Fair.thy ===== *)
theory DbServer_Fair
  imports DbServer_Conc
begin

text \<open>
  Waiting for the lock of \<^verbatim>\<open>src/server/db_server.c\<close>. A writer polls the lock and nothing is reserved for it: readers that come later are
  let in while it waits. It is shown that two readers can overtake a writer any number of times, so that it ends with the
  time-out however short the reads are; and what the simulated delay of a statement takes.
\<close>

section \<open>Overtaking\<close>

text \<open>A step in a state where the writer \<open>w\<close> waits and would not get the lock if it polled.\<close>

definition overtaken :: "nat \<Rightarrow> nat \<Rightarrow> db_conc \<Rightarrow> db_conc \<Rightarrow> bool" where
  "overtaken n w s s' \<longleftrightarrow> db_step n s s' \<and> thr s' w = thr s w \<and> \<not> snd (db_server_attempt_lock (csrv s) DB_SERVER_QUERY_KIND_WRITE)"

lemma reader_blocks:
  assumes "conc_inv n s" "i < n" "lock_kind (thr s i) = DB_SERVER_QUERY_KIND_READ"
  shows "\<not> snd (db_server_attempt_lock (csrv s) DB_SERVER_QUERY_KIND_WRITE)"
    "\<exists>srv. db_server_attempt_lock (csrv s) DB_SERVER_QUERY_KIND_READ = (srv, True)"
proof -
  have h: "rwlock_held (db_lock (csrv s)) (over n s read_count) (over n s write_count)" using assms(1) by (simp add: conc_inv_def lock_inv_def)
  have r: "0 < over n s read_count" using over_member [OF assms(2), of read_count s] assms(3) by (simp add: read_holds_def)
  obtain srv ok where a: "db_server_attempt_lock (csrv s) DB_SERVER_QUERY_KIND_WRITE = (srv, ok)" by fastforce
  show "\<not> snd (db_server_attempt_lock (csrv s) DB_SERVER_QUERY_KIND_WRITE)"
    using attempt_ok [OF h, of DB_SERVER_QUERY_KIND_WRITE srv] a r by (cases ok) (auto simp: write_holds_def)
  obtain srv2 ok2 where b: "db_server_attempt_lock (csrv s) DB_SERVER_QUERY_KIND_READ = (srv2, ok2)" by fastforce
  have "over n s write_count = 0" using db.held_exclusive [OF h] r by auto
  then show "\<exists>srv. db_server_attempt_lock (csrv s) DB_SERVER_QUERY_KIND_READ = (srv, True)"
    using attempt_fail [OF h, of DB_SERVER_QUERY_KIND_READ srv2] b by (cases ok2) auto
qed

lemma overtakenI:
  assumes "db_step n s s'" "conc_inv n s" "i < n" "lock_kind (thr s i) = DB_SERVER_QUERY_KIND_READ" "thr s' w = thr s w"
  shows "overtaken n w s s'"
  using assms(1,5) reader_blocks(1) [OF assms(2-4)] by (simp add: overtaken_def)

text \<open>The number of queries is counted when they start.\<close>

abbreviation queries :: "db_conc \<Rightarrow> 64 word" where "queries s \<equiv> total_query_requests (metrics (csrv s))"

lemma queries_count:
  "total_query_requests (metrics (db_server_metrics_query_started srv k)) = total_query_requests (metrics srv) + 1"
  "total_query_requests (metrics (db_server_metrics_query_finished srv ex)) = total_query_requests (metrics srv)"
  "metrics (db_server_release_lock srv k) = metrics srv"
  by (simp_all add: db_server_metrics_query_started_def db_server_metrics_query_finished_def db_server_release_lock_def Let_def)

text \<open>A reader comes and takes the lock while another holds it, and only then does that one leave.\<close>

lemma relay:
  assumes "conc_inv n s" "n < 2 ^ 64" "i < n" "j < n" "i \<noteq> j" "w \<noteq> i" "w \<noteq> j" "thr s i = Holding q" "kind_of q = DB_SERVER_QUERY_KIND_READ" "thr s j = Idle"
  shows "\<exists>s'. (overtaken n w)\<^sup>*\<^sup>* s s' \<and> conc_inv n s' \<and> thr s' j = Holding q \<and> thr s' i = Idle \<and> thr s' w = thr s w \<and>
    queries s' = queries s + 1 \<and> config (csrv s') = config (csrv s)"
proof -
  have inv: "conc_inv n y" if "db_step n x y" "conc_inv n x" for x y by (rule conc_inv_step [OF that assms(2)])
  let ?s1 = "step_to s j (cmem s) (db_server_metrics_query_started (csrv s) (kind_of q)) (Waiting q 0)"
  have d1: "db_step n s ?s1" by (rule db_step.start [OF assms(4,10)])
  note i1 = inv [OF d1 assms(1)]
  have o1: "overtaken n w s ?s1" using overtakenI [OF d1 assms(1,3)] assms(7-9) by simp
  obtain srv where a: "db_server_attempt_lock (csrv ?s1) DB_SERVER_QUERY_KIND_READ = (srv, True)"
    using reader_blocks(2) [OF i1 assms(3)] assms(5,8,9) by auto
  let ?s2 = "step_to ?s1 j (cmem ?s1) srv (Holding q)"
  have d2: "db_step n ?s1 ?s2" using query_step.acquire [of j n ?s1 q 0 srv] assms(4,9) a by (intro db_step.query) simp
  note i2 = inv [OF d2 i1]
  have o2: "overtaken n w ?s1 ?s2" using overtakenI [OF d2 i1 assms(3)] assms(5,7-9) by simp
  obtain t ps rs where t: "srv_table srv = Some t" "table_rep (cmem s) t ps rs" "live_mem (cmem s)"
    using i2 by (auto simp: conc_inv_def table_of_def)
  have "kind_of q \<noteq> DB_SERVER_QUERY_KIND_WRITE" using assms(9) by simp
  then obtain m r where "sql_execute (cmem s) (Some t) (Some q) = Some (m, Some t, r)" using execute_read [OF _ t(2,3)] by blast
  then obtain srv3 ex where x: "db_server_run (cmem ?s2) (csrv ?s2) q (db_server_begin q) = Some (m, srv3, ex)" "srv3 = srv\<lparr>srv_table := Some t\<rparr>"
    using t(1) by (simp add: db_server_run_def)
  let ?s3 = "step_to ?s2 i m srv3 (Executed q ex)"
  have d3: "db_step n ?s2 ?s3" using query_step.run [OF assms(3) _ x(1)] assms(5,8) by (intro db_step.query) simp
  note i3 = inv [OF d3 i2]
  have o3: "overtaken n w ?s2 ?s3" using overtakenI [OF d3 i2 assms(4)] assms(6,9) by simp
  let ?s4 = "step_to ?s3 i (cmem ?s3) (db_server_release_lock (csrv ?s3) (kind_of q)) (Finishing q ex)"
  have d4: "db_step n ?s3 ?s4" by (intro db_step.query query_step.release assms(3)) simp
  note i4 = inv [OF d4 i3]
  have o4: "overtaken n w ?s3 ?s4" using overtakenI [OF d4 i3 assms(4)] assms(5,6,9) by simp
  let ?s5 = "step_to ?s4 i (cmem ?s4) (db_server_metrics_query_finished (csrv ?s4) ex) (Responding q ex)"
  have d5: "db_step n ?s4 ?s5" by (intro db_step.query query_step.finish assms(3)) simp
  note i5 = inv [OF d5 i4]
  have o5: "overtaken n w ?s4 ?s5" using overtakenI [OF d5 i4 assms(4)] assms(5,6,9) by simp
  let ?s6 = "step_to ?s5 i (cmem ?s5) (csrv ?s5) Idle"
  have d6: "db_step n ?s5 ?s6" by (intro db_step.query query_step.respond assms(3)) simp
  have o6: "overtaken n w ?s5 ?s6" using overtakenI [OF d6 i5 assms(4)] assms(5,6,9) by simp
  have "(overtaken n w)\<^sup>*\<^sup>* s ?s6" using o1 o2 o3 o4 o5 o6 by (meson rtranclp.rtrancl_into_rtrancl rtranclp.rtrancl_refl)
  moreover have "metrics srv = metrics (csrv ?s1)" "config srv = config (csrv s)" using attempt_keeps [OF a] by simp_all
  ultimately show ?thesis using inv [OF d6 i5] x(2) assms(5-7)
    by (intro exI [of _ ?s6]) (simp add: queries_count)
qed

lemma relays:
  assumes "conc_inv n s" "n < 2 ^ 64" "i < n" "j < n" "i \<noteq> j" "w \<noteq> i" "w \<noteq> j" "thr s i = Holding q" "kind_of q = DB_SERVER_QUERY_KIND_READ" "thr s j = Idle"
  shows "\<exists>s' i'. (overtaken n w)\<^sup>*\<^sup>* s s' \<and> conc_inv n s' \<and> i' \<in> {i, j} \<and> thr s' i' = Holding q \<and> thr s' w = thr s w \<and>
    queries s' = queries s + of_nat k"
  using assms
proof (induction k arbitrary: s i j)
  case 0
  then show ?case by (intro exI [of _ s] exI [of _ i]) simp
next
  case (Suc k)
  obtain s1 where s1: "(overtaken n w)\<^sup>*\<^sup>* s s1" "conc_inv n s1" "thr s1 j = Holding q" "thr s1 i = Idle" "thr s1 w = thr s w"
    "queries s1 = queries s + 1" using relay [OF Suc.prems] by blast
  obtain s' i' where s': "(overtaken n w)\<^sup>*\<^sup>* s1 s'" "conc_inv n s'" "i' \<in> {j, i}" "thr s' i' = Holding q" "thr s' w = thr s1 w"
    "queries s' = queries s1 + of_nat k"
    using Suc.IH [of s1 j i] s1(2-4) Suc.prems by metis
  moreover have "(overtaken n w)\<^sup>*\<^sup>* s s'" using s1(1) s'(1) by (rule rtranclp_trans)
  ultimately show ?case using s1(5,6) by (intro exI [of _ s'] exI [of _ i']) (auto simp: algebra_simps)
qed

section \<open>The simulated delay\<close>

text \<open>
  The calls of \<^verbatim>\<open>nanosleep\<close> in \<^verbatim>\<open>platform_sleep_ms\<close>: each sleeps to the end, is interrupted by a signal with so many nanoseconds left, or
  fails. The result is the time slept, in nanoseconds, and \<open>None\<close> if the list of calls ends while the loop still runs.
\<close>

datatype nanosleep_call =
    Slept
  | Interrupted nat
  | SleepError

fun sleep_calls :: "nat \<Rightarrow> nanosleep_call list \<Rightarrow> nat option" where
  "sleep_calls duration [] = None"
| "sleep_calls duration (Slept # calls) = Some duration"
| "sleep_calls duration (SleepError # calls) = Some 0"
| "sleep_calls duration (Interrupted left # calls) = map_option (\<lambda>t. (duration - left) + t) (sleep_calls left calls)"

definition platform_sleep_ms :: "32 word \<Rightarrow> nanosleep_call list \<Rightarrow> nat option" where
  "platform_sleep_ms milliseconds calls =
     (case platform_sleep_duration milliseconds of (sec, nsec) \<Rightarrow> sleep_calls (unat sec * 10 ^ 9 + unat nsec) calls)"

definition db_server_apply_simulated_delay :: "DBServer \<Rightarrow> DBServerQueryKind \<Rightarrow> nanosleep_call list \<Rightarrow> nat option" where
  "db_server_apply_simulated_delay server query_kind calls =
     (if query_kind = DB_SERVER_QUERY_KIND_WRITE \<and> 0 < simulate_write_delay_ms (config server) then
        platform_sleep_ms (simulate_write_delay_ms (config server)) calls
      else if query_kind = DB_SERVER_QUERY_KIND_READ \<and> 0 < simulate_read_delay_ms (config server) then
        platform_sleep_ms (simulate_read_delay_ms (config server)) calls
      else Some 0)"

text \<open>Calls that do not fail, where no interruption leaves more than there was.\<close>

fun sleeps :: "nat \<Rightarrow> nanosleep_call list \<Rightarrow> bool" where
  "sleeps duration (Interrupted left # calls) \<longleftrightarrow> left \<le> duration \<and> sleeps left calls"
| "sleeps duration (SleepError # calls) = False"
| "sleeps duration _ = True"

lemma sleep_calls_total: "sleeps d calls \<Longrightarrow> sleep_calls d calls = Some t \<Longrightarrow> t = d"
  by (induction d calls arbitrary: t rule: sleep_calls.induct) auto

text \<open>However often it is interrupted, the sleep lasts as long as was asked.\<close>

lemma sleep_ms_total:
  assumes "sleeps (unat milliseconds * 10 ^ 6) calls" "platform_sleep_ms milliseconds calls = Some t"
  shows "t = unat milliseconds * 10 ^ 6"
proof -
  let ?n = "ucast (milliseconds mod 1000) :: 64 word"
  have n: "unat ?n = unat milliseconds mod 1000" by (simp add: unsigned_ucast_eq unat_mod take_bit_nat_eq_self)
  moreover have ms: "x div 1000 * 1000000000 + x mod 1000 * 1000000 = x * 1000000" for x :: nat
    using div_mult_mod_eq [of x 1000] by linarith
  ultimately have "unat (?n * 1000000) = unat milliseconds mod 1000 * 1000000" by (simp add: unat_word_ariths)
  then have "unat (milliseconds div 1000) * 10 ^ 9 + unat (?n * 1000000) = unat milliseconds * 10 ^ 6"
    by (simp add: unat_div ms)
  then show ?thesis using assms sleep_calls_total by (simp add: platform_sleep_ms_def platform_sleep_duration_def)
qed

section \<open>Properties\<close>

text \<open>
  C30. A writer can be overtaken for ever: when two threads read in turn, each taking the lock before the other releases it, any
  number of reads that come after the writer are served while it waits, no poll of the writer in between gets the lock,
  and once its time is over the writer ends with the time-out.
\<close>

theorem db_server_writer_starves:
  assumes "db_conc_init m cfg s0" "(db_step n)\<^sup>*\<^sup>* s0 s" "n < 2 ^ 64" "i < n" "j < n" "w < n" "i \<noteq> j" "w \<noteq> i" "w \<noteq> j"
    "thr s i = Holding q" "kind_of q = DB_SERVER_QUERY_KIND_READ" "thr s j = Idle" "thr s w = Waiting u t0" "kind_of u = DB_SERVER_QUERY_KIND_WRITE"
  shows "\<exists>s'. (overtaken n w)\<^sup>*\<^sup>* s s' \<and> thr s' w = Waiting u t0 \<and>
    total_query_requests (metrics (csrv s')) = total_query_requests (metrics (csrv s)) + of_nat k \<and>
    (\<forall>now. db_server_lock_expired (csrv s') t0 now \<longrightarrow>
       (\<exists>s''. db_step n s' s'' \<and> thr s'' w = Finishing u (lock_timeout_execution (db_server_begin u))))"
proof -
  have "conc_inv n s" by (rule conc_inv_reach [OF assms(2) conc_inv_init [OF assms(1)] assms(3)])
  from relays [OF this assms(3-5,7-12), of k] obtain s' i' where s': "(overtaken n w)\<^sup>*\<^sup>* s s'" "conc_inv n s'" "i' \<in> {i, j}" "thr s' i' = Holding q"
    "thr s' w = thr s w" "queries s' = queries s + of_nat k" by blast
  have "i' < n" using s'(3) assms(4,5) by auto
  then have "\<not> snd (db_server_attempt_lock (csrv s') DB_SERVER_QUERY_KIND_WRITE)" using reader_blocks(1) [OF s'(2)] s'(4) assms(11) by simp
  then obtain srv where a: "db_server_attempt_lock (csrv s') (kind_of u) = (srv, False)"
    using assms(14) by (cases "db_server_attempt_lock (csrv s') DB_SERVER_QUERY_KIND_WRITE") auto
  have e: "db_server_lock_expired srv = db_server_lock_expired (csrv s')" by (rule expired_config [OF attempt_keeps(1) [OF a]])
  have "\<exists>s''. db_step n s' s'' \<and> thr s'' w = Finishing u (lock_timeout_execution (db_server_begin u))" if "db_server_lock_expired (csrv s') t0 now" for now
    using query_step.expire [OF assms(6) _ _ a, of t0 now] s'(5) assms(13,14) that e by (fastforce intro: db_step.query)
  then show ?thesis using s'(1,5,6) assms(13) by auto
qed

text \<open>Of three threads, one reads, one waits to write, and one is idle.\<close>

lemma contended:
  "\<exists>s. (db_step 3)\<^sup>*\<^sup>* conc0 s \<and> thr s 0 = Holding all_query \<and> thr s 1 = Idle \<and> thr s 2 = Waiting insert_query 0"
proof -
  let ?w = "step_to conc0 0 (cmem conc0) (db_server_metrics_query_started (csrv conc0) (kind_of all_query)) (Waiting all_query 0)"
  have idle: "thr conc0 = (\<lambda>_. Idle)" using conc0_init(1) by (simp add: db_conc_init_def)
  then have w: "db_step 3 conc0 ?w" by (intro db_step.start) auto
  have iw: "conc_inv 3 ?w" by (rule conc_inv_step [OF w conc_inv_init [OF conc0_init(1)]]) simp
  have "lock_kind (thr ?w j) = DB_SERVER_QUERY_KIND_NONE" for j using idle by simp
  then have "rwlock_held (db_lock (csrv ?w)) 0 0"
    using iw over_zero [of 3 read_count ?w] over_zero [of 3 write_count ?w] by (simp add: conc_inv_def lock_inv_def)
  then obtain srv where srv: "db_server_attempt_lock (csrv ?w) (kind_of all_query) = (srv, True)"
    using attempt_fail [of "csrv ?w" 0 0 "kind_of all_query"] by (cases "db_server_attempt_lock (csrv ?w) (kind_of all_query)") auto
  let ?h = "step_to ?w 0 (cmem ?w) srv (Holding all_query)"
  have "query_step 3 ?w ?h" using query_step.acquire [of 0 3 ?w all_query 0 srv] srv all_query_kind(2) by simp
  then have h: "db_step 3 ?w ?h" by (rule db_step.query)
  let ?s = "step_to ?h 2 (cmem ?h) (db_server_metrics_query_started (csrv ?h) (kind_of insert_query)) (Waiting insert_query 0)"
  have "db_step 3 ?h ?s" using idle by (intro db_step.start) auto
  then have "(db_step 3)\<^sup>*\<^sup>* conc0 ?s" using w h by (meson rtranclp.rtrancl_into_rtrancl rtranclp.rtrancl_refl)
  then show ?thesis using idle by (intro exI [of _ ?s]) simp
qed

theorem db_server_writer_starves_witness:
  "\<exists>s s'. (db_step 3)\<^sup>*\<^sup>* conc0 s \<and> (overtaken 3 2)\<^sup>*\<^sup>* s s' \<and> thr s' 2 = Waiting insert_query 0 \<and>
     total_query_requests (metrics (csrv s')) = total_query_requests (metrics (csrv s)) + 1000000"
proof -
  obtain s where s: "(db_step 3)\<^sup>*\<^sup>* conc0 s" "thr s 0 = Holding all_query" "thr s 1 = Idle" "thr s 2 = Waiting insert_query 0"
    using contended by blast
  have k: "kind_of insert_query = DB_SERVER_QUERY_KIND_WRITE" by code_simp
  from db_server_writer_starves [OF conc0_init(1) s(1), of 0 1 2 all_query insert_query 0 1000000] show ?thesis
    using s k all_query_kind(2) by auto
qed

end
