(* ===== verification/RequestQueue.thy ===== *)
theory RequestQueue
  imports CPrelude "HOL-Library.Word"
begin

text \<open>
  The request queue of \<^verbatim>\<open>src/server/http_server.c\<close>: a ring buffer of client sockets between the accepting thread and
  the workers. Its functions run under the mutex of the queue and are atomic here; the wait of
  \<^verbatim>\<open>http_request_queue_pop\<close> on the condition variable is its guard \<open>http_request_queue_waits\<close>, and the wake-ups are in
  the theory of the worker pool. Sizes are 64-bit words, and the cells of the array are indeterminate until
  written. The locale \<open>bounded_fifo\<close> is the contract of a bounded queue, \<open>closing_fifo\<close> extends it by the shutdown and runs any sequence
  of operations against a list; the ring buffer is an instance of both as long as the size of the array fits.
\<close>

section \<open>Operations\<close>

abbreviation (input) HTTP_INVALID_SOCKET :: int where "HTTP_INVALID_SOCKET \<equiv> -1"

record HTTPRequestQueue =
  items :: "int option list"
  q_head :: "64 word"
  q_tail :: "64 word"
  q_count :: "64 word"
  q_capacity :: "64 word"
  shutting_down :: bool

text \<open>
  \<open>malloc_ok\<close>, \<open>mutex_ok\<close> and \<open>cond_ok\<close> tell whether the three resources could be obtained. The array has the number of
  cells that fit into \<^verbatim>\<open>sizeof(int) * capacity\<close> bytes, a product that wraps.
\<close>

definition http_request_queue_init :: "64 word \<Rightarrow> bool \<Rightarrow> bool \<Rightarrow> bool \<Rightarrow> HTTPRequestQueue option" where
  "http_request_queue_init capacity malloc_ok mutex_ok cond_ok =
     (if capacity = 0 then None
      else if \<not> malloc_ok then None
      else if \<not> mutex_ok then None
      else if \<not> cond_ok then None
      else Some \<lparr>items = replicate (unat (4 * capacity) div 4) None, q_head = 0, q_tail = 0, q_count = 0,
                 q_capacity = capacity, shutting_down = False\<rparr>)"

definition http_request_queue_shutdown :: "HTTPRequestQueue \<Rightarrow> HTTPRequestQueue" where
  "http_request_queue_shutdown queue = queue\<lparr>shutting_down := True\<rparr>"

definition http_request_queue_push :: "HTTPRequestQueue \<Rightarrow> int \<Rightarrow> (HTTPRequestQueue \<times> bool) option" where
  "http_request_queue_push queue client_socket =
     (if \<not> shutting_down queue \<and> q_count queue < q_capacity queue then do {
        its \<leftarrow> arr_set (items queue) (unat (q_tail queue)) (Some client_socket);
        Some (queue\<lparr>items := its, q_tail := (q_tail queue + 1) mod q_capacity queue, q_count := q_count queue + 1\<rparr>, True)
      } else Some (queue, False))"

definition http_request_queue_waits :: "HTTPRequestQueue \<Rightarrow> bool" where
  "http_request_queue_waits queue = (q_count queue = 0 \<and> \<not> shutting_down queue)"

definition http_request_queue_pop :: "HTTPRequestQueue \<Rightarrow> (HTTPRequestQueue \<times> int) option" where
  "http_request_queue_pop queue =
     (if 0 < q_count queue then do {
        client_socket \<leftarrow> tmp_get (items queue) (unat (q_head queue));
        Some (queue\<lparr>q_head := (q_head queue + 1) mod q_capacity queue, q_count := q_count queue - 1\<rparr>, client_socket)
      } else Some (queue, HTTP_INVALID_SOCKET))"

section \<open>The contract of a bounded queue\<close>

text \<open>
  The operations of the threads on the queue, one at a time, and their results: a push tells whether the element was taken; a pop gives an element,
  or waits; a shutdown.
\<close>

datatype 'e queue_op = Push 'e | Pop | Shutdown

datatype 'e queue_result = Pushed bool | Popped 'e | Waiting | Down

fun queue_run ::
  "('q \<Rightarrow> 'e \<Rightarrow> ('q \<times> bool) option) \<Rightarrow> ('q \<Rightarrow> ('q \<times> 'e) option) \<Rightarrow> ('q \<Rightarrow> bool) \<Rightarrow> ('q \<Rightarrow> 'q) \<Rightarrow>
   'q \<Rightarrow> 'e queue_op list \<Rightarrow> ('q \<times> 'e queue_result list) option" where
  "queue_run push pop waits close q [] = Some (q, [])"
| "queue_run push pop waits close q (Push x # ops) = do {
     (q, ok) \<leftarrow> push q x;
     (q, rs) \<leftarrow> queue_run push pop waits close q ops;
     Some (q, Pushed ok # rs)
   }"
| "queue_run push pop waits close q (Pop # ops) =
     (if waits q then do {
        (q, rs) \<leftarrow> queue_run push pop waits close q ops;
        Some (q, Waiting # rs)
      } else do {
        (q, x) \<leftarrow> pop q;
        (q, rs) \<leftarrow> queue_run push pop waits close q ops;
        Some (q, Popped x # rs)
      })"
| "queue_run push pop waits close q (Shutdown # ops) = do {
     (q, rs) \<leftarrow> queue_run push pop waits close (close q) ops;
     Some (q, Down # rs)
   }"

text \<open>The same operations on a list that holds at most \<open>c\<close> elements; \<open>none\<close> is what an empty queue gives after the shutdown.\<close>

fun fifo_run :: "'e \<Rightarrow> nat \<Rightarrow> bool \<Rightarrow> 'e list \<Rightarrow> 'e queue_op list \<Rightarrow> bool \<times> 'e list \<times> 'e queue_result list" where
  "fifo_run none c d xs [] = (d, xs, [])"
| "fifo_run none c d xs (Push x # ops) =
     (let ok = (\<not> d \<and> length xs < c); (d, ys, rs) = fifo_run none c d (if ok then xs @ [x] else xs) ops in (d, ys, Pushed ok # rs))"
| "fifo_run none c d xs (Pop # ops) =
     (let (d', ys, rs) = fifo_run none c d (tl xs) ops
      in (d', ys, (case xs of x # _ \<Rightarrow> Popped x | [] \<Rightarrow> if d then Popped none else Waiting) # rs))"
| "fifo_run none c d xs (Shutdown # ops) = (let (d', ys, rs) = fifo_run none c True xs ops in (d', ys, Down # rs))"

locale bounded_fifo =
  fixes push :: "'q \<Rightarrow> 'e \<Rightarrow> ('q \<times> bool) option"
    and pop :: "'q \<Rightarrow> ('q \<times> 'e) option"
    and repr :: "'q \<Rightarrow> nat \<Rightarrow> bool \<Rightarrow> 'e list \<Rightarrow> bool"
  assumes repr_bound: "repr q c d xs \<Longrightarrow> length xs \<le> c"
    and push_room: "repr q c False xs \<Longrightarrow> length xs < c \<Longrightarrow> \<exists>q'. push q x = Some (q', True) \<and> repr q' c False (xs @ [x])"
    and push_refuse: "repr q c d xs \<Longrightarrow> d \<or> length xs = c \<Longrightarrow> push q x = Some (q, False)"
    and pop_first: "repr q c d (x # xs) \<Longrightarrow> \<exists>q'. pop q = Some (q', x) \<and> repr q' c d xs"
begin

lemma push_cases:
  assumes "repr q c d xs"
  obtains (Pushed) q' where "push q x = Some (q', True)" "\<not> d" "length xs < c" "repr q' c d (xs @ [x])"
  | (Refused) "push q x = Some (q, False)" "d \<or> length xs = c"
  using assms repr_bound [OF assms] push_room [of q c xs x] push_refuse [OF assms, of x] by (cases d; cases "length xs = c") auto

end

text \<open>A queue that can be closed: it refuses from then on, and gives \<open>none\<close> when it is empty, where it let the caller wait before.\<close>

locale closing_fifo = bounded_fifo push pop repr
  for push :: "'q \<Rightarrow> 'e \<Rightarrow> ('q \<times> bool) option"
    and pop :: "'q \<Rightarrow> ('q \<times> 'e) option"
    and repr :: "'q \<Rightarrow> nat \<Rightarrow> bool \<Rightarrow> 'e list \<Rightarrow> bool" +
  fixes waits :: "'q \<Rightarrow> bool"
    and close :: "'q \<Rightarrow> 'q"
    and none :: 'e
  assumes waits_iff: "repr q c d xs \<Longrightarrow> waits q \<longleftrightarrow> xs = [] \<and> \<not> d"
    and close_repr: "repr q c d xs \<Longrightarrow> repr (close q) c True xs"
    and pop_empty: "repr q c d [] \<Longrightarrow> pop q = Some (q, none)"
begin

lemma run_repr:
  assumes "repr q c d xs"
  shows "\<exists>q'. case fifo_run none c d xs ops of (d', ys, rs) \<Rightarrow> queue_run push pop waits close q ops = Some (q', rs) \<and> repr q' c d' ys"
  using assms
proof (induction ops arbitrary: q d xs)
  case (Cons x ops)
  show ?case
  proof (cases x)
    case (Push y)
    show ?thesis
    proof (rule push_cases [OF Cons.prems, of y])
      fix q' assume p: "push q y = Some (q', True)" "\<not> d" "length xs < c" "repr q' c d (xs @ [y])"
      then show ?thesis using Cons.IH [OF p(4)] Push by (auto simp: Let_def split: prod.splits)
    next
      assume p: "push q y = Some (q, False)" "d \<or> length xs = c"
      then show ?thesis using Cons.IH [OF Cons.prems] Push by (auto simp: Let_def split: prod.splits)
    qed
  next
    case Pop
    show ?thesis
    proof (cases xs)
      case Nil
      then show ?thesis using Cons.IH [OF Cons.prems] Pop waits_iff [OF Cons.prems] pop_empty Cons.prems by (auto simp: Let_def split: prod.splits)
    next
      case (Cons y ys)
      then obtain q' where p: "pop q = Some (q', y)" "repr q' c d ys" using pop_first Cons.prems by blast
      then show ?thesis using Cons.IH [OF p(2)] Pop Cons waits_iff [OF Cons.prems] by (auto simp: Let_def split: prod.splits)
    qed
  next
    case Shutdown
    then show ?thesis using Cons.IH [OF close_repr [OF Cons.prems]] by (auto simp: Let_def split: prod.splits)
  qed
qed simp

end

section \<open>The ring buffer as a bounded queue\<close>

definition queue_rep :: "HTTPRequestQueue \<Rightarrow> nat \<Rightarrow> bool \<Rightarrow> int list \<Rightarrow> bool" where
  "queue_rep q c d xs \<longleftrightarrow>
     unat (q_capacity q) = c \<and> 0 < c \<and> c < 2 ^ 62 \<and> length (items q) = c \<and> unat (q_head q) < c \<and>
     unat (q_count q) = length xs \<and> length xs \<le> c \<and> unat (q_tail q) = (unat (q_head q) + length xs) mod c \<and>
     shutting_down q = d \<and> (\<forall>i < length xs. items q ! ((unat (q_head q) + i) mod c) = Some (xs ! i))"

lemma ring_mod: "h < c \<Longrightarrow> i \<le> c \<Longrightarrow> (h + i) mod c = (if h + i < c then h + i else h + i - c)" for h c i :: nat
  by (simp add: le_mod_geq)

lemma unat_suc_mod: "unat w < 2 ^ 62 \<Longrightarrow> unat ((w + 1) mod c) = (unat w + 1) mod unat c" for w c :: "64 word"
  by (simp add: unat_mod unat_word_ariths)

lemma queue_push:
  assumes "queue_rep q c False xs" "length xs < c"
  shows "\<exists>q'. http_request_queue_push q x = Some (q', True) \<and> queue_rep q' c False (xs @ [x])"
proof -
  let ?h = "unat (q_head q)" let ?t = "unat (q_tail q)"
  have r: "unat (q_capacity q) = c" "0 < c" "c < 2 ^ 62" "length (items q) = c" "?h < c" "unat (q_count q) = length xs"
    "?t = (?h + length xs) mod c" "\<not> shutting_down q" "\<forall>i < length xs. items q ! ((?h + i) mod c) = Some (xs ! i)"
    using assms(1) by (simp_all add: queue_rep_def)
  let ?q = "q\<lparr>items := (items q)[?t := Some x], q_tail := (q_tail q + 1) mod q_capacity q, q_count := q_count q + 1\<rparr>"
  have t: "?t < c" using r(2,7) by simp
  have "q_count q < q_capacity q" using r(1,6) assms(2) by (simp add: word_less_nat_alt)
  then have push: "http_request_queue_push q x = Some (?q, True)" using r(4,8) t by (simp add: http_request_queue_push_def)
  have "unat (q_count q + 1) = Suc (length xs)" using r(3,6) assms(2) by (simp add: unat_word_ariths)
  moreover have "unat ((q_tail q + 1) mod q_capacity q) = (?h + Suc (length xs)) mod c"
    using unat_suc_mod [of "q_tail q" "q_capacity q"] t r(1,3,7) by (simp add: mod_Suc_eq)
  moreover have "(items q)[?t := Some x] ! ((?h + i) mod c) = Some ((xs @ [x]) ! i)" if "i < Suc (length xs)" for i
  proof (cases "i = length xs")
    case True
    then show ?thesis using r(4,7) t by simp
  next
    case False
    then have "(?h + i) mod c \<noteq> ?t" using that r(5,7) assms(2) by (auto simp: ring_mod split: if_splits)
    then show ?thesis using r(9) that False by (simp add: nth_append)
  qed
  ultimately have "queue_rep ?q c False (xs @ [x])" using r assms(2) by (simp add: queue_rep_def)
  then show ?thesis using push by blast
qed

lemma queue_pop:
  assumes "queue_rep q c d (x # xs)"
  shows "\<exists>q'. http_request_queue_pop q = Some (q', x) \<and> queue_rep q' c d xs"
proof -
  let ?h = "unat (q_head q)"
  have r: "unat (q_capacity q) = c" "0 < c" "c < 2 ^ 62" "length (items q) = c" "?h < c" "unat (q_count q) = Suc (length xs)"
    "unat (q_tail q) = (?h + Suc (length xs)) mod c" "\<forall>i < Suc (length xs). items q ! ((?h + i) mod c) = Some ((x # xs) ! i)"
    using assms by (simp_all add: queue_rep_def)
  let ?q = "q\<lparr>q_head := (q_head q + 1) mod q_capacity q, q_count := q_count q - 1\<rparr>"
  have "items q ! ?h = Some x" using r(5,8) by (metis add_0_right mod_less nth_Cons_0 zero_less_Suc)
  moreover have "0 < q_count q" using r(6) by (simp add: word_less_nat_alt)
  ultimately have pop: "http_request_queue_pop q = Some (?q, x)" using r(4,5) by (simp add: http_request_queue_pop_def tmp_get_def)
  have h: "unat ((q_head q + 1) mod q_capacity q) = Suc ?h mod c" using unat_suc_mod [of "q_head q" "q_capacity q"] r(1,3,5) by simp
  have "q_count q \<noteq> 0" using \<open>0 < q_count q\<close> by simp
  then have "unat (q_count q - 1) = length xs" using r(6) by (simp add: unat_minus_one)
  moreover have "items q ! ((Suc ?h mod c + i) mod c) = Some (xs ! i)" if "i < length xs" for i
    using r(8) [rule_format, of "Suc i"] that by (simp add: mod_add_left_eq)
  ultimately have "queue_rep ?q c d xs" using r assms h by (simp add: queue_rep_def mod_add_left_eq)
  then show ?thesis using pop by blast
qed

lemma queue_refuse:
  assumes "queue_rep q c d xs" "d \<or> length xs = c"
  shows "http_request_queue_push q x = Some (q, False)"
  using assms by (auto simp: queue_rep_def http_request_queue_push_def word_less_nat_alt)

interpretation rq: bounded_fifo http_request_queue_push http_request_queue_pop queue_rep
proof unfold_locales
  show "length xs \<le> c" if "queue_rep q c d xs" for q c d xs using that by (simp add: queue_rep_def)
qed (fact queue_push queue_refuse queue_pop)+

lemma queue_init_rep:
  assumes "0 < capacity" "unat capacity < 2 ^ 62"
  shows "\<exists>q. http_request_queue_init capacity True True True = Some q \<and> queue_rep q (unat capacity) False []"
proof -
  have "unat (4 * capacity) = 4 * unat capacity" using assms(2) by (simp add: unat_word_ariths)
  then show ?thesis using assms by (auto simp: http_request_queue_init_def queue_rep_def word_less_nat_alt)
qed

lemma queue_rep_shutdown: "queue_rep q c d xs \<Longrightarrow> queue_rep (http_request_queue_shutdown q) c True xs"
  by (simp add: queue_rep_def http_request_queue_shutdown_def)

lemma queue_rep_waits: "queue_rep q c d xs \<Longrightarrow> http_request_queue_waits q \<longleftrightarrow> xs = [] \<and> \<not> d"
  by (auto simp: queue_rep_def http_request_queue_waits_def unat_eq_zero)

lemma queue_pop_empty: "queue_rep q c d [] \<Longrightarrow> http_request_queue_pop q = Some (q, HTTP_INVALID_SOCKET)"
  by (auto simp: queue_rep_def http_request_queue_pop_def unat_eq_zero)

interpretation rc: closing_fifo http_request_queue_push http_request_queue_pop queue_rep
  http_request_queue_waits http_request_queue_shutdown HTTP_INVALID_SOCKET
  by unfold_locales (fact queue_rep_waits queue_rep_shutdown queue_pop_empty)+

section \<open>Properties\<close>

text \<open>
  C31. The ring buffer is a bounded first-in first-out queue: started with a capacity above zero and below two to the sixty-second, for any
  sequence of pushes, pops and shutdowns in any order, however often the indices go around the array, no operation reads or writes outside it or
  reads a cell that was not written, and all results are those of a list of at most that many elements: a push is refused exactly when the list is full or the queue
  was shut down, and then has no effect; a pop gives the element that was pushed first of those left; on an empty queue it waits, or gives
  the invalid socket after a shutdown. In the end the ring holds the elements of the list.
\<close>

theorem http_request_queue_fifo:
  assumes "0 < capacity" "unat capacity < 2 ^ 62"
  shows "\<exists>q q'. http_request_queue_init capacity True True True = Some q \<and>
    (case fifo_run HTTP_INVALID_SOCKET (unat capacity) False [] ops of (d, xs, results) \<Rightarrow>
       queue_run http_request_queue_push http_request_queue_pop http_request_queue_waits http_request_queue_shutdown q ops = Some (q', results) \<and>
       queue_rep q' (unat capacity) d xs)"
proof -
  obtain q where q: "http_request_queue_init capacity True True True = Some q" "queue_rep q (unat capacity) False []"
    using queue_init_rep [OF assms] by blast
  from rc.run_repr [OF q(2), of ops] obtain q' where
    "case fifo_run HTTP_INVALID_SOCKET (unat capacity) False [] ops of (d, xs, results) \<Rightarrow>
       queue_run http_request_queue_push http_request_queue_pop http_request_queue_waits http_request_queue_shutdown q ops = Some (q', results) \<and>
       queue_rep q' (unat capacity) d xs" ..
  with q(1) show ?thesis by (intro exI conjI)
qed

theorem http_request_queue_fifo_witness:
  "\<exists>q q'. http_request_queue_init 2 True True True = Some q \<and>
    queue_run http_request_queue_push http_request_queue_pop http_request_queue_waits http_request_queue_shutdown q
      [Push 7, Push 8, Push 9, Pop, Push 10, Pop, Pop, Pop, Shutdown, Pop] =
      Some (q', [Pushed True, Pushed True, Pushed False, Popped 7, Pushed True, Popped 8, Popped 10, Waiting, Down, Popped (- 1)])"
proof -
  let ?ops = "[Push 7, Push 8, Push 9, Pop, Push 10, Pop, Pop, Pop, Shutdown, Pop] :: int queue_op list"
  have f: "fifo_run HTTP_INVALID_SOCKET (unat (2 :: 64 word)) False [] ?ops =
      (True, [], [Pushed True, Pushed True, Pushed False, Popped 7, Pushed True, Popped 8, Popped 10, Waiting, Down, Popped (- 1)])"
    by code_simp
  have "0 < (2 :: 64 word)" "unat (2 :: 64 word) < 2 ^ 62" by simp_all
  from http_request_queue_fifo [OF this, of ?ops] show ?thesis unfolding f by auto
qed

text \<open>
  The size of the array is computed without a check: for a capacity of two to the sixty-second plus
  one, which the command line accepts, the product wraps to the size of one cell, the queue still believes in
  the full capacity, and the second socket that is pushed is written behind the array.
\<close>

theorem http_request_queue_size_wraps:
  "\<exists>q q1. http_request_queue_init 4611686018427387905 True True True = Some q \<and> length (items q) = 1 \<and>
     http_request_queue_push q s1 = Some (q1, True) \<and> http_request_queue_push q1 s2 = None"
proof -
  let ?c = "4611686018427387905 :: 64 word"
  have "4 * ?c = 4" by simp
  then have c: "unat (4 * ?c) div 4 = 1" "?c \<noteq> 0" by simp_all
  have d: "(0 + 1) mod ?c = 1" by (simp only: word_unat_eq_iff unat_mod) simp
  let ?q = "\<lparr>items = [None], q_head = 0, q_tail = 0, q_count = 0, q_capacity = ?c, shutting_down = False\<rparr>"
  let ?q1 = "?q\<lparr>items := [Some s1], q_tail := 1, q_count := 1\<rparr>"
  have "http_request_queue_init ?c True True True = Some ?q" using c(1,2) by (simp only: http_request_queue_init_def) simp
  moreover have "http_request_queue_push ?q s1 = Some (?q1, True)" using d by (simp add: http_request_queue_push_def arr_set_def)
  moreover have "http_request_queue_push ?q1 s2 = None" by (simp add: http_request_queue_push_def arr_set_def)
  ultimately show ?thesis by (intro exI [of _ ?q] exI [of _ ?q1]) simp
qed

end
