(* ===== verification/WorkerPool.thy ===== *)
theory WorkerPool
  imports RequestQueue Tally "HOL-Library.Multiset"
begin

text \<open>
  The threads of \<^verbatim>\<open>src/server/http_server.c\<close>: the accepting loop of \<^verbatim>\<open>http_server_run\<close>, the workers of
  \<^verbatim>\<open>http_server_worker_main\<close>, and the shutdown. A worker is about to pop, asleep on the condition variable, handling a
  client, or gone. A push signals one sleeper, if there is one; the shutdown wakes all of them; a sleeper may
  also wake for no reason. What a worker does for its client is one action that ends with the closed socket. The lists of accepted and of
  closed sockets are history, for stating what happens to each connection.
\<close>

section \<open>State\<close>

record HTTPServerOptions =
  opt_port :: "16 word"
  opt_worker_count :: "64 word"
  opt_queue_capacity :: "64 word"
  opt_lock_timeout_ms :: "32 word"
  opt_simulate_read_delay_ms :: "32 word"
  opt_simulate_write_delay_ms :: "32 word"
  opt_max_requests :: "32 word"

definition http_server_options_default :: HTTPServerOptions where
  "http_server_options_default = \<lparr>opt_port = 8080, opt_worker_count = 4, opt_queue_capacity = 16, opt_lock_timeout_ms = 1000,
     opt_simulate_read_delay_ms = 0, opt_simulate_write_delay_ms = 0, opt_max_requests = 0\<rparr>"

record HTTPServerContext =
  options :: HTTPServerOptions
  completed_responses :: "64 word"
  http_server_stop_requested :: bool

definition http_server_request_stop :: "'a HTTPServerContext_scheme \<Rightarrow> 'a HTTPServerContext_scheme" where
  "http_server_request_stop context = context\<lparr>http_server_stop_requested := True\<rparr>"

definition http_server_should_stop :: "'a HTTPServerContext_scheme \<Rightarrow> bool" where
  "http_server_should_stop context = http_server_stop_requested context"

definition http_server_note_response_complete :: "'a HTTPServerContext_scheme \<Rightarrow> 'a HTTPServerContext_scheme" where
  "http_server_note_response_complete context =
     (let context = context\<lparr>completed_responses := completed_responses context + 1\<rparr>
      in if 0 < opt_max_requests (options context) \<and> ucast (opt_max_requests (options context)) \<le> completed_responses context
         then http_server_request_stop context else context)"

datatype worker =
    Popping
  | Asleep
  | Handling int
  | Exited

record server_pool = HTTPServerContext +
  queue :: HTTPRequestQueue
  workers :: "nat \<Rightarrow> worker"
  listening :: bool
  accepted :: "int list"
  closed :: "int list"

definition wake_all :: "(nat \<Rightarrow> worker) \<Rightarrow> nat \<Rightarrow> worker" where
  "wake_all ws i = (if ws i = Asleep then Popping else ws i)"

text \<open>The steps of the workers: \<open>http_server_worker_main\<close> and \<open>http_request_queue_pop\<close>.\<close>

inductive worker_step :: "nat \<Rightarrow> server_pool \<Rightarrow> server_pool \<Rightarrow> bool" for n where
  sleep: "\<lbrakk>i < n; workers s i = Popping; http_request_queue_waits (queue s)\<rbrakk> \<Longrightarrow>
    worker_step n s (s\<lparr>workers := (workers s)(i := Asleep)\<rparr>)"
| take: "\<lbrakk>i < n; workers s i = Popping; \<not> http_request_queue_waits (queue s);
     http_request_queue_pop (queue s) = Some (q, c); c \<noteq> HTTP_INVALID_SOCKET\<rbrakk> \<Longrightarrow>
    worker_step n s (s\<lparr>queue := q, workers := (workers s)(i := Handling c)\<rparr>)"
| leave: "\<lbrakk>i < n; workers s i = Popping; \<not> http_request_queue_waits (queue s);
     http_request_queue_pop (queue s) = Some (q, HTTP_INVALID_SOCKET); http_server_should_stop s \<or> shutting_down q\<rbrakk> \<Longrightarrow>
    worker_step n s (s\<lparr>queue := q, workers := (workers s)(i := Exited)\<rparr>)"
| serve: "\<lbrakk>i < n; workers s i = Handling c\<rbrakk> \<Longrightarrow>
    worker_step n s ((http_server_note_response_complete s)\<lparr>workers := (workers s)(i := Popping), closed := closed s @ [c]\<rparr>)"

text \<open>
  The other steps: an accepted socket is pushed, waking a sleeper, or refused and closed; a signal asks to stop;
  the accepting loop ends, on a stop request or an error of \<^verbatim>\<open>select\<close>, and shuts the queue down; a sleeper wakes.
\<close>

inductive pool_step :: "nat \<Rightarrow> server_pool \<Rightarrow> server_pool \<Rightarrow> bool" for n where
  worker: "worker_step n s s' \<Longrightarrow> pool_step n s s'"
| push_wake: "\<lbrakk>listening s; 0 \<le> c; http_request_queue_push (queue s) c = Some (q, True); i < n; workers s i = Asleep\<rbrakk> \<Longrightarrow>
    pool_step n s (s\<lparr>queue := q, accepted := accepted s @ [c], workers := (workers s)(i := Popping)\<rparr>)"
| push_quiet: "\<lbrakk>listening s; 0 \<le> c; http_request_queue_push (queue s) c = Some (q, True); \<forall>i<n. workers s i \<noteq> Asleep\<rbrakk> \<Longrightarrow>
    pool_step n s (s\<lparr>queue := q, accepted := accepted s @ [c]\<rparr>)"
| refuse: "\<lbrakk>listening s; 0 \<le> c; http_request_queue_push (queue s) c = Some (q, False)\<rbrakk> \<Longrightarrow>
    pool_step n s ((http_server_note_response_complete s)\<lparr>queue := q, accepted := accepted s @ [c], closed := closed s @ [c]\<rparr>)"
| signal: "pool_step n s (http_server_request_stop s)"
| spurious: "\<lbrakk>i < n; workers s i = Asleep\<rbrakk> \<Longrightarrow> pool_step n s (s\<lparr>workers := (workers s)(i := Popping)\<rparr>)"
| shutdown: "listening s \<Longrightarrow>
    pool_step n s (s\<lparr>listening := False, queue := http_request_queue_shutdown (queue s), workers := wake_all (workers s)\<rparr>)"

definition pool_init :: "HTTPServerOptions \<Rightarrow> server_pool \<Rightarrow> bool" where
  "pool_init opts s \<longleftrightarrow> 0 < opt_queue_capacity opts \<and> unat (opt_queue_capacity opts) < 2 ^ 62 \<and>
     http_request_queue_init (opt_queue_capacity opts) True True True = Some (queue s) \<and>
     options s = opts \<and> completed_responses s = 0 \<and> \<not> http_server_stop_requested s \<and>
     workers s = (\<lambda>_. Popping) \<and> listening s \<and> accepted s = [] \<and> closed s = []"

text \<open>
  What \<^verbatim>\<open>http_server_run\<close> does when a worker thread cannot be created: it asks to stop and sets the flag of the
  queue, without the mutex and without waking anyone, and joins the workers started before.
\<close>

definition pool_abort :: "server_pool \<Rightarrow> server_pool" where
  "pool_abort s = (http_server_request_stop s)\<lparr>queue := (queue s)\<lparr>shutting_down := True\<rparr>, listening := False\<rparr>"

section \<open>The invariant\<close>

fun busy_with :: "worker \<Rightarrow> int multiset" where
  "busy_with (Handling c) = {#c#}"
| "busy_with _ = {#}"

fun awake :: "worker \<Rightarrow> nat" where
  "awake Popping = 1"
| "awake _ = 0"

definition pool_inv :: "nat \<Rightarrow> nat \<Rightarrow> int list \<Rightarrow> server_pool \<Rightarrow> bool" where
  "pool_inv n cap xs s \<longleftrightarrow>
     queue_rep (queue s) cap (\<not> listening s) xs \<and> (\<forall>c \<in> set xs. 0 \<le> c) \<and>
     mset (accepted s) = mset xs + tally n busy_with (workers s) + mset (closed s) \<and>
     ((\<exists>i<n. workers s i = Asleep) \<longrightarrow> listening s \<and> length xs \<le> tally n awake (workers s)) \<and>
     ((\<exists>i<n. workers s i = Exited) \<longrightarrow> \<not> listening s \<and> xs = []) \<and>
     completed_responses s = of_nat (length (closed s)) \<and>
     (0 < opt_max_requests (options s) \<and> unat (opt_max_requests (options s)) \<le> length (closed s) \<longrightarrow> http_server_stop_requested s)"

lemma note_keeps [simp]:
  "options (http_server_note_response_complete s) = options s"
  "completed_responses (http_server_note_response_complete s) = completed_responses s + 1"
  "queue (http_server_note_response_complete s) = queue s" "workers (http_server_note_response_complete s) = workers s"
  "listening (http_server_note_response_complete s) = listening s"
  "accepted (http_server_note_response_complete s) = accepted s" "closed (http_server_note_response_complete s) = closed s"
  by (simp_all add: http_server_note_response_complete_def http_server_request_stop_def Let_def)

lemma stop_keeps [simp]:
  "options (http_server_request_stop s) = options s" "completed_responses (http_server_request_stop s) = completed_responses s"
  "queue (http_server_request_stop s) = queue s" "workers (http_server_request_stop s) = workers s"
  "listening (http_server_request_stop s) = listening s" "accepted (http_server_request_stop s) = accepted s"
  "closed (http_server_request_stop s) = closed s" "http_server_stop_requested (http_server_request_stop s)"
  by (simp_all add: http_server_request_stop_def)

text \<open>The response that reaches the limit asks for the stop, and no response takes it back.\<close>

lemma note_stops:
  assumes "completed_responses s = of_nat k" "0 < opt_max_requests (options s)"
    "unat (opt_max_requests (options s)) \<le> k \<Longrightarrow> http_server_stop_requested s" "unat (opt_max_requests (options s)) \<le> Suc k"
  shows "http_server_stop_requested (http_server_note_response_complete s)"
proof (cases "unat (opt_max_requests (options s)) \<le> k")
  case True
  then show ?thesis using assms(3) by (simp add: http_server_note_response_complete_def http_server_request_stop_def Let_def)
next
  case False
  then have k: "Suc k = unat (opt_max_requests (options s))" using assms(4) by simp
  then have "completed_responses s + 1 = of_nat (unat (opt_max_requests (options s)))" using assms(1) by (simp flip: k)
  then have "completed_responses s + 1 = ucast (opt_max_requests (options s))" by simp
  then show ?thesis using assms(2) by (simp add: http_server_note_response_complete_def http_server_request_stop_def Let_def)
qed

lemma pool_invD:
  assumes "pool_inv n cap xs s"
  shows "queue_rep (queue s) cap (\<not> listening s) xs" "\<And>c. c \<in> set xs \<Longrightarrow> 0 \<le> c"
    "mset (accepted s) = mset xs + tally n busy_with (workers s) + mset (closed s)"
    "\<And>i. i < n \<Longrightarrow> workers s i = Asleep \<Longrightarrow> listening s \<and> length xs \<le> tally n awake (workers s)"
    "\<And>i. i < n \<Longrightarrow> workers s i = Exited \<Longrightarrow> \<not> listening s \<and> xs = []"
    "completed_responses s = of_nat (length (closed s))"
    "0 < opt_max_requests (options s) \<Longrightarrow> unat (opt_max_requests (options s)) \<le> length (closed s) \<Longrightarrow> http_server_stop_requested s"
  using assms unfolding pool_inv_def by blast+

lemma pool_invI:
  assumes "queue_rep (queue s) cap (\<not> listening s) xs" "\<And>c. c \<in> set xs \<Longrightarrow> 0 \<le> c"
    "mset (accepted s) = mset xs + tally n busy_with (workers s) + mset (closed s)"
    "\<And>i. i < n \<Longrightarrow> workers s i = Asleep \<Longrightarrow> listening s \<and> length xs \<le> tally n awake (workers s)"
    "\<And>i. i < n \<Longrightarrow> workers s i = Exited \<Longrightarrow> \<not> listening s \<and> xs = []"
    "completed_responses s = of_nat (length (closed s))"
    "0 < opt_max_requests (options s) \<Longrightarrow> unat (opt_max_requests (options s)) \<le> length (closed s) \<Longrightarrow> http_server_stop_requested s"
  shows "pool_inv n cap xs s"
  using assms unfolding pool_inv_def by blast

lemma busy_upd: "i < n \<Longrightarrow> tally n busy_with (ws(i := x)) + busy_with (ws i) = tally n busy_with ws + busy_with x"
  by (rule tally_upd)

lemma awake_upd: "i < n \<Longrightarrow> tally n awake (ws(i := x)) + awake (ws i) = tally n awake ws + awake x"
  by (rule tally_upd)

lemma pop_inv:
  assumes "queue_rep q c d xs" "\<And>c. c \<in> set xs \<Longrightarrow> 0 \<le> c" "http_request_queue_pop q = Some (q', x)"
  shows "(xs = [] \<and> x = HTTP_INVALID_SOCKET \<and> q' = q) \<or> (\<exists>ys. xs = x # ys \<and> 0 \<le> x \<and> queue_rep q' c d ys)"
proof (cases xs)
  case Nil
  then show ?thesis using assms(1,3) queue_pop_empty by auto
next
  case (Cons y ys)
  then show ?thesis using rq.pop_first [of q c d y ys] assms by auto
qed

lemma worker_inv:
  assumes "worker_step n s s'" "pool_inv n cap xs s"
  shows "\<exists>xs'. pool_inv n cap xs' s'"
  using assms
proof (induction rule: worker_step.induct)
  case (sleep i s)
  note v = pool_invD [OF sleep.prems]
  have xs: "xs = []" "listening s" using queue_rep_waits [OF v(1)] sleep.hyps(3) by auto
  have "pool_inv n cap [] (s\<lparr>workers := (workers s)(i := Asleep)\<rparr>)"
    using v xs sleep.hyps busy_upd [OF sleep.hyps(1), of "workers s" Asleep]
    by (intro pool_invI) (auto split: if_splits)
  then show ?case by blast
next
  case (take i s q c)
  note v = pool_invD [OF take.prems]
  obtain ys where ys: "xs = c # ys" "queue_rep q cap (\<not> listening s) ys"
    using pop_inv [OF v(1,2) take.hyps(4)] take.hyps(5) by auto
  have a: "listening s \<and> length ys \<le> tally n awake ((workers s)(i := Handling c))" if "j < n" "workers s j = Asleep" for j
    using v(4) [OF that] ys(1) take.hyps(2) awake_upd [OF take.hyps(1), of "workers s" "Handling c"] by simp
  have "pool_inv n cap ys (s\<lparr>queue := q, workers := (workers s)(i := Handling c)\<rparr>)"
    using v(1-3,5-) ys take.hyps a busy_upd [OF take.hyps(1), of "workers s" "Handling c"]
    by (intro pool_invI) (auto split: if_splits)
  then show ?case by blast
next
  case (leave i s q)
  note v = pool_invD [OF leave.prems]
  have xs: "xs = []" "q = queue s" using pop_inv [OF v(1,2) leave.hyps(4)] by auto
  then have "\<not> listening s" using queue_rep_waits [OF v(1)] leave.hyps(3) by auto
  then have "pool_inv n cap [] (s\<lparr>queue := q, workers := (workers s)(i := Exited)\<rparr>)"
    using v xs leave.hyps busy_upd [OF leave.hyps(1), of "workers s" Exited]
    by (intro pool_invI) (auto split: if_splits)
  then show ?case by blast
next
  case (serve i s c)
  note v = pool_invD [OF serve.prems]
  have b: "add_mset c (tally n busy_with ((workers s)(i := Popping))) = tally n busy_with (workers s)"
    using busy_upd [OF serve.hyps(1), of "workers s" Popping] serve.hyps(2) by simp
  have acc: "mset (accepted s) = mset xs + tally n busy_with ((workers s)(i := Popping)) + mset (closed s @ [c])"
    using v(3) unfolding b [symmetric] by simp
  have a: "listening s \<and> length xs \<le> tally n awake ((workers s)(i := Popping))" if "j < n" "workers s j = Asleep" for j
    using v(4) [OF that] serve.hyps(2) awake_upd [OF serve.hyps(1), of "workers s" Popping] by simp
  have "pool_inv n cap xs ((http_server_note_response_complete s)\<lparr>workers := (workers s)(i := Popping), closed := closed s @ [c]\<rparr>)"
    using v(1,2,5-) acc a by (intro pool_invI) (auto intro: note_stops split: if_splits)
  then show ?case by blast
qed

lemma wake_all_tally [simp]: "tally n busy_with (wake_all ws) = tally n busy_with ws"
  unfolding tally_def by (rule sum.cong) (auto simp: wake_all_def)

lemma wake_all_iff [simp]: "wake_all ws i \<noteq> Asleep" "wake_all ws i = Exited \<longleftrightarrow> ws i = Exited"
  by (auto simp: wake_all_def)

lemma push_inv:
  assumes "queue_rep q c d xs" "http_request_queue_push q x = Some (q', ok)"
  shows "if ok then \<not> d \<and> queue_rep q' c d (xs @ [x]) else q' = q"
  by (rule rq.push_cases [OF assms(1), of x]) (use assms(2) in auto)

lemma pool_inv_step:
  assumes "pool_step n s s'" "pool_inv n cap xs s"
  shows "\<exists>xs'. pool_inv n cap xs' s'"
  using assms
proof (induction rule: pool_step.induct)
  case (worker s s')
  then show ?case by (rule worker_inv)
next
  case (push_wake s c q i)
  note v = pool_invD [OF push_wake.prems]
  have q: "queue_rep q cap (\<not> listening s) (xs @ [c])" using push_inv [OF v(1) push_wake.hyps(3)] by auto
  have a: "length (xs @ [c]) \<le> tally n awake ((workers s)(i := Popping))"
    using v(4) [OF push_wake.hyps(4,5)] push_wake.hyps(5) awake_upd [OF push_wake.hyps(4), of "workers s" Popping] by simp
  have "pool_inv n cap (xs @ [c]) (s\<lparr>queue := q, accepted := accepted s @ [c], workers := (workers s)(i := Popping)\<rparr>)"
    using v(1-3,5-) q a push_wake.hyps busy_upd [OF push_wake.hyps(4), of "workers s" Popping]
    by (intro pool_invI) (auto split: if_splits)
  then show ?case by blast
next
  case (push_quiet s c q)
  note v = pool_invD [OF push_quiet.prems]
  have q: "queue_rep q cap (\<not> listening s) (xs @ [c])" using push_inv [OF v(1) push_quiet.hyps(3)] by auto
  have "pool_inv n cap (xs @ [c]) (s\<lparr>queue := q, accepted := accepted s @ [c]\<rparr>)"
    using v q push_quiet.hyps by (intro pool_invI) (auto split: if_splits)
  then show ?case by blast
next
  case (refuse s c q)
  note v = pool_invD [OF refuse.prems]
  have q: "q = queue s" using push_inv [OF v(1) refuse.hyps(3)] by simp
  have "pool_inv n cap xs ((http_server_note_response_complete s)\<lparr>queue := q, accepted := accepted s @ [c], closed := closed s @ [c]\<rparr>)"
    using v q refuse.hyps by (intro pool_invI) (auto intro: note_stops split: if_splits)
  then show ?case by blast
next
  case (signal s)
  note v = pool_invD [OF signal.prems]
  have "pool_inv n cap xs (http_server_request_stop s)" using v by (intro pool_invI) auto
  then show ?case by blast
next
  case (spurious i s)
  note v = pool_invD [OF spurious.prems]
  have a: "listening s \<and> length xs \<le> tally n awake ((workers s)(i := Popping))" if "j < n" "workers s j = Asleep" for j
    using v(4) [OF that] spurious.hyps awake_upd [OF spurious.hyps(1), of "workers s" Popping] by simp
  have "pool_inv n cap xs (s\<lparr>workers := (workers s)(i := Popping)\<rparr>)"
    using v(1-3,5-) a spurious.hyps busy_upd [OF spurious.hyps(1), of "workers s" Popping]
    by (intro pool_invI) (auto split: if_splits)
  then show ?case by blast
next
  case (shutdown s)
  note v = pool_invD [OF shutdown.prems]
  have "pool_inv n cap xs (s\<lparr>listening := False, queue := http_request_queue_shutdown (queue s), workers := wake_all (workers s)\<rparr>)"
    using v shutdown.hyps queue_rep_shutdown [OF v(1)] by (intro pool_invI) auto
  then show ?case by blast
qed

lemma pool_inv_init:
  assumes "pool_init opts s"
  shows "pool_inv n (unat (opt_queue_capacity opts)) [] s"
proof -
  have i: "queue_rep (queue s) (unat (opt_queue_capacity opts)) False []"
    using assms queue_init_rep [of "opt_queue_capacity opts"] by (auto simp: pool_init_def)
  have "tally n busy_with (workers s) = {#}" using assms by (intro tally_zero) (simp add: pool_init_def)
  then show ?thesis using i assms by (intro pool_invI) (auto simp: pool_init_def unat_eq_zero)
qed

lemma pool_inv_reach:
  assumes "(pool_step n)\<^sup>*\<^sup>* s s'" "pool_inv n cap xs s"
  shows "\<exists>xs'. pool_inv n cap xs' s'"
  using assms by (induction arbitrary: rule: rtranclp_induct) (auto dest: pool_inv_step)

section \<open>The end of the server\<close>

fun effort :: "worker \<Rightarrow> nat" where
  "effort Exited = 0"
| "effort Popping = 1"
| "effort (Handling c) = 2"
| "effort Asleep = 0"

definition remaining :: "nat \<Rightarrow> server_pool \<Rightarrow> nat" where
  "remaining n s = 2 * unat (q_count (queue s)) + tally n effort (workers s)"

lemma queue_rep_count: "queue_rep q c d xs \<Longrightarrow> unat (q_count q) = length xs"
  by (simp add: queue_rep_def)

lemma worker_remaining:
  assumes "worker_step n s s'" "pool_inv n cap xs s" "\<not> listening s"
  shows "remaining n s' < remaining n s \<and> \<not> listening s'"
  using assms
proof (induction rule: worker_step.induct)
  case (sleep i s)
  then show ?case using queue_rep_waits [OF pool_invD(1) [OF sleep.prems(1)]] by simp
next
  case (take i s q c)
  note v = pool_invD [OF take.prems(1)]
  obtain ys where "xs = c # ys" "queue_rep q cap (\<not> listening s) ys"
    using pop_inv [OF v(1,2) take.hyps(4)] take.hyps(5) by auto
  then have "unat (q_count (queue s)) = Suc (unat (q_count q))" using queue_rep_count v(1) by fastforce
  then show ?case using take.prems(2) take.hyps(2) tally_upd [OF take.hyps(1), of effort "workers s" "Handling c"]
    by (simp add: remaining_def)
next
  case (leave i s q)
  note v = pool_invD [OF leave.prems(1)]
  have "q = queue s" using pop_inv [OF v(1,2) leave.hyps(4)] by auto
  then show ?case using leave.prems(2) leave.hyps(2) tally_upd [OF leave.hyps(1), of effort "workers s" Exited]
    by (simp add: remaining_def)
next
  case (serve i s c)
  then show ?case using tally_upd [OF serve.hyps(1), of effort "workers s" Popping] by (simp add: remaining_def)
qed

lemma worker_progress:
  assumes "pool_inv n cap xs s" "\<not> listening s" "i < n" "workers s i \<noteq> Exited"
  shows "\<exists>s'. worker_step n s s'"
proof (cases "workers s i")
  case Popping
  note v = pool_invD [OF assms(1)]
  have nw: "\<not> http_request_queue_waits (queue s)" using queue_rep_waits [OF v(1)] assms(2) by simp
  show ?thesis
  proof (cases xs)
    case Nil
    have "shutting_down (queue s)" using v(1) assms(2) by (simp add: queue_rep_def)
    then show ?thesis using worker_step.leave [OF assms(3) Popping nw] queue_pop_empty v(1) Nil by blast
  next
    case (Cons x ys)
    then have "x \<noteq> HTTP_INVALID_SOCKET" using v(2) [of x] by auto
    then show ?thesis using worker_step.take [OF assms(3) Popping nw] rq.pop_first [OF v(1) [unfolded Cons]] by blast
  qed
next
  case Asleep
  then show ?thesis using pool_invD(4) [OF assms(1,3)] assms(2) by blast
qed (use assms worker_step.serve in blast)+

definition joined :: "nat \<Rightarrow> server_pool \<Rightarrow> bool" where
  "joined n s \<longleftrightarrow> (\<forall>i<n. workers s i = Exited)"

lemma joined_closed:
  assumes "pool_inv n cap xs s" "joined n s" "0 < n"
  shows "mset (accepted s) = mset (closed s)"
proof -
  note v = pool_invD [OF assms(1)]
  have "xs = []" using v(5) [OF assms(3)] assms(2,3) by (auto simp: joined_def)
  moreover have "tally n busy_with (workers s) = {#}" using assms(2) by (intro tally_zero) (simp add: joined_def)
  ultimately show ?thesis using v(3) by simp
qed

lemma worker_reach:
  assumes "(worker_step n)\<^sup>*\<^sup>* s s'" "pool_inv n cap xs s" "\<not> listening s"
  shows "(\<exists>ys. pool_inv n cap ys s') \<and> \<not> listening s'"
  using assms
proof (induction rule: rtranclp_induct)
  case (step s1 s2)
  then obtain ys where "pool_inv n cap ys s1" "\<not> listening s1" by blast
  then show ?case using worker_inv [OF step.hyps(2)] worker_remaining [OF step.hyps(2)] by blast
qed blast

lemma worker_drain:
  assumes "pool_inv n cap xs s" "\<not> listening s"
  shows "\<exists>s'. (worker_step n)\<^sup>*\<^sup>* s s' \<and> joined n s'"
  using assms
proof (induction "remaining n s" arbitrary: s xs rule: less_induct)
  case less
  show ?case
  proof (cases "joined n s")
    case False
    then obtain s1 where s1: "worker_step n s s1" using worker_progress [OF less.prems] by (auto simp: joined_def)
    obtain ys where ys: "pool_inv n cap ys s1" using worker_inv [OF s1 less.prems(1)] by blast
    note r = worker_remaining [OF s1 less.prems]
    from less.hyps [OF conjunct1 [OF r] ys conjunct2 [OF r]] show ?thesis using s1
      by (meson converse_rtranclp_into_rtranclp)
  qed blast
qed

lemma worker_no_infinite:
  assumes "pool_inv n cap xs s" "\<not> listening s"
  shows "\<nexists>f. f 0 = s \<and> (\<forall>k. worker_step n (f k) (f (Suc k)))"
proof
  assume "\<exists>f. f 0 = s \<and> (\<forall>k. worker_step n (f k) (f (Suc k)))"
  then obtain f where f: "f 0 = s" "\<And>k. worker_step n (f k) (f (Suc k))" by blast
  have i: "(\<exists>ys. pool_inv n cap ys (f k)) \<and> \<not> listening (f k)" for k
  proof (induction k)
    case (Suc k)
    then show ?case using worker_inv [OF f(2)] worker_remaining [OF f(2)] by blast
  qed (use assms f(1) in blast)
  then have "remaining n (f (Suc k)) < remaining n (f k)" for k using worker_remaining [OF f(2)] by blast
  then show False using wf_no_infinite_down_chainE [OF wf_less_than, of "\<lambda>k. remaining n (f k)"] by auto
qed

section \<open>Properties\<close>

definition pool0 :: server_pool where
  "pool0 = \<lparr>options = http_server_options_default, completed_responses = 0, http_server_stop_requested = False,
     queue = the (http_request_queue_init 16 True True True), workers = (\<lambda>_. Popping), listening = True, accepted = [], closed = []\<rparr>"

lemma pool0_init: "pool_init http_server_options_default pool0"
  using queue_init_rep [of 16] by (auto simp: pool_init_def pool0_def http_server_options_default_def)

text \<open>
  C33. No connection is lost and none is served twice, whatever the interleaving: the accepted sockets are,
  counted with multiplicity, those waiting in the queue, those in the hands of a worker, and those that were closed;
  the queue never exceeds its capacity; a worker sleeps through no work, since when one is asleep there are at least
  as many workers awake as sockets in the queue; and once the limit on requests is reached, the stop has been asked for.
\<close>

theorem worker_pool_accounts:
  assumes "pool_init opts s0" "(pool_step n)\<^sup>*\<^sup>* s0 s"
  shows "\<exists>xs. queue_rep (queue s) (unat (opt_queue_capacity opts)) (\<not> listening s) xs \<and>
    length xs \<le> unat (opt_queue_capacity opts) \<and>
    mset (accepted s) = mset xs + tally n busy_with (workers s) + mset (closed s) \<and>
    ((\<exists>i<n. workers s i = Asleep) \<longrightarrow> length xs \<le> tally n awake (workers s)) \<and>
    (0 < opt_max_requests (options s) \<and> unat (opt_max_requests (options s)) \<le> length (closed s) \<longrightarrow> http_server_stop_requested s)"
proof -
  obtain xs where "pool_inv n (unat (opt_queue_capacity opts)) xs s"
    using pool_inv_reach [OF assms(2) pool_inv_init [OF assms(1)]] by blast
  note v = pool_invD [OF this]
  show ?thesis using v(1,3) rq.repr_bound [OF v(1)] v(4,7) by (intro exI [of _ xs]) blast
qed

theorem worker_pool_accounts_witness:
  "\<exists>s xs. (pool_step 2)\<^sup>*\<^sup>* pool0 s \<and> workers s 0 = Asleep \<and> queue_rep (queue s) 16 (\<not> listening s) xs \<and>
     mset (accepted s) = mset xs + tally 2 busy_with (workers s) + mset (closed s)"
proof -
  let ?s = "pool0\<lparr>workers := (workers pool0)(0 := Asleep)\<rparr>"
  have "http_request_queue_waits (queue pool0)" using pool_invD(1) [OF pool_inv_init [OF pool0_init]] queue_rep_waits
    by (auto simp: pool0_def)
  then have "worker_step 2 pool0 ?s" by (intro worker_step.sleep) (auto simp: pool0_def)
  then have "(pool_step 2)\<^sup>*\<^sup>* pool0 ?s" by (auto intro: pool_step.worker)
  from worker_pool_accounts [OF pool0_init this] this show ?thesis
    by (intro exI [of _ ?s]) (auto simp: http_server_options_default_def)
qed

text \<open>
  C34. The shutdown is complete: once the accepting loop has ended, the workers can only make finitely many
  steps, as long as one of them has not left its loop some worker can make a step, they do all leave, so that
  the joins return, and then every accepted connection has been closed, exactly as often as it was accepted.
\<close>

theorem worker_pool_shutdown_drains:
  assumes "pool_init opts s0" "(pool_step n)\<^sup>*\<^sup>* s0 s" "\<not> listening s" "0 < n"
  shows "(\<nexists>f. f 0 = s \<and> (\<forall>k. worker_step n (f k) (f (Suc k)))) \<and>
    (\<exists>s'. (worker_step n)\<^sup>*\<^sup>* s s' \<and> joined n s') \<and>
    (\<forall>s'. (worker_step n)\<^sup>*\<^sup>* s s' \<longrightarrow>
       (if joined n s' then mset (accepted s') = mset (closed s') else \<exists>s''. worker_step n s' s''))"
proof -
  obtain xs where inv: "pool_inv n (unat (opt_queue_capacity opts)) xs s"
    using pool_inv_reach [OF assms(2) pool_inv_init [OF assms(1)]] by blast
  have "if joined n s' then mset (accepted s') = mset (closed s') else \<exists>s''. worker_step n s' s''" if "(worker_step n)\<^sup>*\<^sup>* s s'" for s'
    using worker_reach [OF that inv assms(3)] joined_closed [OF _ _ assms(4)] worker_progress by (auto simp: joined_def)
  then show ?thesis using worker_no_infinite [OF inv assms(3)] worker_drain [OF inv assms(3)] by blast
qed

theorem worker_pool_shutdown_drains_witness:
  "\<exists>s s'. (pool_step 2)\<^sup>*\<^sup>* pool0 s \<and> \<not> listening s \<and> (worker_step 2)\<^sup>*\<^sup>* s s' \<and> joined 2 s'"
proof -
  let ?s = "pool0\<lparr>listening := False, queue := http_request_queue_shutdown (queue pool0), workers := wake_all (workers pool0)\<rparr>"
  have "pool_step 2 pool0 ?s" by (rule pool_step.shutdown) (simp add: pool0_def)
  then have "(pool_step 2)\<^sup>*\<^sup>* pool0 ?s" by blast
  moreover have "\<not> listening ?s" by simp
  ultimately show ?thesis using worker_pool_shutdown_drains [OF pool0_init, of 2 ?s] by (metis zero_less_numeral)
qed

text \<open>
  C35. The clean-up after a failed thread creation can hang: when the worker that was started before has
  gone to sleep on the empty queue, setting the flag without waking it leaves a state where no worker can make a
  step although it has not left its loop, so that the join which follows never returns.
\<close>

theorem worker_pool_abort_deadlock:
  assumes "pool_init opts s0"
  shows "\<exists>s. (worker_step 1)\<^sup>*\<^sup>* s0 s \<and> \<not> joined 1 (pool_abort s) \<and> (\<nexists>s'. worker_step 1 (pool_abort s) s')"
proof -
  let ?s = "s0\<lparr>workers := (workers s0)(0 := Asleep)\<rparr>"
  have "http_request_queue_waits (queue s0)" using pool_invD(1) [OF pool_inv_init [OF assms]] queue_rep_waits assms
    by (auto simp: pool_init_def)
  then have "worker_step 1 s0 ?s" using assms by (intro worker_step.sleep) (auto simp: pool_init_def)
  moreover have "workers (pool_abort ?s) 0 = Asleep" by (simp add: pool_abort_def)
  then have "\<not> worker_step 1 (pool_abort ?s) s'" for s' by (auto elim: worker_step.cases)
  moreover have "\<not> joined 1 (pool_abort ?s)" by (simp add: pool_abort_def joined_def)
  ultimately show ?thesis by blast
qed

theorem worker_pool_abort_deadlock_witness:
  "\<exists>s. (worker_step 1)\<^sup>*\<^sup>* pool0 s \<and> \<not> joined 1 (pool_abort s) \<and> (\<nexists>s'. worker_step 1 (pool_abort s) s')"
  by (rule worker_pool_abort_deadlock [OF pool0_init])

end
