(* ===== verification/QueueLocks.thy ===== *)
theory QueueLocks
  imports WorkerPool
begin

text \<open>
  The mutex and the condition variable of the request queue in \<^verbatim>\<open>src/server/http_server.c\<close>. Here every call of the platform layer is a
  step: the main thread and the workers lock, test, change, wait, signal and unlock one call at a time, and between any two
  calls the other threads act. It is proved that the mutex excludes, that every run is a run of the worker pool with its atomic
  operations, and that no wake-up is lost when the queue is shut down.
\<close>

section \<open>The calls\<close>

datatype thread_id =
    MainThread
  | Worker nat

text \<open>A mutex is the thread that holds it; \<open>None\<close> as the result of a call means that it blocks, or is undefined for an unlock by another thread.\<close>

definition platform_mutex_lock :: "thread_id option \<Rightarrow> thread_id \<Rightarrow> thread_id option option" where
  "platform_mutex_lock mutex t = (if mutex = None then Some (Some t) else None)"

definition platform_mutex_unlock :: "thread_id option \<Rightarrow> thread_id \<Rightarrow> thread_id option option" where
  "platform_mutex_unlock mutex t = (if mutex = Some t then Some None else None)"

text \<open>
  Where a worker is: before the lock of \<^verbatim>\<open>http_request_queue_pop\<close>, at the test of its loop, asleep on the condition variable, woken but
  without the mutex, before the unlock, handling a client, returned with no client, or gone.
\<close>

datatype worker_pc =
    PopLock
  | PopTest
  | PopWait
  | PopWake
  | PopUnlock int
  | Serving int
  | PopReturned
  | Gone

text \<open>
  Where the main thread is: in the accepting loop, in the push of the client \<open>c\<close>, sending the refusal, in the shutdown, or joining.
  The queue before the push is kept until its signal, as history.
\<close>

datatype main_pc =
    Accepting
  | PushLock int
  | PushTest int
  | PushSignal HTTPRequestQueue int
  | PushUnlock bool int
  | Refusing int
  | ShutLock
  | ShutSet
  | ShutBroadcast
  | ShutUnlock
  | Joining

record locked_pool = HTTPServerContext +
  lqueue :: HTTPRequestQueue
  holder :: "thread_id option"
  wpc :: "nat \<Rightarrow> worker_pc"
  mpc :: main_pc
  laccepted :: "int list"
  lclosed :: "int list"

text \<open>\<^verbatim>\<open>platform_cond_wait\<close> gives the mutex back and sleeps in one action.\<close>

definition platform_cond_wait :: "locked_pool \<Rightarrow> nat \<Rightarrow> locked_pool option" where
  "platform_cond_wait s i = map_option (\<lambda>h. s\<lparr>holder := h, wpc := (wpc s)(i := PopWait)\<rparr>) (platform_mutex_unlock (holder s) (Worker i))"

definition platform_cond_broadcast :: "(nat \<Rightarrow> worker_pc) \<Rightarrow> nat \<Rightarrow> worker_pc" where
  "platform_cond_broadcast ws i = (if ws i = PopWait then PopWake else ws i)"

text \<open>A signal wakes one of the sleepers, if there is any.\<close>

inductive platform_cond_signal :: "nat \<Rightarrow> (nat \<Rightarrow> worker_pc) \<Rightarrow> (nat \<Rightarrow> worker_pc) \<Rightarrow> bool" for n where
  one: "\<lbrakk>i < n; ws i = PopWait\<rbrakk> \<Longrightarrow> platform_cond_signal n ws (ws(i := PopWake))"
| none: "\<forall>i<n. ws i \<noteq> PopWait \<Longrightarrow> platform_cond_signal n ws ws"

section \<open>The steps\<close>

text \<open>The workers: \<open>http_request_queue_pop\<close> inside \<open>http_server_worker_main\<close>.\<close>

inductive locked_worker_step :: "nat \<Rightarrow> locked_pool \<Rightarrow> locked_pool \<Rightarrow> bool" for n where
  lock: "\<lbrakk>i < n; wpc s i = PopLock \<or> wpc s i = PopWake; platform_mutex_lock (holder s) (Worker i) = Some h\<rbrakk> \<Longrightarrow>
    locked_worker_step n s (s\<lparr>holder := h, wpc := (wpc s)(i := PopTest)\<rparr>)"
| wait: "\<lbrakk>i < n; wpc s i = PopTest; http_request_queue_waits (lqueue s); platform_cond_wait s i = Some s'\<rbrakk> \<Longrightarrow>
    locked_worker_step n s s'"
| pop: "\<lbrakk>i < n; wpc s i = PopTest; \<not> http_request_queue_waits (lqueue s); http_request_queue_pop (lqueue s) = Some (q, c)\<rbrakk> \<Longrightarrow>
    locked_worker_step n s (s\<lparr>lqueue := q, wpc := (wpc s)(i := PopUnlock c)\<rparr>)"
| unlock: "\<lbrakk>i < n; wpc s i = PopUnlock c; platform_mutex_unlock (holder s) (Worker i) = Some h\<rbrakk> \<Longrightarrow>
    locked_worker_step n s (s\<lparr>holder := h, wpc := (wpc s)(i := if c = HTTP_INVALID_SOCKET then PopReturned else Serving c)\<rparr>)"
| leave: "\<lbrakk>i < n; wpc s i = PopReturned; http_server_should_stop s \<or> shutting_down (lqueue s)\<rbrakk> \<Longrightarrow>
    locked_worker_step n s (s\<lparr>wpc := (wpc s)(i := Gone)\<rparr>)"
| again: "\<lbrakk>i < n; wpc s i = PopReturned; \<not> (http_server_should_stop s \<or> shutting_down (lqueue s))\<rbrakk> \<Longrightarrow>
    locked_worker_step n s (s\<lparr>wpc := (wpc s)(i := PopLock)\<rparr>)"
| serve: "\<lbrakk>i < n; wpc s i = Serving c\<rbrakk> \<Longrightarrow>
    locked_worker_step n s ((http_server_note_response_complete s)\<lparr>wpc := (wpc s)(i := PopLock), lclosed := lclosed s @ [c]\<rparr>)"

text \<open>
  The main thread: \<open>http_request_queue_push\<close> in the accepting loop, and \<open>http_request_queue_shutdown\<close> after it. A refused client is entered into the list of
  closed ones when it is refused.
\<close>

inductive locked_main_step :: "nat \<Rightarrow> locked_pool \<Rightarrow> locked_pool \<Rightarrow> bool" for n where
  push_lock: "\<lbrakk>mpc s = PushLock c; platform_mutex_lock (holder s) MainThread = Some h\<rbrakk> \<Longrightarrow>
    locked_main_step n s (s\<lparr>holder := h, mpc := PushTest c\<rparr>)"
| push: "\<lbrakk>mpc s = PushTest c; http_request_queue_push (lqueue s) c = Some (q, True)\<rbrakk> \<Longrightarrow>
    locked_main_step n s (s\<lparr>lqueue := q, mpc := PushSignal (lqueue s) c\<rparr>)"
| push_full: "\<lbrakk>mpc s = PushTest c; http_request_queue_push (lqueue s) c = Some (q, False)\<rbrakk> \<Longrightarrow>
    locked_main_step n s (s\<lparr>lqueue := q, mpc := PushUnlock False c, lclosed := lclosed s @ [c]\<rparr>)"
| push_signal: "\<lbrakk>mpc s = PushSignal q c; platform_cond_signal n (wpc s) ws\<rbrakk> \<Longrightarrow>
    locked_main_step n s (s\<lparr>wpc := ws, mpc := PushUnlock True c\<rparr>)"
| push_unlock: "\<lbrakk>mpc s = PushUnlock pushed c; platform_mutex_unlock (holder s) MainThread = Some h\<rbrakk> \<Longrightarrow>
    locked_main_step n s (s\<lparr>holder := h, mpc := if pushed then Accepting else Refusing c\<rparr>)"
| refused: "mpc s = Refusing c \<Longrightarrow>
    locked_main_step n s ((http_server_note_response_complete s)\<lparr>mpc := Accepting\<rparr>)"
| shut_lock: "\<lbrakk>mpc s = ShutLock; platform_mutex_lock (holder s) MainThread = Some h\<rbrakk> \<Longrightarrow>
    locked_main_step n s (s\<lparr>holder := h, mpc := ShutSet\<rparr>)"
| shut_set: "mpc s = ShutSet \<Longrightarrow>
    locked_main_step n s (s\<lparr>lqueue := http_request_queue_shutdown (lqueue s), mpc := ShutBroadcast\<rparr>)"
| shut_broadcast: "mpc s = ShutBroadcast \<Longrightarrow>
    locked_main_step n s (s\<lparr>wpc := platform_cond_broadcast (wpc s), mpc := ShutUnlock\<rparr>)"
| shut_unlock: "\<lbrakk>mpc s = ShutUnlock; platform_mutex_unlock (holder s) MainThread = Some h\<rbrakk> \<Longrightarrow>
    locked_main_step n s (s\<lparr>holder := h, mpc := Joining\<rparr>)"

text \<open>All steps, with those from outside: a client is accepted, the loop ends, a signal asks to stop, a sleeper wakes for no reason.\<close>

inductive locked_step :: "nat \<Rightarrow> locked_pool \<Rightarrow> locked_pool \<Rightarrow> bool" for n where
  worker: "locked_worker_step n s s' \<Longrightarrow> locked_step n s s'"
| main: "locked_main_step n s s' \<Longrightarrow> locked_step n s s'"
| accept: "\<lbrakk>mpc s = Accepting; 0 \<le> c\<rbrakk> \<Longrightarrow> locked_step n s (s\<lparr>mpc := PushLock c, laccepted := laccepted s @ [c]\<rparr>)"
| loop_end: "mpc s = Accepting \<Longrightarrow> locked_step n s (s\<lparr>mpc := ShutLock\<rparr>)"
| signal: "locked_step n s (http_server_request_stop s)"
| spurious: "\<lbrakk>i < n; wpc s i = PopWait\<rbrakk> \<Longrightarrow> locked_step n s (s\<lparr>wpc := (wpc s)(i := PopWake)\<rparr>)"

definition locked_init :: "HTTPServerOptions \<Rightarrow> locked_pool \<Rightarrow> bool" where
  "locked_init opts s \<longleftrightarrow> 0 < opt_queue_capacity opts \<and> unat (opt_queue_capacity opts) < 2 ^ 62 \<and>
     http_request_queue_init (opt_queue_capacity opts) True True True = Some (lqueue s) \<and>
     options s = opts \<and> completed_responses s = 0 \<and> \<not> http_server_stop_requested s \<and>
     holder s = None \<and> wpc s = (\<lambda>_. PopLock) \<and> mpc s = Accepting \<and> laccepted s = [] \<and> lclosed s = []"

section \<open>The pool that is seen\<close>

fun seen_worker :: "worker_pc \<Rightarrow> worker" where
  "seen_worker PopWait = Asleep"
| "seen_worker (PopUnlock c) = (if c = HTTP_INVALID_SOCKET then Exited else Handling c)"
| "seen_worker (Serving c) = Handling c"
| "seen_worker PopReturned = Exited"
| "seen_worker Gone = Exited"
| "seen_worker _ = Popping"

fun seen_queue :: "main_pc \<Rightarrow> HTTPRequestQueue \<Rightarrow> HTTPRequestQueue" where
  "seen_queue (PushSignal q c) _ = q"
| "seen_queue ShutBroadcast q = q\<lparr>shutting_down := False\<rparr>"
| "seen_queue _ q = q"

fun push_pending :: "main_pc \<Rightarrow> bool" where
  "push_pending (PushLock c) = True"
| "push_pending (PushTest c) = True"
| "push_pending (PushSignal q c) = True"
| "push_pending _ = False"

fun refusing :: "main_pc \<Rightarrow> bool" where
  "refusing (PushUnlock False c) = True"
| "refusing (Refusing c) = True"
| "refusing _ = False"

definition seen_note :: "main_pc \<Rightarrow> 'a HTTPServerContext_scheme \<Rightarrow> 'a HTTPServerContext_scheme" where
  "seen_note pc s = (if refusing pc then http_server_note_response_complete s else s)"

definition seen :: "locked_pool \<Rightarrow> server_pool" where
  "seen s = (let x = seen_note (mpc s) s in
     \<lparr>options = options x, completed_responses = completed_responses x, http_server_stop_requested = http_server_stop_requested x,
      queue = seen_queue (mpc s) (lqueue s), workers = \<lambda>i. seen_worker (wpc s i), listening = mpc s \<noteq> ShutUnlock \<and> mpc s \<noteq> Joining,
      accepted = (if push_pending (mpc s) then butlast (laccepted s) else laccepted s), closed = lclosed s\<rparr>)"

section \<open>The invariant\<close>

fun main_critical :: "main_pc \<Rightarrow> bool" where
  "main_critical (PushTest c) = True"
| "main_critical (PushSignal q c) = True"
| "main_critical (PushUnlock b c) = True"
| "main_critical ShutSet = True"
| "main_critical ShutBroadcast = True"
| "main_critical ShutUnlock = True"
| "main_critical _ = False"

fun pop_critical :: "worker_pc \<Rightarrow> bool" where
  "pop_critical PopTest = True"
| "pop_critical (PopUnlock c) = True"
| "pop_critical _ = False"

text \<open>The mutex is held by the thread between its lock and its unlock, and by no other.\<close>

definition mutex_inv :: "nat \<Rightarrow> locked_pool \<Rightarrow> bool" where
  "mutex_inv n s \<longleftrightarrow> (holder s = Some MainThread \<longleftrightarrow> main_critical (mpc s)) \<and> (\<forall>i<n. holder s = Some (Worker i) \<longleftrightarrow> pop_critical (wpc s i)) \<and>
     (\<forall>i. holder s = Some (Worker i) \<longrightarrow> i < n)"

definition flag_inv :: "nat \<Rightarrow> locked_pool \<Rightarrow> bool" where
  "flag_inv n s \<longleftrightarrow> (shutting_down (lqueue s) \<longleftrightarrow> mpc s \<in> {ShutBroadcast, ShutUnlock, Joining}) \<and>
     (\<forall>q c. mpc s = PushSignal q c \<longrightarrow> http_request_queue_push q c = Some (lqueue s, True)) \<and>
     (\<forall>c. mpc s = PushLock c \<or> mpc s = PushTest c \<or> (\<exists>q. mpc s = PushSignal q c) \<longrightarrow> 0 \<le> c \<and> laccepted s \<noteq> [] \<and> last (laccepted s) = c) \<and>
     (\<forall>i<n. wpc s i = PopReturned \<or> wpc s i = PopUnlock HTTP_INVALID_SOCKET \<longrightarrow> shutting_down (lqueue s))"

definition locked_inv :: "nat \<Rightarrow> locked_pool \<Rightarrow> bool" where
  "locked_inv n s \<longleftrightarrow> mutex_inv n s \<and> flag_inv n s"

lemmas locked_defs = locked_inv_def flag_inv_def

lemma locked_note [simp]:
  fixes s :: "'a locked_pool_scheme"
  shows "lqueue (http_server_note_response_complete s) = lqueue s" "holder (http_server_note_response_complete s) = holder s"
    "wpc (http_server_note_response_complete s) = wpc s" "mpc (http_server_note_response_complete s) = mpc s"
    "laccepted (http_server_note_response_complete s) = laccepted s" "lclosed (http_server_note_response_complete s) = lclosed s"
  by (simp_all add: http_server_note_response_complete_def http_server_request_stop_def Let_def)

lemma locked_stop [simp]:
  fixes s :: "'a locked_pool_scheme"
  shows "lqueue (http_server_request_stop s) = lqueue s" "holder (http_server_request_stop s) = holder s"
    "wpc (http_server_request_stop s) = wpc s" "mpc (http_server_request_stop s) = mpc s"
    "laccepted (http_server_request_stop s) = laccepted s" "lclosed (http_server_request_stop s) = lclosed s"
  by (simp_all add: http_server_request_stop_def)

lemma seen_simps [simp]:
  "queue (seen s) = seen_queue (mpc s) (lqueue s)" "workers (seen s) = (\<lambda>i. seen_worker (wpc s i))"
  "listening (seen s) \<longleftrightarrow> mpc s \<noteq> ShutUnlock \<and> mpc s \<noteq> Joining"
  "accepted (seen s) = (if push_pending (mpc s) then butlast (laccepted s) else laccepted s)" "closed (seen s) = lclosed s"
  by (simp_all add: seen_def Let_def)

text \<open>Two states are seen alike if their contexts agree up to the refusal that is under way.\<close>

lemma seen_eqI:
  assumes "options p = options (seen s)" "completed_responses p = completed_responses (seen s)"
    "http_server_stop_requested p = http_server_stop_requested (seen s)" "queue p = queue (seen s)" "workers p = workers (seen s)"
    "listening p = listening (seen s)" "accepted p = accepted (seen s)" "closed p = closed (seen s)"
  shows "p = seen s"
  using assms by (cases p; cases "seen s") simp

text \<open>The context of a pool, and that counting commutes with what other threads do to it.\<close>

definition ctx :: "'a HTTPServerContext_scheme \<Rightarrow> HTTPServerOptions \<times> 64 word \<times> bool" where
  "ctx s = (options s, completed_responses s, http_server_stop_requested s)"

fun ctx_note :: "HTTPServerOptions \<times> 64 word \<times> bool \<Rightarrow> HTTPServerOptions \<times> 64 word \<times> bool" where
  "ctx_note (opts, n, stop) = (opts, n + 1, stop \<or> 0 < opt_max_requests opts \<and> ucast (opt_max_requests opts) \<le> n + 1)"

fun ctx_stop :: "HTTPServerOptions \<times> 64 word \<times> bool \<Rightarrow> HTTPServerOptions \<times> 64 word \<times> bool" where
  "ctx_stop (opts, n, stop) = (opts, n, True)"

lemma ctx_simps [simp]:
  "ctx (http_server_note_response_complete s) = ctx_note (ctx s)" "ctx (http_server_request_stop s) = ctx_stop (ctx s)"
  by (auto simp: ctx_def http_server_note_response_complete_def http_server_request_stop_def Let_def)

lemma ctx_commute: "ctx_note (ctx_stop x) = ctx_stop (ctx_note x)"
  by (cases x) simp

lemma ctx_seen: "ctx (seen s) = (if refusing (mpc s) then ctx_note (ctx s) else ctx s)"
proof -
  have "ctx (seen s) = ctx (seen_note (mpc s) s)" by (simp add: ctx_def seen_def Let_def)
  then show ?thesis by (simp add: seen_note_def)
qed

lemma seen_eq:
  assumes "ctx p = ctx (seen s)" "queue p = queue (seen s)" "workers p = workers (seen s)" "listening p = listening (seen s)"
    "accepted p = accepted (seen s)" "closed p = closed (seen s)"
  shows "p = seen s"
  using assms by (intro seen_eqI) (simp_all add: ctx_def)

lemma ctx_upd [simp]:
  fixes s :: locked_pool and p :: server_pool
  shows "ctx (s\<lparr>lqueue := q\<rparr>) = ctx s" "ctx (s\<lparr>holder := h\<rparr>) = ctx s" "ctx (s\<lparr>wpc := w\<rparr>) = ctx s" "ctx (s\<lparr>mpc := c\<rparr>) = ctx s"
    "ctx (s\<lparr>laccepted := a\<rparr>) = ctx s" "ctx (s\<lparr>lclosed := l\<rparr>) = ctx s"
    "ctx (p\<lparr>queue := q\<rparr>) = ctx p" "ctx (p\<lparr>workers := ws\<rparr>) = ctx p" "ctx (p\<lparr>listening := b\<rparr>) = ctx p" "ctx (p\<lparr>accepted := a\<rparr>) = ctx p"
    "ctx (p\<lparr>closed := l\<rparr>) = ctx p"
  by (simp_all add: ctx_def)

lemma push_flag:
  assumes "http_request_queue_push q c = Some (q', ok)"
  shows "shutting_down q' = shutting_down q" "ok \<Longrightarrow> \<not> shutting_down q"
  using assms by (auto simp: http_request_queue_push_def split: if_splits Option.bind_splits)

lemma pop_flag: "http_request_queue_pop q = Some (q', c) \<Longrightarrow> shutting_down q' = shutting_down q"
  by (auto simp: http_request_queue_pop_def split: if_splits Option.bind_splits)

lemmas mutex_defs = platform_mutex_lock_def platform_mutex_unlock_def platform_cond_wait_def

subsection \<open>Exclusion\<close>

lemma critical_unique:
  assumes "mutex_inv n s" "i < n" "j < n" "pop_critical (wpc s i)" "pop_critical (wpc s j)"
  shows "i = j"
proof -
  have "holder s = Some (Worker i)" "holder s = Some (Worker j)" using assms by (auto simp: mutex_inv_def)
  then show ?thesis by simp
qed

text \<open>A worker that gives the mutex back was the only one inside.\<close>

lemma mutex_given_back:
  assumes "mutex_inv n s" "i < n" "pop_critical (wpc s i)" "\<not> pop_critical x"
  shows "mutex_inv n (s\<lparr>holder := None, wpc := (wpc s)(i := x)\<rparr>)"
proof -
  have "\<not> main_critical (mpc s)" using assms(1-3) by (auto simp: mutex_inv_def)
  moreover have "\<not> pop_critical (((wpc s)(i := x)) j)" if "j < n" for j
    using critical_unique [OF assms(1,2) that assms(3)] assms(4) by auto
  ultimately show ?thesis by (simp add: mutex_inv_def)
qed

lemma mutex_worker: "locked_worker_step n s s' \<Longrightarrow> mutex_inv n s \<Longrightarrow> mutex_inv n s'"
proof (induction rule: locked_worker_step.induct)
  case (wait i s s')
  then show ?case using mutex_given_back [of n s i PopWait] by (auto simp: mutex_defs split: if_splits)
next
  case (unlock i s c h)
  then show ?case using mutex_given_back [of n s i "if c = HTTP_INVALID_SOCKET then PopReturned else Serving c"]
    by (auto simp: mutex_defs split: if_splits)
qed (auto simp: mutex_inv_def mutex_defs split: if_splits)

lemma critical_mono:
  "platform_cond_signal n ws ws' \<Longrightarrow> pop_critical (ws' i) = pop_critical (ws i)" "pop_critical (platform_cond_broadcast ws i) = pop_critical (ws i)"
  by (auto simp: platform_cond_broadcast_def elim!: platform_cond_signal.cases split: if_splits)

lemma mutex_main: "locked_main_step n s s' \<Longrightarrow> mutex_inv n s \<Longrightarrow> mutex_inv n s'"
  by (induction rule: locked_main_step.induct) (auto simp: mutex_inv_def mutex_defs critical_mono split: if_splits)

lemma mutex_step: "locked_step n s s' \<Longrightarrow> mutex_inv n s \<Longrightarrow> mutex_inv n s'"
  by (induction rule: locked_step.induct) (auto simp: mutex_main mutex_worker, auto simp: mutex_inv_def)

text \<open>A worker that holds the mutex sees the queue as it is.\<close>

lemma worker_sees: "mutex_inv n s \<Longrightarrow> i < n \<Longrightarrow> pop_critical (wpc s i) \<Longrightarrow> seen_queue (mpc s) (lqueue s) = lqueue s \<and> mpc s \<noteq> ShutBroadcast \<and> mpc s \<noteq> ShutUnlock"
  by (cases "mpc s") (auto simp: mutex_inv_def)

lemma seen_worker_upd: "(\<lambda>j. seen_worker ((ws(i := x)) j)) = (\<lambda>j. seen_worker (ws j))(i := seen_worker x)"
  by auto

subsection \<open>Steps of the workers\<close>

definition stays :: "nat \<Rightarrow> locked_pool \<Rightarrow> locked_pool \<Rightarrow> bool" where
  "stays n s s' \<longleftrightarrow> seen s' = seen s \<or> pool_step n (seen s) (seen s')"

lemma stays_same: "seen s = seen s' \<Longrightarrow> stays n s s'"
  by (simp add: stays_def)

lemma stays_step: "pool_step n (seen s) p \<Longrightarrow> p = seen s' \<Longrightarrow> stays n s s'"
  by (simp add: stays_def)

lemma pop_none:
  assumes "pool_inv n cap xs (seen s)" "seen_queue (mpc s) (lqueue s) = lqueue s" "http_request_queue_pop (lqueue s) = Some (q, c)"
    "\<not> http_request_queue_waits (lqueue s)" "c = HTTP_INVALID_SOCKET"
  shows "q = lqueue s" "shutting_down (lqueue s)"
proof -
  note v = pool_invD [OF assms(1)]
  have r: "queue_rep (lqueue s) cap (\<not> listening (seen s)) xs" using v(1) assms(2) by simp
  from pop_inv [OF r v(2) assms(3)] assms(5) have "xs = []" "q = lqueue s" by auto
  then show "q = lqueue s" "shutting_down (lqueue s)"
    using queue_rep_count [OF r] assms(4) by (auto simp: http_request_queue_waits_def unat_eq_zero)
qed

lemma worker_stays:
  assumes "locked_worker_step n s s'" "locked_inv n s" "pool_inv n cap xs (seen s)"
  shows "stays n s s'"
  using assms
proof (induction rule: locked_worker_step.induct)
  case (lock i s h)
  then show ?case by (intro stays_same seen_eq) (auto simp: ctx_seen fun_eq_iff)
next
  case (wait i s s')
  then have m: "seen_queue (mpc s) (lqueue s) = lqueue s" using worker_sees [of n s i] by (simp add: locked_defs)
  have "pool_step n (seen s) ((seen s)\<lparr>workers := (workers (seen s))(i := Asleep)\<rparr>)"
    using wait m by (intro pool_step.worker worker_step.sleep) auto
  then show ?case
    by (rule stays_step, intro seen_eq) (use wait.hyps(4) in \<open>auto simp: ctx_seen mutex_defs fun_eq_iff split: if_splits\<close>)
next
  case (pop i s q c)
  then have m: "seen_queue (mpc s) (lqueue s) = lqueue s" "mpc s \<noteq> ShutBroadcast" using worker_sees [of n s i] by (auto simp: locked_defs)
  have sq: "seen_queue (mpc s) q = q" using m by (cases "mpc s") (use pop in \<open>auto simp: locked_defs mutex_inv_def\<close>)
  show ?case
  proof (cases "c = HTTP_INVALID_SOCKET")
    case True
    note e = pop_none [OF pop.prems(2) m(1) pop.hyps(4,3) True]
    have "pool_step n (seen s) ((seen s)\<lparr>queue := q, workers := (workers (seen s))(i := Exited)\<rparr>)"
      using pop True e m by (intro pool_step.worker worker_step.leave) auto
    then show ?thesis by (rule stays_step, intro seen_eq) (use True sq in \<open>auto simp: ctx_seen fun_eq_iff\<close>)
  next
    case False
    have "pool_step n (seen s) ((seen s)\<lparr>queue := q, workers := (workers (seen s))(i := Handling c)\<rparr>)"
      using pop False m by (intro pool_step.worker worker_step.take) auto
    then show ?thesis by (rule stays_step, intro seen_eq) (use False sq in \<open>auto simp: ctx_seen fun_eq_iff\<close>)
  qed
next
  case (unlock i s c h)
  then show ?case by (intro stays_same seen_eq) (auto simp: ctx_seen fun_eq_iff)
next
  case (leave i s)
  then show ?case by (intro stays_same seen_eq) (auto simp: ctx_seen fun_eq_iff)
next
  case (again i s)
  then show ?case by (auto simp: locked_defs)
next
  case (serve i s c)
  have "pool_step n (seen s) ((http_server_note_response_complete (seen s))\<lparr>workers := (workers (seen s))(i := Popping), closed := closed (seen s) @ [c]\<rparr>)"
    using serve by (intro pool_step.worker worker_step.serve) auto
  then show ?case by (rule stays_step, intro seen_eq) (auto simp: ctx_seen fun_eq_iff)
qed

subsection \<open>Steps of the main thread\<close>

lemma signal_stays:
  assumes "platform_cond_signal n (wpc s) ws" "mpc s = PushSignal q c" "locked_inv n s"
  shows "stays n s (s\<lparr>wpc := ws, mpc := PushUnlock True c\<rparr>)"
proof -
  have p: "http_request_queue_push q c = Some (lqueue s, True)" "0 \<le> c" "laccepted s \<noteq> []" "last (laccepted s) = c"
    using assms(2,3) by (auto simp: locked_defs)
  then have a: "butlast (laccepted s) @ [c] = laccepted s" by auto
  from assms(1) show ?thesis
  proof cases
    case (one i)
    have "pool_step n (seen s) ((seen s)\<lparr>queue := lqueue s, accepted := accepted (seen s) @ [c], workers := (workers (seen s))(i := Popping)\<rparr>)"
      using one p assms(2) by (intro pool_step.push_wake) auto
    then show ?thesis by (rule stays_step, intro seen_eq) (use one assms(2) a in \<open>auto simp: ctx_seen fun_eq_iff\<close>)
  next
    case none
    then have "\<forall>i<n. seen_worker (wpc s i) \<noteq> Asleep" by (metis seen_worker.simps worker.distinct worker_pc.exhaust)
    then have "pool_step n (seen s) ((seen s)\<lparr>queue := lqueue s, accepted := accepted (seen s) @ [c]\<rparr>)"
      using p assms(2) by (intro pool_step.push_quiet) auto
    then show ?thesis by (rule stays_step, intro seen_eq) (use none assms(2) a in \<open>auto simp: ctx_seen fun_eq_iff\<close>)
  qed
qed

lemma broadcast_seen: "(\<lambda>i. seen_worker (platform_cond_broadcast ws i)) = wake_all (\<lambda>i. seen_worker (ws i))"
proof
  fix i
  show "seen_worker (platform_cond_broadcast ws i) = wake_all (\<lambda>i. seen_worker (ws i)) i"
    by (cases "ws i") (simp_all add: platform_cond_broadcast_def wake_all_def)
qed

lemma main_stays:
  assumes "locked_main_step n s s'" "locked_inv n s"
  shows "stays n s s'"
  using assms
proof (induction rule: locked_main_step.induct)
  case (push_full s c q)
  then have a: "butlast (laccepted s) @ [c] = laccepted s" "0 \<le> c" by (auto simp: locked_defs)
  have "pool_step n (seen s) ((http_server_note_response_complete (seen s))\<lparr>queue := q, accepted := accepted (seen s) @ [c], closed := closed (seen s) @ [c]\<rparr>)"
    using push_full a by (intro pool_step.refuse) auto
  then show ?case by (rule stays_step, intro seen_eq) (use push_full a in \<open>auto simp: ctx_seen fun_eq_iff\<close>)
next
  case (push_signal s q c ws)
  then show ?case by (intro signal_stays) auto
next
  case (push_unlock s pushed c h)
  then show ?case by (intro stays_same seen_eq) (cases pushed, auto simp: ctx_seen)
next
  case (shut_set s)
  then have "\<not> shutting_down (lqueue s)" by (auto simp: locked_defs)
  then have "lqueue s\<lparr>shutting_down := False\<rparr> = lqueue s" by (cases "lqueue s") simp
  then show ?case by (intro stays_same seen_eq) (use shut_set in \<open>auto simp: ctx_seen http_request_queue_shutdown_def\<close>)
next
  case (shut_broadcast s)
  then have "shutting_down (lqueue s)" by (auto simp: locked_defs)
  then have q: "lqueue s\<lparr>shutting_down := True\<rparr> = lqueue s" by (cases "lqueue s") simp
  have "pool_step n (seen s) ((seen s)\<lparr>listening := False, queue := http_request_queue_shutdown (queue (seen s)), workers := wake_all (workers (seen s))\<rparr>)"
    using shut_broadcast by (intro pool_step.shutdown) auto
  then show ?case by (rule stays_step, intro seen_eq) (use shut_broadcast q in \<open>auto simp: ctx_seen broadcast_seen http_request_queue_shutdown_def\<close>)
qed (intro stays_same seen_eq; auto simp: ctx_seen)+

lemma locked_stays:
  assumes "locked_step n s s'" "locked_inv n s" "pool_inv n cap xs (seen s)"
  shows "stays n s s'"
  using assms
proof (induction rule: locked_step.induct)
  case (worker s s')
  then show ?case by (rule worker_stays)
next
  case (main s s')
  then show ?case by (intro main_stays)
next
  case (signal s)
  have "pool_step n (seen s) (http_server_request_stop (seen s))" by (rule pool_step.signal)
  then show ?case by (rule stays_step, intro seen_eq) (auto simp: ctx_seen ctx_commute)
next
  case (spurious i s)
  have "pool_step n (seen s) ((seen s)\<lparr>workers := (workers (seen s))(i := Popping)\<rparr>)"
    using spurious by (intro pool_step.spurious) auto
  then show ?case by (rule stays_step, intro seen_eq) (auto simp: ctx_seen fun_eq_iff)
qed (intro stays_same seen_eq; auto simp: ctx_seen)+

subsection \<open>Every step keeps the invariant\<close>

lemma flag_worker:
  assumes "locked_worker_step n s s'" "locked_inv n s" "pool_inv n cap xs (seen s)"
  shows "flag_inv n s'"
  using assms
proof (induction rule: locked_worker_step.induct)
  case (pop i s q c)
  have sees: "seen_queue (mpc s) (lqueue s) = lqueue s" "\<not> main_critical (mpc s)"
    using worker_sees [of n s i] pop by (auto simp: locked_inv_def mutex_inv_def)
  have "c = HTTP_INVALID_SOCKET \<Longrightarrow> shutting_down q"
    using pop_none(2) [OF pop.prems(2) sees(1) pop.hyps(4,3)] pop_flag [OF pop.hyps(4)] by simp
  then show ?case using pop.prems(1) sees(2) pop_flag [OF pop.hyps(4)] by (auto simp: locked_defs)
qed (auto simp: locked_defs mutex_defs split: if_splits)

lemma signal_pc: "platform_cond_signal n ws ws' \<Longrightarrow> ws' i = PopReturned \<or> ws' i = PopUnlock c \<Longrightarrow> ws i = ws' i"
  by (auto elim!: platform_cond_signal.cases split: if_splits)

lemma broadcast_pc: "platform_cond_broadcast ws i = PopReturned \<or> platform_cond_broadcast ws i = PopUnlock c \<Longrightarrow> ws i = platform_cond_broadcast ws i"
  by (auto simp: platform_cond_broadcast_def split: if_splits)

lemma flag_main:
  assumes "locked_main_step n s s'" "locked_inv n s"
  shows "flag_inv n s'"
  using assms
proof (induction rule: locked_main_step.induct)
  case (push s c q)
  then show ?case using push_flag [OF push.hyps(2)] by (auto simp: locked_defs)
next
  case (push_full s c q)
  then show ?case using push_flag [OF push_full.hyps(2)] by (auto simp: locked_defs)
next
  case (push_signal s q c ws)
  then show ?case using signal_pc [OF push_signal.hyps(2)] by (fastforce simp: locked_defs)
next
  case (shut_broadcast s)
  then show ?case using broadcast_pc by (fastforce simp: locked_defs)
qed (auto simp: locked_defs http_request_queue_shutdown_def split: if_splits)

lemma locked_inv_step:
  assumes "locked_step n s s'" "locked_inv n s" "pool_inv n cap xs (seen s)"
  shows "locked_inv n s'"
proof -
  have "mutex_inv n s'" using mutex_step [OF assms(1)] assms(2) by (simp add: locked_inv_def)
  moreover have "flag_inv n s'" using assms
  proof (induction rule: locked_step.induct)
    case (worker s s')
    then show ?case by (rule flag_worker)
  next
    case (main s s')
    then show ?case by (intro flag_main)
  qed (auto simp: locked_defs)
  ultimately show ?thesis by (simp add: locked_inv_def)
qed

lemma locked_simulates:
  assumes "(locked_step n)\<^sup>*\<^sup>* s s'" "locked_inv n s" "pool_inv n cap xs (seen s)"
  shows "locked_inv n s' \<and> (\<exists>ys. pool_inv n cap ys (seen s')) \<and> (pool_step n)\<^sup>*\<^sup>* (seen s) (seen s')"
  using assms
proof (induction rule: rtranclp_induct)
  case (step y z)
  then obtain ys where y: "locked_inv n y" "pool_inv n cap ys (seen y)" "(pool_step n)\<^sup>*\<^sup>* (seen s) (seen y)" by blast
  have "(pool_step n)\<^sup>*\<^sup>* (seen s) (seen z)" "\<exists>zs. pool_inv n cap zs (seen z)"
    using locked_stays [OF step.hyps(2) y(1,2)] y(2,3) pool_inv_step [of n "seen y" "seen z"]
    by (auto simp: stays_def intro: rtranclp.rtrancl_into_rtrancl)
  then show ?case using locked_inv_step [OF step.hyps(2) y(1,2)] by blast
qed auto

lemma locked_init_inv:
  assumes "locked_init opts s"
  shows "locked_inv n s" "pool_init opts (seen s)"
proof -
  have "\<not> shutting_down (lqueue s)"
    using assms by (auto simp: locked_init_def http_request_queue_init_def dest!: sym [of _ "lqueue s"] split: if_splits)
  then show "locked_inv n s" "pool_init opts (seen s)"
    using assms by (simp_all add: locked_init_def locked_defs mutex_inv_def pool_init_def seen_def seen_note_def)
qed

subsection \<open>No wake-up is lost\<close>

lemma pop_defined: "queue_rep q cap d xs \<Longrightarrow> \<exists>q' c. http_request_queue_pop q = Some (q', c)"
  using queue_pop_empty rq.pop_first by (cases xs) blast+

text \<open>The thread that holds the mutex is never blocked.\<close>

lemma holder_progress:
  assumes "locked_inv n s" "pool_inv n cap xs (seen s)" "holder s = Some (Worker i)"
  shows "\<exists>s'. locked_worker_step n s s'"
proof -
  have m: "mutex_inv n s" using assms(1) by (simp add: locked_inv_def)
  then have i: "i < n" "pop_critical (wpc s i)" using assms(3) by (auto simp: mutex_inv_def)
  obtain q c where p: "http_request_queue_pop (lqueue s) = Some (q, c)"
    using pop_defined [OF pool_invD(1) [OF assms(2)]] worker_sees [OF m i] by auto
  show ?thesis
  proof (cases "wpc s i")
    case PopTest
    then show ?thesis using locked_worker_step.wait [OF i(1) PopTest, of "s\<lparr>holder := None, wpc := (wpc s)(i := PopWait)\<rparr>"]
        locked_worker_step.pop [OF i(1) PopTest _ p] assms(3) by (auto simp: mutex_defs)
  next
    case (PopUnlock c)
    then show ?thesis using locked_worker_step.unlock [OF i(1) PopUnlock] assms(3) by (auto simp: mutex_defs)
  qed (use i(2) in simp_all)
qed

text \<open>While the main thread joins, some worker can go on until all of them are gone.\<close>

lemma joining_progress:
  assumes "locked_inv n s" "pool_inv n cap xs (seen s)" "mpc s = Joining" "i < n" "wpc s i \<noteq> Gone"
  shows "\<exists>s'. locked_worker_step n s s'"
proof (cases "\<exists>j. holder s = Some (Worker j)")
  case True
  then show ?thesis using holder_progress [OF assms(1,2)] by blast
next
  case False
  have m: "mutex_inv n s" "shutting_down (lqueue s)" using assms(1,3) by (auto simp: locked_defs)
  then have h: "holder s = None" using False assms(3) by (cases "holder s"; cases "the (holder s)") (auto simp: mutex_inv_def)
  have "wpc s i \<noteq> PopWait" using pool_invD(4) [OF assms(2,4)] assms(3) by auto
  moreover have "\<not> pop_critical (wpc s i)" using m(1) False assms(4) by (auto simp: mutex_inv_def)
  ultimately show ?thesis using h assms(4,5) m(2) locked_worker_step.lock [of i n s] locked_worker_step.leave [of i n s]
      locked_worker_step.serve [of i n s]
    by (cases "wpc s i") (auto simp: mutex_defs)
qed

lemma push_defined: "queue_rep q cap d xs \<Longrightarrow> \<exists>q' ok. http_request_queue_push q c = Some (q', ok)"
  by (rule rq.push_cases [of q cap d xs c]) blast+

lemma main_progress:
  assumes "locked_inv n s" "pool_inv n cap xs (seen s)" "mpc s \<noteq> Accepting" "mpc s \<noteq> Joining"
  shows "\<exists>s'. locked_worker_step n s s' \<or> locked_main_step n s s'"
proof (cases "\<exists>i. holder s = Some (Worker i)")
  case True
  then show ?thesis using holder_progress [OF assms(1,2)] by blast
next
  case False
  have m: "holder s = Some MainThread \<longleftrightarrow> main_critical (mpc s)" using assms(1) by (simp add: locked_inv_def mutex_inv_def)
  have h: "holder s = (if main_critical (mpc s) then Some MainThread else None)"
    using m False by (cases "holder s"; cases "the (holder s)") auto
  have sig: "\<exists>ws. platform_cond_signal n (wpc s) ws" by (cases "\<exists>i<n. wpc s i = PopWait") (blast intro: platform_cond_signal.intros)+
  show ?thesis
  proof (cases "mpc s")
    case (PushTest c)
    then obtain q ok where "http_request_queue_push (lqueue s) c = Some (q, ok)"
      using push_defined [OF pool_invD(1) [OF assms(2)], of c] by auto
    then show ?thesis using locked_main_step.push [OF PushTest] locked_main_step.push_full [OF PushTest] by (cases ok) fastforce+
  next
    case (PushSignal q c)
    then show ?thesis using sig locked_main_step.push_signal by blast
  next
    case (Refusing c)
    then show ?thesis using locked_main_step.refused by blast
  qed (use h assms(3,4) locked_main_step.push_lock [of s] locked_main_step.push_unlock [of s] locked_main_step.shut_lock [of s]
      locked_main_step.shut_set [of s] locked_main_step.shut_broadcast [of s] locked_main_step.shut_unlock [of s]
    in \<open>auto simp: mutex_defs\<close>)
qed

section \<open>Properties\<close>

text \<open>
  C32. The mutex and the condition variable make the queue operations atomic: whatever the interleaving of the single calls, no two threads are
  between their lock and their unlock, every run is a run of the pool whose pushes, pops and shutdown are single steps, and
  the threads never block each other: where no thread can go on, the main thread is waiting for a client, or it is joining and all the workers
  have ended.
\<close>

theorem http_queue_locking_refines:
  assumes "locked_init opts s0" "(locked_step n)\<^sup>*\<^sup>* s0 s"
  shows "pool_init opts (seen s0) \<and> (pool_step n)\<^sup>*\<^sup>* (seen s0) (seen s) \<and>
    (\<forall>i<n. \<forall>j<n. pop_critical (wpc s i) \<and> pop_critical (wpc s j) \<longrightarrow> i = j) \<and>
    (\<forall>i<n. pop_critical (wpc s i) \<longrightarrow> \<not> main_critical (mpc s)) \<and>
    ((\<forall>s'. \<not> locked_worker_step n s s' \<and> \<not> locked_main_step n s s') \<longrightarrow> mpc s = Accepting \<or> mpc s = Joining \<and> (\<forall>i<n. wpc s i = Gone))"
proof -
  note i = locked_init_inv [OF assms(1)]
  obtain ys where s: "locked_inv n s" "pool_inv n (unat (opt_queue_capacity opts)) ys (seen s)" "(pool_step n)\<^sup>*\<^sup>* (seen s0) (seen s)"
    using locked_simulates [OF assms(2) i(1) pool_inv_init [OF i(2)]] by blast
  have m: "mutex_inv n s" using s(1) by (simp add: locked_inv_def)
  have "\<forall>i<n. pop_critical (wpc s i) \<longrightarrow> \<not> main_critical (mpc s)" using m by (auto simp: mutex_inv_def)
  moreover have "\<forall>i<n. \<forall>j<n. pop_critical (wpc s i) \<and> pop_critical (wpc s j) \<longrightarrow> i = j" using critical_unique [OF m] by blast
  moreover have "mpc s = Accepting \<or> mpc s = Joining \<and> (\<forall>i<n. wpc s i = Gone)"
    if "\<forall>s'. \<not> locked_worker_step n s s' \<and> \<not> locked_main_step n s s'"
    using main_progress [OF s(1,2)] joining_progress [OF s(1,2)] that by blast
  ultimately show ?thesis using i(2) s(3) by blast
qed

definition locked0 :: locked_pool where
  "locked0 = \<lparr>options = http_server_options_default, completed_responses = 0, http_server_stop_requested = False,
     lqueue = \<lparr>items = replicate 16 None, q_head = 0, q_tail = 0, q_count = 0, q_capacity = 16, shutting_down = False\<rparr>,
     holder = None, wpc = \<lambda>_. PopLock, mpc = Accepting, laccepted = [], lclosed = []\<rparr>"

lemma locked0_init: "locked_init http_server_options_default locked0"
  by (simp add: locked_init_def locked0_def http_server_options_default_def http_request_queue_init_def)

text \<open>A worker goes to sleep, while the main thread has accepted a client.\<close>

theorem http_queue_locking_refines_witness:
  "\<exists>s. (locked_step 2)\<^sup>*\<^sup>* locked0 s \<and> wpc s 0 = PopWait \<and> mpc s = PushLock 5 \<and> (pool_step 2)\<^sup>*\<^sup>* (seen locked0) (seen s)"
proof -
  let ?s1 = "locked0\<lparr>holder := Some (Worker 0), wpc := (wpc locked0)(0 := PopTest)\<rparr>"
  let ?s2 = "?s1\<lparr>holder := None, wpc := (wpc ?s1)(0 := PopWait)\<rparr>"
  let ?s3 = "?s2\<lparr>mpc := PushLock 5, laccepted := laccepted ?s2 @ [5]\<rparr>"
  have "locked_step 2 locked0 ?s1" by (intro locked_step.worker locked_worker_step.lock) (simp_all add: locked0_def mutex_defs)
  moreover have "locked_step 2 ?s1 ?s2"
    by (intro locked_step.worker locked_worker_step.wait [of 0]) (simp_all add: locked0_def mutex_defs http_request_queue_waits_def)
  moreover have "locked_step 2 ?s2 ?s3" by (rule locked_step.accept) (simp_all add: locked0_def)
  ultimately have "(locked_step 2)\<^sup>*\<^sup>* locked0 ?s3" by (meson rtranclp.rtrancl_into_rtrancl rtranclp.rtrancl_refl)
  moreover from http_queue_locking_refines [OF locked0_init this] have "(pool_step 2)\<^sup>*\<^sup>* (seen locked0) (seen ?s3)" by blast
  ultimately show ?thesis by (intro exI [of _ ?s3]) simp
qed

end
