(* ===== verification/Api.thy ===== *)
theory Api
  imports DbServer
begin

text \<open>
  The HTTP and JSON layer of \<^verbatim>\<open>src/server/api.c\<close>: parsing of a request in its buffer, extraction of the query from the
  JSON body, and the responses. A request buffer is the list of its initialised bytes, with the size of the array
  beside it; a cursor is an offset, and reading a byte that is not initialised is undefined. Texts written into an array are
  checked against its size. Allocations go through the allocator of the memory, so that each of them can fail.
\<close>

section \<open>Library functions\<close>

abbreviation (input) CRLF :: string where "CRLF \<equiv> [CHR 0x0D, CHR 0x0A]"

fun strstr :: "string \<Rightarrow> string \<Rightarrow> nat option" where
  "strstr [] pat = (if pat = [] then Some 0 else None)"
| "strstr (c # s) pat = (if take (length pat) (c # s) = pat then Some 0 else map_option Suc (strstr s pat))"

fun memchr :: "string \<Rightarrow> char \<Rightarrow> nat option" where
  "memchr [] c = None"
| "memchr (x # s) c = (if x = c then Some 0 else map_option Suc (memchr s c))"

text \<open>
  \<^verbatim>\<open>strtoul\<close> in base ten: a number beyond 64 bits saturates, and a minus sign negates modulo \<open>2 ^ 64\<close>.
\<close>

definition strtoul10 :: "string \<Rightarrow> 64 word \<times> string" where
  "strtoul10 cur =
     (let s = dropWhile isspace cur;
          neg = (peek s = CHR ''-'');
          s = (if neg \<or> peek s = CHR ''+'' then tl s else s);
          ds = takeWhile isdigit s;
          v = digits_val ds
      in if ds = [] then (0, cur)
         else (if 18446744073709551615 < v then - 1 else if neg then - word_of_int v else word_of_int v, dropWhile isdigit s))"

text \<open>\<^verbatim>\<open>sscanf\<close> with a format of \<^verbatim>\<open>%s\<close> conversions of the given widths: the words that were stored.\<close>

fun sscanf_words :: "nat list \<Rightarrow> string \<Rightarrow> string list" where
  "sscanf_words [] s = []"
| "sscanf_words (w # ws) s =
     (let s = dropWhile isspace s;
          word = take w (takeWhile (\<lambda>c. \<not> isspace c) s)
      in if word = [] then [] else word # sscanf_words ws (drop (length word) s))"

section \<open>Data\<close>

datatype APIRequestMethod =
    API_METHOD_UNKNOWN
  | API_METHOD_GET
  | API_METHOD_POST

record APIRequest =
  req_method :: APIRequestMethod
  req_path :: string
  req_query :: string
  req_content_length :: "64 word"

record APIResponse =
  status_code :: int
  content_type :: "string option"
  resp_body :: "string option"

definition zero_response :: APIResponse where
  "zero_response = \<lparr>status_code = 0, content_type = None, resp_body = None\<rparr>"

section \<open>Requests\<close>

definition api_ascii_case_equal_char :: "char \<Rightarrow> char \<Rightarrow> bool" where
  "api_ascii_case_equal_char left right = (tolower left = tolower right)"

definition api_header_name_equals :: "string \<Rightarrow> string \<Rightarrow> nat \<Rightarrow> bool" where
  "api_header_name_equals left right len =
     (len = length right \<and> list_all2 api_ascii_case_equal_char (take len left) right)"

function api_skip_spaces :: "string \<Rightarrow> nat \<Rightarrow> nat \<Rightarrow> nat option" where
  "api_skip_spaces buf cursor end_ptr =
     (if cursor < end_ptr then do {
        c \<leftarrow> arr_get buf cursor;
        if isspace c then api_skip_spaces buf (Suc cursor) end_ptr else Some cursor
      } else Some cursor)"
  by pat_completeness auto
termination
  by (relation "measure (\<lambda>(buf, cursor, e). e - cursor)") auto

definition json_unescape :: "char \<Rightarrow> char option" where
  "json_unescape escaped =
     (if escaped = CHR 0x22 \<or> escaped = CHR 0x5C \<or> escaped = CHR ''/'' then Some escaped
      else if escaped = CHR ''n'' then Some (CHR 0x0A)
      else if escaped = CHR ''r'' then Some (CHR 0x0D)
      else if escaped = CHR ''t'' then Some (CHR 0x09)
      else None)"

text \<open>
  The loop of \<^verbatim>\<open>api_parse_json_string\<close>. The inner option is the return value: \<open>None\<close> for 0, and the cursor with the
  contents of the buffer for 1.
\<close>

function api_json_chars :: "string \<Rightarrow> nat \<Rightarrow> nat \<Rightarrow> string \<Rightarrow> nat \<Rightarrow> (nat \<times> string) option option" where
  "api_json_chars buf cursor end_ptr buffer buffer_size =
     (if cursor < end_ptr then do {
        current \<leftarrow> arr_get buf cursor;
        if current = CHR 0x22 then
          if length buffer < buffer_size then Some (Some (cursor + 1, buffer)) else None
        else if current = CHR 0x5C then
          if end_ptr \<le> Suc cursor then Some None
          else do {
            escaped \<leftarrow> arr_get buf (Suc cursor);
            case json_unescape escaped of
              None \<Rightarrow> Some None
            | Some current \<Rightarrow>
                if buffer_size \<le> length buffer + 1 then Some None
                else api_json_chars buf (Suc (Suc cursor)) end_ptr (buffer @ [current]) buffer_size
          }
        else if buffer_size \<le> length buffer + 1 then Some None
        else api_json_chars buf (Suc cursor) end_ptr (buffer @ [current]) buffer_size
      } else Some None)"
  by pat_completeness auto
termination
  by (relation "measure (\<lambda>(buf, cursor, e, buffer, n). e - cursor)") auto

declare api_skip_spaces.simps [simp del] api_json_chars.simps [simp del]

definition api_parse_json_string :: "string \<Rightarrow> nat \<Rightarrow> nat \<Rightarrow> nat \<Rightarrow> (nat \<times> string) option option" where
  "api_parse_json_string buf cursor end_ptr buffer_size =
     (if end_ptr \<le> cursor then Some None
      else do {
        c \<leftarrow> arr_get buf cursor;
        if c \<noteq> CHR 0x22 then Some None else api_json_chars buf (Suc cursor) end_ptr [] buffer_size
      })"

function api_skip_value :: "string \<Rightarrow> nat \<Rightarrow> nat \<Rightarrow> nat option" where
  "api_skip_value buf cursor end_ptr =
     (if cursor < end_ptr then do {
        c \<leftarrow> arr_get buf cursor;
        if c \<noteq> CHR '','' \<and> c \<noteq> CHR ''}'' then api_skip_value buf (Suc cursor) end_ptr else Some cursor
      } else Some cursor)"
  by pat_completeness auto
termination
  by (relation "measure (\<lambda>(buf, cursor, e). e - cursor)") auto

declare api_skip_value.simps [simp del]

text \<open>One round of the loop over the fields of the object: it ends the search or moves to the next field.\<close>

datatype field_result =
    Found string
  | NotFound
  | NextField nat

definition api_skip_field :: "string \<Rightarrow> nat \<Rightarrow> nat \<Rightarrow> field_result option" where
  "api_skip_field buf cursor end_ptr = do {
     c \<leftarrow> arr_get buf cursor;
     skipped \<leftarrow>
       (if c = CHR 0x22 then map_option (map_option fst) (api_parse_json_string buf cursor end_ptr 16)
        else map_option Some (api_skip_value buf cursor end_ptr));
     case skipped of
       None \<Rightarrow> Some NotFound
     | Some cursor \<Rightarrow> do {
         cursor \<leftarrow> api_skip_spaces buf cursor end_ptr;
         if cursor < end_ptr then do {
           c \<leftarrow> arr_get buf cursor;
           Some (NextField (if c = CHR '','' then Suc cursor else cursor))
         } else Some (NextField cursor)
       }
   }"

definition api_extract_field :: "string \<Rightarrow> nat \<Rightarrow> nat \<Rightarrow> nat \<Rightarrow> field_result option" where
  "api_extract_field buf cursor end_ptr query_size = do {
     cursor \<leftarrow> api_skip_spaces buf cursor end_ptr;
     brace \<leftarrow> (if cursor < end_ptr then map_option (\<lambda>c. c = CHR ''}'') (arr_get buf cursor) else Some False);
     if brace then Some NotFound
     else do {
       parsed \<leftarrow> api_parse_json_string buf cursor end_ptr 64;
       case parsed of
         None \<Rightarrow> Some NotFound
       | Some (cursor, key) \<Rightarrow> do {
           cursor \<leftarrow> api_skip_spaces buf cursor end_ptr;
           colon \<leftarrow> (if cursor < end_ptr then map_option (\<lambda>c. c = CHR '':'') (arr_get buf cursor) else Some False);
           if \<not> colon then Some NotFound
           else do {
             cursor \<leftarrow> api_skip_spaces buf (Suc cursor) end_ptr;
             if cstr key = ''query'' then do {
               parsed \<leftarrow> api_parse_json_string buf cursor end_ptr query_size;
               (case parsed of None \<Rightarrow> Some NotFound | Some (_, q) \<Rightarrow> Some (Found q))
             } else api_skip_field buf cursor end_ptr
           }
         }
     }
   }"

text \<open>Every round moves the cursor, so the loop ends.\<close>

lemma skip_spaces_le: "api_skip_spaces buf cursor e = Some c \<Longrightarrow> cursor \<le> c"
proof (induction buf cursor e rule: api_skip_spaces.induct)
  case (1 buf cursor e)
  show ?case using 1(2) by (subst (asm) api_skip_spaces.simps) (auto split: if_splits Option.bind_splits dest: 1(1))
qed

lemma skip_value_le: "api_skip_value buf cursor e = Some c \<Longrightarrow> cursor \<le> c"
proof (induction buf cursor e rule: api_skip_value.induct)
  case (1 buf cursor e)
  show ?case using 1(2) by (subst (asm) api_skip_value.simps) (auto split: if_splits Option.bind_splits dest: 1(1))
qed

lemma json_chars_less: "api_json_chars buf cursor e b n = Some (Some (c, q)) \<Longrightarrow> cursor < c"
proof (induction buf cursor e b n rule: api_json_chars.induct)
  case (1 buf cursor e b n)
  have "length b + 1 = Suc (length b)" by simp
  note ih = 1(1,2) [unfolded this]
  show ?case using 1(3) by (subst (asm) api_json_chars.simps)
    (auto split: if_splits Option.bind_splits option.splits dest!: ih [rotated -1])
qed

lemma parse_json_less: "api_parse_json_string buf cursor e n = Some (Some (c, q)) \<Longrightarrow> cursor < c"
  by (auto simp: api_parse_json_string_def split: if_splits Option.bind_splits dest: json_chars_less)

lemma skip_field_le: "api_skip_field buf cursor e = Some (NextField c) \<Longrightarrow> cursor \<le> c"
  unfolding api_skip_field_def
  by (auto split: if_splits Option.bind_splits option.splits dest!: skip_spaces_le skip_value_le parse_json_less)

lemma extract_field_less: "api_extract_field buf cursor e n = Some (NextField c) \<Longrightarrow> cursor < c"
  unfolding api_extract_field_def
  by (auto split: if_splits Option.bind_splits option.splits prod.splits dest!: skip_spaces_le skip_field_le parse_json_less)

function api_extract_from :: "string \<Rightarrow> nat \<Rightarrow> nat \<Rightarrow> nat \<Rightarrow> string option option" where
  "api_extract_from buf cursor end_ptr query_size =
     (if cursor < end_ptr then
        (case api_extract_field buf cursor end_ptr query_size of
           None \<Rightarrow> None
         | Some (Found q) \<Rightarrow> Some (Some q)
         | Some NotFound \<Rightarrow> Some None
         | Some (NextField next) \<Rightarrow> api_extract_from buf next end_ptr query_size)
      else Some None)"
  by pat_completeness auto
termination
  by (relation "measure (\<lambda>(buf, cursor, e, n). e - cursor)") (auto dest: extract_field_less)

declare api_extract_from.simps [simp del]

text \<open>
  \<open>array_size\<close> is the size of the array that holds the request: forming the end pointer beyond it is undefined.
\<close>

definition api_extract_query_string :: "string \<Rightarrow> nat \<Rightarrow> nat \<Rightarrow> nat \<Rightarrow> nat \<Rightarrow> string option option" where
  "api_extract_query_string buf array_size body body_length query_size =
     (let end_ptr = body + body_length
      in if array_size < end_ptr then None
         else do {
           cursor \<leftarrow> api_skip_spaces buf body end_ptr;
           brace \<leftarrow> (if cursor < end_ptr then map_option (\<lambda>c. c = CHR ''{'') (arr_get buf cursor) else Some False);
           if \<not> brace then Some None else api_extract_from buf (Suc cursor) end_ptr query_size
         })"

text \<open>The loop over the header lines, from the offset \<open>h\<close> up to the blank line at \<open>header_end\<close>.\<close>

definition header_content_length :: "(string \<Rightarrow> string \<Rightarrow> nat \<Rightarrow> bool) \<Rightarrow> string \<Rightarrow> nat \<Rightarrow> 64 word option" where
  "header_content_length name_equals cur len =
     (case memchr (take len cur) (CHR '':'') of
        None \<Rightarrow> None
      | Some name_length \<Rightarrow>
          if name_equals cur ''Content-Length'' name_length then Some (fst (strtoul10 (drop (name_length + 1) cur))) else None)"

function api_header_lines :: "string \<Rightarrow> nat \<Rightarrow> nat \<Rightarrow> 64 word \<Rightarrow> 64 word option" where
  "api_header_lines raw h header_end content_length =
     (if h < header_end then
        (case strstr (drop h raw) CRLF of
           None \<Rightarrow> None
         | Some k \<Rightarrow>
             if header_end < h + k then None
             else api_header_lines raw (h + k + 2) header_end
                    (case header_content_length api_header_name_equals (drop h raw) k of
                       None \<Rightarrow> content_length | Some v \<Rightarrow> v))
      else Some content_length)"
  by pat_completeness auto
termination
  by (relation "measure (\<lambda>(raw, h, e, c). e - h)") auto

declare api_header_lines.simps [simp del]

definition api_method :: "string \<Rightarrow> APIRequestMethod" where
  "api_method m =
     (if m = ''GET'' then API_METHOD_GET else if m = ''POST'' then API_METHOD_POST else API_METHOD_UNKNOWN)"

definition api_parse_http_request :: "string option \<Rightarrow> nat \<Rightarrow> (string + APIRequest) option" where
  "api_parse_http_request raw_request array_size =
     (case raw_request of
        None \<Rightarrow> Some (Inl ''Request buffer is missing'')
      | Some buf \<Rightarrow> do {
          raw \<leftarrow> cstr_get buf;
          case (strstr raw CRLF, sscanf_words [7, 63, 15] raw) of
            (Some line_end, [m, pth, version]) \<Rightarrow>
              if pth = [] then Some (Inl ''Request path is empty'')
              else
                (case strstr raw (CRLF @ CRLF) of
                   None \<Rightarrow> Some (Inl ''Malformed HTTP headers'')
                 | Some header_end \<Rightarrow>
                     (case api_header_lines raw (line_end + 2) header_end 0 of
                        None \<Rightarrow> Some (Inl ''Malformed HTTP header line'')
                      | Some content_length \<Rightarrow>
                          let request = \<lparr>req_method = api_method m, req_path = pth, req_query = [], req_content_length = content_length\<rparr>
                          in if req_method request = API_METHOD_POST \<and> pth = ''/query'' then
                               if content_length = 0 then Some (Inl ''POST /query requires a JSON body'')
                               else do {
                                 q \<leftarrow> api_extract_query_string buf array_size (header_end + 4) (unat content_length) 1024;
                                 case q of
                                   None \<Rightarrow> Some (Inl ''JSON body must contain a string field named query'')
                                 | Some q \<Rightarrow> Some (Inr (request\<lparr>req_query := q\<rparr>))
                               }
                             else Some (Inr request)))
          | _ \<Rightarrow> Some (Inl ''Malformed HTTP request line'')
        })"

section \<open>Responses\<close>

definition hex_digit :: "nat \<Rightarrow> char" where
  "hex_digit d = (if d < 10 then char_of (48 + d) else char_of (87 + d))"

text \<open>The escape of one character: the pieces written byte by byte, and the one written with \<^verbatim>\<open>snprintf\<close>.\<close>

definition json_escape :: "char \<Rightarrow> string" where
  "json_escape c =
     (if c = CHR 0x22 \<or> c = CHR 0x5C then [CHR 0x5C, c]
      else if c = CHR 0x0A then [CHR 0x5C, CHR ''n'']
      else if c = CHR 0x0D then [CHR 0x5C, CHR ''r'']
      else if c = CHR 0x09 then [CHR 0x5C, CHR ''t'']
      else if code_of c < 32 then [CHR 0x5C] @ ''u00'' @ [hex_digit (code_of c div 16), hex_digit (code_of c mod 16)]
      else [c])"

text \<open>The loop writes into an array of \<open>room\<close> bytes; a write outside it is undefined.\<close>

fun api_escape_from :: "string \<Rightarrow> string \<Rightarrow> nat \<Rightarrow> string option" where
  "api_escape_from [] escaped room = (if length escaped < room then Some escaped else None)"
| "api_escape_from (c # input) escaped room =
     (if length escaped + length (json_escape c) < room
      then api_escape_from input (escaped @ json_escape c) room else None)"

definition api_escape_json_string_alloc ::
  "'a alloc_mem_scheme \<Rightarrow> string \<Rightarrow> ('a alloc_mem_scheme \<times> string option) option" where
  "api_escape_json_string_alloc m input =
     (let (m, p) = alloc m
      in if p = NULL then Some (m, None)
         else do { escaped \<leftarrow> api_escape_from (cstr input) [] (length (cstr input) * 6 + 1); Some (m, Some escaped) })"

definition json_content_type :: string where
  "json_content_type = ''application/json; charset=utf-8''"

text \<open>The functions below return the response and the value 1 or 0 as a boolean.\<close>

definition api_set_response_body ::
  "'a alloc_mem_scheme \<Rightarrow> APIResponse \<Rightarrow> int \<Rightarrow> string \<Rightarrow> 'a alloc_mem_scheme \<times> APIResponse \<times> bool" where
  "api_set_response_body m response code body =
     (let (m, p) = alloc m
      in if p = NULL then (m, response\<lparr>resp_body := None\<rparr>, False)
         else (m, response\<lparr>resp_body := Some (cstr body), status_code := code, content_type := Some json_content_type\<rparr>, True))"

definition api_reason_phrase :: "int \<Rightarrow> string" where
  "api_reason_phrase code =
     (if code = 200 then ''OK''
      else if code = 400 then ''Bad Request''
      else if code = 404 then ''Not Found''
      else if code = 405 then ''Method Not Allowed''
      else if code = 413 then ''Payload Too Large''
      else if code = 500 then ''Internal Server Error''
      else if code = 503 then ''Service Unavailable''
      else ''Error'')"

text \<open>JSON texts: \<open>jq s\<close> is the text \<open>s\<close> between double quotes.\<close>

definition jq :: "string \<Rightarrow> string" where
  "jq s = [CHR 0x22] @ s @ [CHR 0x22]"

definition api_build_health_response ::
  "'a alloc_mem_scheme \<Rightarrow> APIResponse \<Rightarrow> 'a alloc_mem_scheme \<times> APIResponse \<times> bool" where
  "api_build_health_response m response =
     api_set_response_body m response 200 (''{'' @ jq ''ok'' @ '':true,'' @ jq ''status'' @ '':'' @ jq ''healthy'' @ ''}'')"

definition show_word :: "64 word \<Rightarrow> string" where
  "show_word w = show_nat (unat w)"

definition metrics_fields :: "DBServerMetrics \<Rightarrow> (string \<times> 64 word) list" where
  "metrics_fields mt =
     [(''totalRequests'', total_requests mt), (''totalHealthRequests'', total_health_requests mt),
      (''totalMetricsRequests'', total_metrics_requests mt), (''totalQueryRequests'', total_query_requests mt),
      (''totalSelectRequests'', total_select_requests mt), (''totalInsertRequests'', total_insert_requests mt),
      (''totalErrors'', total_errors mt), (''totalSyntaxErrors'', total_syntax_errors mt),
      (''totalQueryErrors'', total_query_errors mt), (''totalInternalErrors'', total_internal_errors mt),
      (''totalNotFoundResults'', total_not_found_results mt), (''totalQueueFull'', total_queue_full mt),
      (''totalLockTimeouts'', total_lock_timeouts mt), (''activeQueryRequests'', active_query_requests mt)]"

fun comma_sep :: "string list \<Rightarrow> string" where
  "comma_sep [] = []"
| "comma_sep [x] = x"
| "comma_sep (x # y # xs) = x @ '','' @ comma_sep (y # xs)"

definition metrics_text :: "DBServerMetrics \<Rightarrow> string" where
  "metrics_text mt =
     ''{'' @ jq ''ok'' @ '':true,'' @ jq ''status'' @ '':'' @ jq ''ok'' @ '','' @ jq ''metrics'' @ '':{'' @
     comma_sep (map (\<lambda>(name, v). jq name @ '':'' @ show_word v) (metrics_fields mt)) @ ''}}''"

definition api_build_metrics_response ::
  "'a alloc_mem_scheme \<Rightarrow> DBServerMetrics \<Rightarrow> APIResponse \<Rightarrow> 'a alloc_mem_scheme \<times> APIResponse \<times> bool" where
  "api_build_metrics_response m mt response = api_set_response_body m response 200 (snprintf 1024 (metrics_text mt))"

definition error_text :: "string \<Rightarrow> string \<Rightarrow> string" where
  "error_text error_type escaped_message =
     ''{'' @ jq ''ok'' @ '':false,'' @ jq ''status'' @ '':'' @ jq error_type @ '','' @ jq ''error'' @ '':'' @ jq error_type @ '','' @
     jq ''message'' @ '':'' @ jq escaped_message @ ''}''"

definition api_build_error_response ::
  "'a alloc_mem_scheme \<Rightarrow> APIResponse \<Rightarrow> int \<Rightarrow> string \<Rightarrow> string \<Rightarrow> ('a alloc_mem_scheme \<times> APIResponse \<times> bool) option" where
  "api_build_error_response m response code error_type msg = do {
     (m, escaped) \<leftarrow> api_escape_json_string_alloc m msg;
     case escaped of
       None \<Rightarrow> Some (m, response, False)
     | Some escaped_message \<Rightarrow> Some (api_set_response_body m response code (snprintf 2048 (error_text error_type escaped_message)))
   }"

text \<open>
  The rows of a SELECT are read through the pointers of the result; each piece is written at the offset so far with the
  rest of the room, and a piece that does not fit would let the next write start outside the array.
\<close>

definition put_text :: "nat \<Rightarrow> string \<Rightarrow> string \<Rightarrow> string option" where
  "put_text room body piece = (if length body + length piece < room then Some (body @ piece) else None)"

definition select_head :: "nat \<Rightarrow> bool \<Rightarrow> string" where
  "select_head n indexed =
     ''{'' @ jq ''ok'' @ '':true,'' @ jq ''status'' @ '':'' @ jq ''ok'' @ '','' @ jq ''action'' @ '':'' @ jq ''select'' @ '','' @
     jq ''rowCount'' @ '':'' @ show_nat n @ '','' @ jq ''usedIndex'' @ '':'' @ (if indexed then ''true'' else ''false'') @ '','' @
     jq ''rows'' @ '':[''"

definition row_json :: "int \<Rightarrow> string \<Rightarrow> int \<Rightarrow> string" where
  "row_json i escaped_name age =
     ''{'' @ jq ''id'' @ '':'' @ show_int i @ '','' @ jq ''name'' @ '':'' @ jq escaped_name @ '','' @ jq ''age'' @ '':'' @ show_int age @ ''}''"

definition result_record :: "'a db_mem_scheme \<Rightarrow> SQLResult \<Rightarrow> nat \<Rightarrow> Record option" where
  "result_record m r i = do { p \<leftarrow> tmp_get (res_records r) i; recs m p }"

fun rows_capacity :: "'a db_mem_scheme \<Rightarrow> SQLResult \<Rightarrow> nat \<Rightarrow> nat option" where
  "rows_capacity m r 0 = Some 160"
| "rows_capacity m r (Suc i) = do {
     c \<leftarrow> rows_capacity m r i;
     rc \<leftarrow> result_record m r i;
     name \<leftarrow> cstr_get (rec_name rc);
     Some (c + (length name * 6 + 96))
   }"

text \<open>The first \<open>n\<close> rows; the inner \<open>None\<close> is the failed allocation of an escaped name.\<close>

fun api_write_rows :: "'a db_mem_scheme \<Rightarrow> SQLResult \<Rightarrow> nat \<Rightarrow> string \<Rightarrow> nat \<Rightarrow> ('a db_mem_scheme \<times> string option) option" where
  "api_write_rows m r room body 0 = Some (m, Some body)"
| "api_write_rows m r room body (Suc i) = do {
     (m, written) \<leftarrow> api_write_rows m r room body i;
     case written of
       None \<Rightarrow> Some (m, None)
     | Some body \<Rightarrow> do {
         rc \<leftarrow> result_record m r i;
         name \<leftarrow> cstr_get (rec_name rc);
         (m, escaped) \<leftarrow> api_escape_json_string_alloc m name;
         (case escaped of
            None \<Rightarrow> Some (m, None)
          | Some escaped_name \<Rightarrow> do {
              body \<leftarrow> put_text room body ((if i = 0 then [] else '','') @ row_json (rec_id rc) escaped_name (rec_age rc));
              Some (m, Some body)
            })
       }
   }"

definition api_build_select_response ::
  "'a db_mem_scheme \<Rightarrow> DBServerExecution \<Rightarrow> APIResponse \<Rightarrow> ('a db_mem_scheme \<times> APIResponse \<times> bool) option" where
  "api_build_select_response m execution response = do {
     room \<leftarrow> rows_capacity m (ex_result execution) (row_count (ex_result execution));
     (let (m, p) = alloc m
      in if p = NULL then Some (m, response, False)
         else do {
           body \<leftarrow> put_text room [] (select_head (row_count (ex_result execution)) (used_index execution));
           (m, written) \<leftarrow> api_write_rows m (ex_result execution) room body (row_count (ex_result execution));
           case written of
             None \<Rightarrow> Some (m, response, False)
           | Some body \<Rightarrow> do {
               body \<leftarrow> put_text room body '']}'';
               Some (m, response\<lparr>status_code := 200, content_type := Some json_content_type, resp_body := Some body\<rparr>, True)
             }
         })
   }"

definition insert_text :: "int \<Rightarrow> string" where
  "insert_text i =
     ''{'' @ jq ''ok'' @ '':true,'' @ jq ''status'' @ '':'' @ jq ''ok'' @ '','' @ jq ''action'' @ '':'' @ jq ''insert'' @ '','' @
     jq ''insertedId'' @ '':'' @ show_int i @ '','' @ jq ''usedIndex'' @ '':false}''"

definition api_build_execution_response ::
  "'a db_mem_scheme \<Rightarrow> DBServerExecution \<Rightarrow> APIResponse \<Rightarrow> ('a db_mem_scheme \<times> APIResponse \<times> bool) option" where
  "api_build_execution_response m execution response =
     (let r = ex_result execution in
      if server_status execution = DB_SERVER_EXEC_STATUS_LOCK_TIMEOUT then
        api_build_error_response m response 503 ''lock_timeout'' (message execution)
      else if status r = SQL_STATUS_SYNTAX_ERROR then
        api_build_error_response m response 400 ''syntax_error'' (error_message r)
      else if status r = SQL_STATUS_QUERY_ERROR then
        api_build_error_response m response 400 ''query_error'' (error_message r)
      else if status r = SQL_STATUS_ERROR then
        api_build_error_response m response 500 ''internal_error''
          (if error_message r \<noteq> [] then error_message r else ''Internal execution error'')
      else if status r = SQL_STATUS_EXIT then
        api_build_error_response m response 400 ''query_error'' ''EXIT and QUIT are only supported in CLI mode''
      else if action r = SQL_ACTION_INSERT then
        Some (api_set_response_body m response 200 (snprintf 256 (insert_text (inserted_id r))))
      else if action r = SQL_ACTION_SELECT_ROWS then
        api_build_select_response m execution response
      else api_build_error_response m response 500 ''internal_error'' ''Unsupported execution result'')"

definition response_text :: "int \<Rightarrow> string \<Rightarrow> string \<Rightarrow> string" where
  "response_text code ctype body =
     ''HTTP/1.1 '' @ show_int code @ '' '' @ api_reason_phrase code @ CRLF @ ''Content-Type: '' @ ctype @ CRLF @
     ''Content-Length: '' @ show_nat (length body) @ CRLF @ ''Connection: close'' @ CRLF @ CRLF @ body"

text \<open>The rendered response, or \<open>None\<close> for 0 when there is no body, no memory, or the text does not fit.\<close>

definition api_render_http_response :: "'a alloc_mem_scheme \<Rightarrow> APIResponse \<Rightarrow> 'a alloc_mem_scheme \<times> string option" where
  "api_render_http_response m response =
     (case resp_body response of
        None \<Rightarrow> (m, None)
      | Some body \<Rightarrow>
          let (m, p) = alloc m;
              raw = response_text (status_code response)
                (case content_type response of None \<Rightarrow> json_content_type | Some t \<Rightarrow> t) body
          in if p = NULL then (m, None)
             else if length body + 256 \<le> length raw then (m, None)
             else (m, Some raw))"

definition api_response_destroy :: "APIResponse \<Rightarrow> APIResponse" where
  "api_response_destroy response = response\<lparr>resp_body := None, content_type := None, status_code := 0\<rparr>"

end
