(* ===== verification/HttpServer.thy ===== *)
theory HttpServer
  imports Api WorkerPool
begin

text \<open>
  The connection handling of \<^verbatim>\<open>src/server/http_server.c\<close>: reading a request from the socket, the dispatch of
  \<^verbatim>\<open>http_server_handle_client\<close>, and sending the response. What \<^verbatim>\<open>recv\<close> delivers is a list of events: the bytes that arrive, in
  pieces of any size, or an error; after the last event the peer has closed the connection. What a connection
  sends back is the text handed to \<^verbatim>\<open>http_server_socket_send_all\<close>, or nothing when the response could not be built.
\<close>

section \<open>Reading a request\<close>

abbreviation (input) HTTP_SERVER_REQUEST_BUFFER_SIZE :: nat where "HTTP_SERVER_REQUEST_BUFFER_SIZE \<equiv> 8192"

definition http_lower :: "char \<Rightarrow> char" where
  "http_lower c = (if 65 \<le> code_of c \<and> code_of c \<le> 90 then char_of (code_of c - 65 + 97) else c)"

definition http_server_header_name_equals :: "string \<Rightarrow> string \<Rightarrow> nat \<Rightarrow> bool" where
  "http_server_header_name_equals left right len =
     (len = length right \<and> list_all2 (\<lambda>l r. http_lower l = http_lower r) (take len left) right)"

function http_content_length_from :: "string \<Rightarrow> nat \<Rightarrow> nat \<Rightarrow> 64 word" where
  "http_content_length_from request_buffer line header_end =
     (if line < header_end then
        (case strstr (drop line request_buffer) CRLF of
           None \<Rightarrow> 0
         | Some k \<Rightarrow>
             if header_end < line + k then 0
             else (case header_content_length http_server_header_name_equals (drop line request_buffer) k of
                     Some v \<Rightarrow> v
                   | None \<Rightarrow> http_content_length_from request_buffer (line + k + 2) header_end))
      else 0)"
  by pat_completeness auto
termination
  by (relation "measure (\<lambda>(buf, h, e). e - h)") auto

declare http_content_length_from.simps [simp del]

definition http_server_parse_content_length :: "string \<Rightarrow> 64 word" where
  "http_server_parse_content_length request_buffer =
     (case (strstr request_buffer CRLF, strstr request_buffer (CRLF @ CRLF)) of
        (Some line, Some header_end) \<Rightarrow> http_content_length_from request_buffer (line + 2) header_end
      | _ \<Rightarrow> 0)"

datatype recv_event =
    Data string
  | RecvError

text \<open>
  The loop of \<^verbatim>\<open>http_server_read_request\<close>; \<open>expected\<close> is the expected total once the headers are complete. The result is the
  buffer or the error message. The string functions see the buffer up to its first terminator.
\<close>

definition expected_after :: "64 word option \<Rightarrow> string \<Rightarrow> 64 word option" where
  "expected_after expected buffer =
     (case expected of
        Some tot \<Rightarrow> Some tot
      | None \<Rightarrow>
          (case strstr (cstr buffer) (CRLF @ CRLF) of
             None \<Rightarrow> None
           | Some header_end \<Rightarrow> Some (of_nat header_end + 4 + http_server_parse_content_length (cstr buffer))))"

definition incomplete_message :: "64 word option \<Rightarrow> string" where
  "incomplete_message expected =
     (if expected = None then ''Incomplete HTTP request headers'' else ''Incomplete HTTP request body'')"

lemma read_progress: "length b + 1 < n \<Longrightarrow> s \<noteq> [] \<Longrightarrow> n - length (b @ take (n - length b - 1) s) < n - length b" for s :: string
  by (cases s) auto

function http_read_from :: "recv_event list \<Rightarrow> string \<Rightarrow> 64 word option \<Rightarrow> nat \<Rightarrow> string + string" where
  "http_read_from events buffer expected buffer_size =
     (if length buffer + 1 < buffer_size then
        (case events of
           [] \<Rightarrow> Inl (incomplete_message expected)
         | RecvError # _ \<Rightarrow> Inl ''Failed to read from socket''
         | Data s # es \<Rightarrow>
             let n = buffer_size - length buffer - 1;
                 es' = (if n < length s then Data (drop n s) # es else es);
                 buffer' = buffer @ take n s;
                 expected' = expected_after expected buffer'
             in if s = [] then Inl (incomplete_message expected)
                else if expected = None \<and> expected' \<noteq> None \<and> of_nat buffer_size < the expected' + 1
                then Inl ''HTTP request exceeds buffer limit''
                else (case expected' of
                        Some tot \<Rightarrow> if tot \<le> of_nat (length buffer') then Inr buffer'
                                       else http_read_from es' buffer' expected' buffer_size
                      | None \<Rightarrow> http_read_from es' buffer' expected' buffer_size))
      else Inl (incomplete_message expected))"
  by pat_completeness auto
termination
  by (relation "measure (\<lambda>(es, b, e, n). n - length b)") (simp, (auto simp only: in_measure split_conv intro!: read_progress)+)

declare http_read_from.simps [simp del]

definition http_server_read_request :: "recv_event list \<Rightarrow> nat \<Rightarrow> string + string" where
  "http_server_read_request events buffer_size =
     (if buffer_size = 0 then Inl [] else http_read_from events [] None buffer_size)"

section \<open>Sending a response\<close>

text \<open>\<open>sends\<close> are the results of \<^verbatim>\<open>send\<close>; the second component tells whether everything went out.\<close>

fun http_server_socket_send_all :: "string \<Rightarrow> int list \<Rightarrow> string \<times> bool" where
  "http_server_socket_send_all [] sends = ([], True)"
| "http_server_socket_send_all (c # buffer) [] = ([], False)"
| "http_server_socket_send_all (c # buffer) (sent # sends) =
     (if sent \<le> 0 then ([], False)
      else let (out, ok) = http_server_socket_send_all (drop (nat sent) (c # buffer)) sends
           in (take (nat sent) (c # buffer) @ out, ok))"

definition http_server_send_response ::
  "'a alloc_mem_scheme \<Rightarrow> APIResponse \<Rightarrow> 'a alloc_mem_scheme \<times> string option" where
  "http_server_send_response m response = api_render_http_response m response"

text \<open>A handled connection: the memory, the server, the context, and what was handed to the socket.\<close>

type_synonym 'a handled = "'a db_mem_scheme \<times> DBServer \<times> HTTPServerContext \<times> string option"

definition http_server_send_error_and_count ::
  "'a db_mem_scheme \<Rightarrow> DBServer \<Rightarrow> HTTPServerContext \<Rightarrow> int \<Rightarrow> string \<Rightarrow> string \<Rightarrow> 'a handled option" where
  "http_server_send_error_and_count m server context code error_type msg = do {
     (m, response, ok) \<leftarrow> api_build_error_response m zero_response code error_type msg;
     (let (m, out) = (if ok then http_server_send_response m response else (m, None))
      in Some (m, server, http_server_note_response_complete context, out))
   }"

definition http_server_send_and_count ::
  "'a db_mem_scheme \<times> APIResponse \<times> bool \<Rightarrow> DBServer \<Rightarrow> HTTPServerContext \<Rightarrow> 'a handled" where
  "http_server_send_and_count built server context =
     (case built of (m, response, ok) \<Rightarrow>
      let (m, out) = (if ok then http_server_send_response m response else (m, None))
      in (m, server, http_server_note_response_complete context, out))"

section \<open>Handling a connection\<close>

definition http_server_handle_query ::
  "'a db_mem_scheme \<Rightarrow> DBServer \<Rightarrow> HTTPServerContext \<Rightarrow> (nat \<Rightarrow> 64 word) \<Rightarrow> string \<Rightarrow> 'a handled option" where
  "http_server_handle_query m server context clock q = do {
     (m, server, executed) \<leftarrow> db_server_execute m server (Some q) clock;
     case executed of
       None \<Rightarrow> http_server_send_error_and_count m server context 500 ''internal_error'' ''Failed to execute query''
     | Some execution \<Rightarrow> do {
         (m, response, ok) \<leftarrow> api_build_execution_response m execution zero_response;
         if \<not> ok then
           http_server_send_error_and_count m server context 500 ''internal_error'' ''Failed to serialize query result''
         else Some (http_server_send_and_count (m, response, ok) server context)
       }
   }"

definition http_server_route ::
  "'a db_mem_scheme \<Rightarrow> DBServer \<Rightarrow> HTTPServerContext \<Rightarrow> (nat \<Rightarrow> 64 word) \<Rightarrow> APIRequest \<Rightarrow> 'a handled option" where
  "http_server_route m server context clock request =
     (if req_method request = API_METHOD_GET \<and> req_path request = ''/health'' then
        (let server = db_server_record_health_request server
         in Some (http_server_send_and_count (api_build_health_response m zero_response) server context))
      else if req_method request = API_METHOD_GET \<and> req_path request = ''/metrics'' then
        (let server = db_server_record_metrics_request server;
             mt = db_server_get_metrics server
         in Some (http_server_send_and_count (api_build_metrics_response m mt zero_response) server context))
      else if req_method request = API_METHOD_POST \<and> req_path request = ''/query'' then
        http_server_handle_query m server context clock (req_query request)
      else if (req_path request = ''/health'' \<or> req_path request = ''/metrics'') \<and> req_method request \<noteq> API_METHOD_GET then
        http_server_send_error_and_count m server context 405 ''method_not_allowed'' ''This endpoint only supports GET''
      else if req_path request = ''/query'' \<and> req_method request \<noteq> API_METHOD_POST then
        http_server_send_error_and_count m server context 405 ''method_not_allowed'' ''This endpoint only supports POST''
      else if req_method request = API_METHOD_UNKNOWN then
        http_server_send_error_and_count m server context 405 ''method_not_allowed'' ''Unsupported HTTP method''
      else http_server_send_error_and_count m server context 404 ''not_found'' ''Unknown endpoint'')"

definition http_server_handle_client ::
  "'a db_mem_scheme \<Rightarrow> DBServer \<Rightarrow> HTTPServerContext \<Rightarrow> (nat \<Rightarrow> 64 word) \<Rightarrow> recv_event list \<Rightarrow> 'a handled option" where
  "http_server_handle_client m server context clock events =
     (case http_server_read_request events HTTP_SERVER_REQUEST_BUFFER_SIZE of
        Inl msg \<Rightarrow> http_server_send_error_and_count m server context 400 ''malformed_http'' msg
      | Inr buffer \<Rightarrow> do {
          parsed \<leftarrow> api_parse_http_request (Some (buffer @ [NUL])) HTTP_SERVER_REQUEST_BUFFER_SIZE;
          case parsed of
            Inl msg \<Rightarrow> http_server_send_error_and_count m server context 400 ''malformed_http'' msg
          | Inr request \<Rightarrow> http_server_route m server context clock request
        })"

end
