(* ===== verification/Api_Props.thy ===== *)
theory Api_Props
  imports Api
begin

text \<open>
  The HTTP and JSON layer: escaping fits into the array that is allocated for it and is undone by the parser, no
  response is ever cut off by the array it is built in, a SELECT is rendered row by row from the records of the
  result, and a request of the documented form is parsed into its query.
\<close>

section \<open>Escaping\<close>

definition escape :: "string \<Rightarrow> string" where
  "escape s = concat (map json_escape s)"

lemma escape_simps [simp]: "escape [] = []" "escape (c # s) = json_escape c @ escape s" "escape (s @ t) = escape s @ escape t"
  by (simp_all add: escape_def)

lemma json_escape_length: "length (json_escape c) \<le> 6"
  by (simp add: json_escape_def)

lemma escape_length: "length (escape s) \<le> 6 * length s"
proof (induction s)
  case (Cons c s)
  then show ?case using json_escape_length [of c] by simp
qed simp

lemma escape_from: "length out + 6 * length s < n \<Longrightarrow> api_escape_from s out n = Some (out @ escape s)"
proof (induction s arbitrary: out)
  case (Cons c s)
  have "length out + length (json_escape c) + 6 * length s < n" using Cons.prems json_escape_length [of c] by simp
  then show ?case using Cons.IH [of "out @ json_escape c"] by simp
qed simp

lemma escape_alloc:
  "api_escape_json_string_alloc m s = Some (fst (alloc m), if snd (alloc m) = NULL then None else Some (escape (cstr s)))"
  by (simp add: api_escape_json_string_alloc_def escape_from split: prod.splits)

text \<open>The strings that survive the round trip: those without control characters other than tab and line ends.\<close>

definition json_plain :: "string \<Rightarrow> bool" where
  "json_plain s \<longleftrightarrow> (\<forall>c \<in> set s. 32 \<le> code_of c \<or> c \<in> {CHR 0x09, CHR 0x0A, CHR 0x0D})"

lemma arr_get_drop: "drop i buf = c # rest \<Longrightarrow> arr_get buf i = Some c \<and> drop (Suc i) buf = rest"
proof -
  assume d: "drop i buf = c # rest"
  then have i: "i < length buf" by (metis drop_all leI list.discI)
  then have "buf ! i = c" "drop (Suc i) buf = rest" using d Cons_nth_drop_Suc [OF i] by auto
  then show ?thesis using i by simp
qed

lemma json_escape_cases:
  assumes "32 \<le> code_of c \<or> c \<in> {CHR 0x09, CHR 0x0A, CHR 0x0D}"
  obtains (Plain) "json_escape c = [c]" "c \<noteq> CHR 0x22" "c \<noteq> CHR 0x5C"
  | (Escaped) d where "json_escape c = [CHR 0x5C, d]" "json_unescape d = Some c"
proof (cases "c \<in> {CHR 0x22, CHR 0x5C, CHR 0x09, CHR 0x0A, CHR 0x0D}")
  case True
  then show ?thesis using Escaped by (auto simp: json_escape_def json_unescape_def)
next
  case False
  then show ?thesis using Plain assms by (auto simp: json_escape_def)
qed

lemma json_chars_escape:
  assumes "json_plain s" "drop cursor buf = escape s @ CHR 0x22 # rest" "cursor + length (escape s) < e" "length b + length s < n"
  shows "api_json_chars buf cursor e b n = Some (Some (cursor + length (escape s) + 1, b @ s))"
  using assms
proof (induction s arbitrary: cursor b)
  case Nil
  then show ?case using arr_get_drop [of cursor buf] by (subst api_json_chars.simps) simp
next
  case (Cons c s)
  have p: "json_plain s" "32 \<le> code_of c \<or> c \<in> {CHR 0x09, CHR 0x0A, CHR 0x0D}" using Cons.prems(1) by (auto simp: json_plain_def)
  from p(2) show ?case
  proof (cases rule: json_escape_cases)
    case Plain
    then have g: "arr_get buf cursor = Some c" "drop (Suc cursor) buf = escape s @ CHR 0x22 # rest"
      using arr_get_drop [of cursor buf c] Cons.prems(2) by auto
    have "api_json_chars buf cursor e b n = api_json_chars buf (Suc cursor) e (b @ [c]) n"
      using Plain(2,3) g(1) Cons.prems(3,4) by (subst api_json_chars.simps) simp
    then show ?thesis using Cons.IH [OF p(1) g(2), of "b @ [c]"] Plain(1) Cons.prems(3,4) by simp
  next
    case (Escaped d)
    then have g: "arr_get buf cursor = Some (CHR 0x5C)" "arr_get buf (Suc cursor) = Some d" "drop (Suc (Suc cursor)) buf = escape s @ CHR 0x22 # rest"
      using arr_get_drop [of cursor buf "CHR 0x5C"] arr_get_drop [of "Suc cursor" buf d] Cons.prems(2) by auto
    have "api_json_chars buf cursor e b n = api_json_chars buf (Suc (Suc cursor)) e (b @ [c]) n"
      using Escaped g(1,2) Cons.prems(3,4) by (subst api_json_chars.simps) simp
    then show ?thesis using Cons.IH [OF p(1) g(3), of "b @ [c]"] Escaped(1) Cons.prems(3,4) by simp
  qed
qed

lemma parse_json_escape:
  assumes "json_plain s" "drop cursor buf = CHR 0x22 # escape s @ CHR 0x22 # rest" "cursor + length (escape s) + 1 < e" "length s < n"
  shows "api_parse_json_string buf cursor e n = Some (Some (cursor + length (escape s) + 2, s))"
proof -
  have g: "arr_get buf cursor = Some (CHR 0x22)" "drop (Suc cursor) buf = escape s @ CHR 0x22 # rest"
    using arr_get_drop [OF assms(2)] by auto
  have "api_json_chars buf (Suc cursor) e [] n = Some (Some (Suc cursor + length (escape s) + 1, [] @ s))"
    using assms by (intro json_chars_escape [OF _ g(2)]) auto
  then show ?thesis using g(1) assms(3) by (simp add: api_parse_json_string_def)
qed

section \<open>Sizes\<close>

lemma show_nat_length: "0 < k \<Longrightarrow> n < 10 ^ k \<Longrightarrow> length (show_nat n) \<le> k"
proof (induction k arbitrary: n rule: nat_induct_non_zero)
  case 1
  then show ?case by (subst show_nat.simps) simp
next
  case (Suc k)
  have "n div 10 < 10 ^ k" using Suc.prems by (simp add: less_mult_imp_div_less)
  then have "length (show_nat (n div 10)) \<le> k" by (rule Suc.IH)
  then show ?case by (subst show_nat.simps) simp
qed

lemma show_word_length: "length (show_word w) \<le> 20"
proof -
  have "unat w < 2 ^ 64" using unsigned_less [of w] by simp
  then have "unat w < 10 ^ 20" by simp
  then show ?thesis unfolding show_word_def by (intro show_nat_length) simp_all
qed

lemma show_int_length: "INT_MIN \<le> i \<Longrightarrow> i \<le> INT_MAX \<Longrightarrow> length (show_int i) \<le> 11"
proof -
  assume "INT_MIN \<le> i" "i \<le> INT_MAX"
  then have "nat i < 10 ^ 10" "nat (- i) < 10 ^ 10" by (simp_all add: nat_less_iff)
  then show ?thesis using show_nat_length [of 10 "nat i"] show_nat_length [of 10 "nat (- i)"] by (simp add: show_int_def)
qed

lemma metrics_text_length: "length (metrics_text mt) \<le> 700"
proof -
  note w = show_word_length
  show ?thesis
    using w [of "total_requests mt"] w [of "total_health_requests mt"] w [of "total_metrics_requests mt"] w [of "total_query_requests mt"]
      w [of "total_select_requests mt"] w [of "total_insert_requests mt"] w [of "total_errors mt"] w [of "total_syntax_errors mt"]
      w [of "total_query_errors mt"] w [of "total_internal_errors mt"] w [of "total_not_found_results mt"] w [of "total_queue_full mt"]
      w [of "total_lock_timeouts mt"] w [of "active_query_requests mt"]
    by (simp add: metrics_text_def metrics_fields_def jq_def)
qed

lemma error_text_length: "length (error_text ty e) = 2 * length ty + length e + 48"
  by (simp add: error_text_def jq_def)

lemma insert_text_length: "INT_MIN \<le> i \<Longrightarrow> i \<le> INT_MAX \<Longrightarrow> length (insert_text i) \<le> 100"
  using show_int_length [of i] by (simp add: insert_text_def jq_def)

lemma select_head_length: "n < 10 ^ 20 \<Longrightarrow> length (select_head n u) \<le> 110"
  using show_nat_length [of 20 n] by (simp add: select_head_def jq_def)

lemma row_json_length:
  assumes "INT_MIN \<le> i" "i \<le> INT_MAX" "INT_MIN \<le> a" "a \<le> INT_MAX"
  shows "length (row_json i e a) \<le> length e + 60"
  using show_int_length [OF assms(1,2)] show_int_length [OF assms(3,4)] by (simp add: row_json_def jq_def)

section \<open>The rows of a SELECT\<close>

definition row_of :: "Record \<Rightarrow> string" where
  "row_of x = row_json (rec_id x) (escape (cstr (rec_name x))) (rec_age x)"

definition int_range :: "int \<Rightarrow> bool" where
  "int_range i \<longleftrightarrow> INT_MIN \<le> i \<and> i \<le> INT_MAX"

definition printable_row :: "Record \<Rightarrow> bool" where
  "printable_row x \<longleftrightarrow> row_ok x \<and> int_range (rec_id x) \<and> int_range (rec_age x)"

definition row_room :: "Record \<Rightarrow> nat" where
  "row_room x = length (cstr (rec_name x)) * 6 + 96"

lemma row_of_length: "printable_row x \<Longrightarrow> length (row_of x) < row_room x"
  using row_json_length [of "rec_id x" "rec_age x" "escape (cstr (rec_name x))"] escape_length [of "cstr (rec_name x)"]
  by (auto simp: row_of_def row_room_def printable_row_def int_range_def)

lemma comma_sep_snoc: "comma_sep (xs @ [x]) = comma_sep xs @ (if xs = [] then [] else '','') @ x"
  by (induction xs rule: comma_sep.induct) auto

lemma rows_text_length:
  assumes "\<forall>x \<in> set xs. printable_row x"
  shows "length (comma_sep (map row_of xs)) \<le> sum_list (map row_room xs)"
  using assms
proof (induction xs rule: rev_induct)
  case (snoc x xs)
  then show ?case using row_of_length [of x] by (simp add: comma_sep_snoc)
qed simp

lemma result_record_nth:
  assumes "result_rows m r rs" "i < length rs"
  shows "result_record m r i = Some (rs ! i)" "row_count r = length rs"
proof -
  obtain ps where ps: "row_count r = length rs" "take (row_count r) (res_records r) = map Some ps" "map (recs m) ps = map Some rs"
    using assms(1) by (auto simp: result_rows_def)
  have l: "length ps = length rs" using ps(3) map_eq_imp_length_eq by blast
  have "take (row_count r) (res_records r) ! i = Some (ps ! i)" using ps(2) assms(2) l by simp
  then have "res_records r ! i = Some (ps ! i)" using assms(2) ps(1) by simp
  moreover have "i < length (res_records r)" using ps(1,2) l assms(2) by (metis length_map length_take min_less_iff_conj)
  moreover have "recs m (ps ! i) = Some (rs ! i)" using ps(3) assms(2) l by (metis nth_map)
  ultimately show "result_record m r i = Some (rs ! i)" "row_count r = length rs"
    using ps(1) by (simp_all add: result_record_def tmp_get_def)
qed

lemma row_name: "row_ok x \<Longrightarrow> cstr_get (rec_name x) = Some (cstr (rec_name x))"
  by (simp add: row_ok_def cstr_get_def)

lemma rows_capacity_eq:
  assumes "result_rows m r rs" "\<forall>x \<in> set rs. printable_row x" "k \<le> length rs"
  shows "rows_capacity m r k = Some (160 + sum_list (map row_room (take k rs)))"
  using assms(3)
proof (induction k)
  case (Suc k)
  then have "row_ok (rs ! k)" using assms(2) by (auto simp: printable_row_def)
  then show ?case using Suc result_record_nth [OF assms(1), of k] row_name
    by (simp add: take_Suc_conv_app_nth row_room_def)
qed simp

lemma result_rows_quiet: "quiet m m' \<Longrightarrow> result_rows m r rs \<Longrightarrow> result_rows m' r rs"
  unfolding result_rows_def by (simp only: quiet_recs)

lemma alloc_quiet:
  assumes "live_mem m"
  obtains m' p where "alloc m = (m', p)" "p \<noteq> NULL" "quiet m m'" "live_mem m'"
  using alloc_live [OF assms] quiet_simps(2) [OF alloc_live(3) [OF assms] assms] that by auto

lemma write_rows:
  assumes "result_rows m r rs" "\<forall>x \<in> set rs. printable_row x" "live_mem m" "k \<le> length rs"
    "length b + sum_list (map row_room rs) < n"
  shows "\<exists>m'. api_write_rows m r n b k = Some (m', Some (b @ comma_sep (map row_of (take k rs)))) \<and> quiet m m' \<and> live_mem m'"
  using assms(4)
proof (induction k)
  case 0
  then show ?case using assms(3) by simp
next
  case (Suc k)
  then obtain m1 where m1: "api_write_rows m r n b k = Some (m1, Some (b @ comma_sep (map row_of (take k rs))))" "quiet m m1" "live_mem m1"
    by auto
  have k: "k < length rs" "printable_row (rs ! k)" using Suc.prems assms(2) by auto
  have rec: "result_record m1 r k = Some (rs ! k)" using result_record_nth(1) [OF result_rows_quiet [OF m1(2) assms(1)] k(1)] .
  have nm: "cstr_get (rec_name (rs ! k)) = Some (cstr (rec_name (rs ! k)))" using k(2) row_name by (simp add: printable_row_def)
  obtain m2 p where a: "alloc m1 = (m2, p)" "p \<noteq> NULL" "quiet m1 m2" "live_mem m2" using alloc_quiet [OF m1(3)] by blast
  have tk: "take (Suc k) rs = take k rs @ [rs ! k]" using k(1) by (simp add: take_Suc_conv_app_nth)
  have "\<forall>x \<in> set (take (Suc k) rs). printable_row x" using assms(2) by (meson in_set_takeD)
  moreover have "sum_list (map row_room (take (Suc k) rs)) \<le> sum_list (map row_room rs)"
    by (metis append_take_drop_id le_add1 map_append sum_list_append)
  ultimately have "length b + length (comma_sep (map row_of (take (Suc k) rs))) < n"
    using rows_text_length [of "take (Suc k) rs"] assms(5) by simp
  then have "put_text n (b @ comma_sep (map row_of (take k rs))) ((if k = 0 then [] else '','') @ row_of (rs ! k)) =
      Some (b @ comma_sep (map row_of (take (Suc k) rs)))"
    using k(1) unfolding tk by (auto simp: put_text_def comma_sep_snoc)
  then have "api_write_rows m r n b (Suc k) = Some (m2, Some (b @ comma_sep (map row_of (take (Suc k) rs))))"
    using m1(1) rec nm a(1,2) by (simp add: escape_alloc row_of_def)
  then show ?case using quiet_trans [OF m1(2) a(3)] a(4) by blast
qed

lemma select_response:
  assumes "result_rows m (ex_result ex) rs" "\<forall>x \<in> set rs. printable_row x" "live_mem m" "length rs < 10 ^ 20"
  shows "\<exists>m'. api_build_select_response m ex response = Some (m', response\<lparr>status_code := 200, content_type := Some json_content_type,
      resp_body := Some (select_head (length rs) (used_index ex) @ comma_sep (map row_of rs) @ '']}'')\<rparr>, True) \<and> quiet m m' \<and> live_mem m'"
proof -
  let ?n = "160 + sum_list (map row_room rs)" let ?h = "select_head (length rs) (used_index ex)"
  have rc: "row_count (ex_result ex) = length rs" using assms(1) by (auto simp: result_rows_def)
  have cap: "rows_capacity m (ex_result ex) (length rs) = Some ?n" using rows_capacity_eq [OF assms(1,2), of "length rs"] by simp
  obtain m1 p where a: "alloc m = (m1, p)" "p \<noteq> NULL" "quiet m m1" "live_mem m1" using alloc_quiet [OF assms(3)] by blast
  have h: "length ?h \<le> 110" by (rule select_head_length [OF assms(4)])
  then have "length ?h + sum_list (map row_room rs) < ?n" by simp
  then obtain m2 where m2: "api_write_rows m1 (ex_result ex) ?n ?h (length rs) = Some (m2, Some (?h @ comma_sep (map row_of rs)))"
    "quiet m1 m2" "live_mem m2"
    using write_rows [OF result_rows_quiet [OF a(3) assms(1)] assms(2) a(4), of "length rs" ?h ?n] by auto
  have "length (comma_sep (map row_of rs)) \<le> sum_list (map row_room rs)" by (rule rows_text_length [OF assms(2)])
  then have "put_text ?n [] ?h = Some ?h" "put_text ?n (?h @ comma_sep (map row_of rs)) '']}'' = Some (?h @ comma_sep (map row_of rs) @ '']}'')"
    using h by (simp_all add: put_text_def)
  then show ?thesis using rc cap a(1,2) m2 quiet_trans [OF a(3) m2(2)]
    by (simp add: api_build_select_response_def)
qed

section \<open>Error responses and rendering\<close>

lemma hex_digit_nz: "d < 16 \<Longrightarrow> hex_digit d \<noteq> NUL"
proof -
  assume "d < 16"
  then have "of_char (hex_digit d) \<noteq> (0 :: nat)" by (auto simp: hex_digit_def)
  then show ?thesis by auto
qed

lemma escape_no_NUL: "NUL \<notin> set s \<Longrightarrow> NUL \<notin> set (escape s)"
proof (induction s)
  case (Cons c s)
  have "code_of c div 16 < 16" "code_of c mod 16 < 16" by (simp_all add: code_of_def less_mult_imp_div_less)
  then have "hex_digit (code_of c div 16) \<noteq> NUL" "hex_digit (code_of c mod 16) \<noteq> NUL" using hex_digit_nz by blast+
  then have "NUL \<notin> set (json_escape c)" using Cons.prems by (auto simp: json_escape_def)
  then show ?case using Cons by simp
qed simp

lemma show_nat_no_NUL: "NUL \<notin> set (show_nat n)"
  using show_nat_digits [of n] NUL_class(3) by blast

lemma show_int_no_NUL: "NUL \<notin> set (show_int i)"
  using show_nat_no_NUL by (simp add: show_int_def)

lemma metrics_text_no_NUL: "NUL \<notin> set (metrics_text mt)"
  by (simp add: metrics_text_def metrics_fields_def jq_def show_word_def show_nat_no_NUL)

lemma error_response:
  assumes "live_mem m" "length (cstr msg) \<le> 255" "length ty \<le> 20" "NUL \<notin> set ty"
  shows "\<exists>m'. api_build_error_response m response code ty msg = Some (m', response\<lparr>resp_body := Some (error_text ty (escape (cstr msg))),
    status_code := code, content_type := Some json_content_type\<rparr>, True) \<and> quiet m m' \<and> live_mem m'"
proof -
  obtain m1 p1 where a: "alloc m = (m1, p1)" "p1 \<noteq> NULL" "quiet m m1" "live_mem m1" using alloc_quiet [OF assms(1)] by blast
  obtain m2 p2 where b: "alloc m1 = (m2, p2)" "p2 \<noteq> NULL" "quiet m1 m2" "live_mem m2" using alloc_quiet [OF a(4)] by blast
  let ?t = "error_text ty (escape (cstr msg))"
  have "length ?t < 2048" using assms(2,3) escape_length [of "cstr msg"] by (simp add: error_text_length)
  then have "snprintf 2048 ?t = ?t" by (simp add: snprintf_def)
  moreover have "NUL \<notin> set ?t" using assms(4) escape_no_NUL [of "cstr msg"] by (auto simp: error_text_def jq_def)
  then have "cstr ?t = ?t" by (rule cstr_no_NUL)
  ultimately show ?thesis using a(1,2) b quiet_trans [OF a(3) b(3)]
    by (simp add: api_build_error_response_def escape_alloc api_set_response_body_def)
qed

lemma reason_length: "length (api_reason_phrase code) \<le> 21"
  by (simp add: api_reason_phrase_def)

lemma response_text_length:
  assumes "int_range code" "length ctype \<le> 40" "length body < 10 ^ 20"
  shows "length (response_text code ctype body) < length body + 256"
  using reason_length [of code] show_int_length [of code] show_nat_length [of 20 "length body"] assms
  by (simp add: response_text_def int_range_def)

lemma render_response:
  assumes "live_mem m" "resp_body response = Some body" "content_type response = Some json_content_type"
    "int_range (status_code response)" "length body < 10 ^ 20"
  shows "\<exists>m'. api_render_http_response m response = (m', Some (response_text (status_code response) json_content_type body)) \<and>
    quiet m m' \<and> live_mem m'"
proof -
  obtain m1 p1 where a: "alloc m = (m1, p1)" "p1 \<noteq> NULL" "quiet m m1" "live_mem m1" using alloc_quiet [OF assms(1)] by blast
  have "length (response_text (status_code response) json_content_type body) < length body + 256"
    using assms(4,5) by (intro response_text_length) (simp_all add: json_content_type_def)
  then show ?thesis using assms(2,3) a by (auto simp: api_render_http_response_def)
qed

section \<open>Requests\<close>

lemma strstr_skip: "p \<notin> set a \<Longrightarrow> strstr (a @ s) (p # ps) = map_option ((+) (length a)) (strstr s (p # ps))"
proof (induction a)
  case Nil
  then show ?case by (cases "strstr s (p # ps)") auto
next
  case (Cons c a)
  then show ?case by (cases "strstr s (p # ps)") auto
qed

lemma strstr_here: "strstr (pat @ s) pat = Some 0"
  by (cases pat; cases s) auto

text \<open>Header lines: not empty and without a carriage return or a terminator.\<close>

definition header_line :: "string \<Rightarrow> bool" where
  "header_line l \<longleftrightarrow> l \<noteq> [] \<and> CHR 0x0D \<notin> set l \<and> NUL \<notin> set l"

definition join_lines :: "string list \<Rightarrow> string" where
  "join_lines ls = concat (map (\<lambda>l. l @ CRLF) ls)"

lemma join_lines_simps [simp]: "join_lines [] = []" "join_lines (l # ls) = l @ CRLF @ join_lines ls"
  "join_lines (ls @ ks) = join_lines ls @ join_lines ks"
  by (simp_all add: join_lines_def)

lemma strstr_line: "header_line l \<Longrightarrow> strstr (l @ CRLF @ s) CRLF = Some (length l)"
  using strstr_skip [of "CHR 0x0D" l "CRLF @ s" "[CHR 0x0A]"] strstr_here [of CRLF s] by (simp add: header_line_def)

lemma strstr_blank:
  assumes "\<forall>l \<in> set ls. header_line l" "ls \<noteq> []"
  shows "strstr (join_lines ls @ CRLF @ s) (CRLF @ CRLF) = Some (length (join_lines ls) - 2)"
  using assms
proof (induction ls)
  case (Cons l ls)
  note IH = Cons.IH and prems = Cons.prems
  have l: "CHR 0x0D \<notin> set l" using prems(1) by (simp add: header_line_def)
  have skip: "strstr (l @ t) (CRLF @ CRLF) = map_option ((+) (length l)) (strstr t (CRLF @ CRLF))" for t
    using strstr_skip [OF l, of t "[CHR 0x0A, CHR 0x0D, CHR 0x0A]"] by simp
  show ?case
  proof (cases ls)
    case Nil
    then show ?thesis using skip [of "CRLF @ CRLF @ s"] strstr_here [of "CRLF @ CRLF" s] by simp
  next
    case (Cons k ks)
    then have k: "header_line k" using prems(1) by simp
    then obtain c k' where c: "k = c # k'" "c \<noteq> CHR 0x0D" by (cases k) (auto simp: header_line_def)
    have "strstr (CRLF @ join_lines ls @ CRLF @ s) (CRLF @ CRLF) = map_option (\<lambda>x. Suc (Suc x)) (strstr (join_lines ls @ CRLF @ s) (CRLF @ CRLF))"
      using c Cons by (simp add: option.map_comp comp_def)
    moreover have "strstr (join_lines ls @ CRLF @ s) (CRLF @ CRLF) = Some (length (join_lines ls) - 2)"
      using IH prems(1) Cons by simp
    moreover have "2 \<le> length (join_lines ls)" using Cons by simp
    ultimately show ?thesis using skip [of "CRLF @ join_lines ls @ CRLF @ s"] by simp
  qed
qed simp

text \<open>One round of the loop over the header lines, and all of them.\<close>

definition line_value :: "string \<Rightarrow> string \<Rightarrow> 64 word \<Rightarrow> 64 word" where
  "line_value l rest v =
     (case header_content_length api_header_name_equals (l @ rest) (length l) of None \<Rightarrow> v | Some w \<Rightarrow> w)"

lemma header_lines_step:
  assumes "header_line l" "drop h raw = l @ CRLF @ rest" "h + length l \<le> e"
  shows "api_header_lines raw h e v = api_header_lines raw (h + length l + 2) e (line_value l (CRLF @ rest) v)"
proof -
  have "h < e" using assms(1,3) by (cases l) (auto simp: header_line_def)
  then show ?thesis using strstr_line [OF assms(1), of rest] assms(2,3)
    by (subst api_header_lines.simps) (simp add: line_value_def)
qed

fun lines_value :: "string list \<Rightarrow> string \<Rightarrow> 64 word \<Rightarrow> 64 word" where
  "lines_value [] rest v = v"
| "lines_value (l # ls) rest v = lines_value ls rest (line_value l (CRLF @ join_lines ls @ rest) v)"

lemma header_lines_all:
  assumes "\<forall>l \<in> set ls. header_line l" "drop h raw = join_lines ls @ rest" "e + 2 = h + length (join_lines ls)"
  shows "api_header_lines raw h e v = Some (lines_value ls rest v)"
  using assms
proof (induction ls arbitrary: h v)
  case Nil
  then show ?case by (subst api_header_lines.simps) simp
next
  case (Cons l ls)
  let ?r = "join_lines ls @ rest"
  have d: "drop h raw = l @ CRLF @ ?r" using Cons.prems(2) by simp
  have "drop (length l + 2) (drop h raw) = ?r" unfolding d by simp
  then have d': "drop (h + length l + 2) raw = ?r" by (simp add: add.commute add.left_commute)
  have e: "e + 2 = (h + length l + 2) + length (join_lines ls)" "h + length l \<le> e" using Cons.prems(3) by simp_all
  have l: "header_line l" "\<forall>l \<in> set ls. header_line l" using Cons.prems(1) by simp_all
  show ?case unfolding header_lines_step [OF l(1) d e(2)] using Cons.IH [OF l(2) d' e(1)] by simp
qed

lemma strtoul_digits:
  assumes "n < 2 ^ 64" "\<not> isdigit (peek rest)"
  shows "fst (strtoul10 (CHR '' '' # show_nat n @ rest)) = of_nat n"
proof -
  note d = show_nat_digits [of n]
  then obtain c cs where c: "show_nat n = c # cs" "isdigit c" by (cases "show_nat n") auto
  have "takeWhile isdigit (show_nat n @ rest) = show_nat n"
    using d assms(2) by (intro takeWhile_all_append) auto
  moreover have "dropWhile isspace (CHR '' '' # show_nat n @ rest) = show_nat n @ rest"
    using c digit_class [OF c(2)] by (simp add: isspace_def)
  moreover have "peek (show_nat n @ rest) \<noteq> CHR ''-''" "peek (show_nat n @ rest) \<noteq> CHR ''+''"
    using c digit_class [OF c(2)] by auto
  moreover have "int n \<le> 18446744073709551615" using assms(1) by simp
  ultimately show ?thesis using d by (simp add: strtoul10_def Let_def)
qed

text \<open>
  The request of a client: the request line, header lines of which exactly one is the length of the body, and the JSON body
  with the escaped query.
\<close>

definition other_header :: "string \<Rightarrow> bool" where
  "other_header l \<longleftrightarrow> header_line l \<and>
     (case memchr l (CHR '':'') of None \<Rightarrow> True | Some n \<Rightarrow> \<not> api_header_name_equals l ''Content-Length'' n)"

definition query_body :: "string \<Rightarrow> string" where
  "query_body q = ''{'' @ jq ''query'' @ '':'' @ jq (escape q) @ ''}''"

definition request_lines :: "string list \<Rightarrow> nat \<Rightarrow> string list \<Rightarrow> string list" where
  "request_lines hs n ks = ''POST /query HTTP/1.1'' # hs @ [''Content-Length: '' @ show_nat n] @ ks"

definition query_request :: "string list \<Rightarrow> string list \<Rightarrow> string \<Rightarrow> string" where
  "query_request hs ks q = join_lines (request_lines hs (length (query_body q)) ks) @ CRLF @ query_body q"

lemma memchr_bound: "memchr s c = Some n \<Longrightarrow> n < length s"
  by (induction s arbitrary: n) (auto split: if_splits)

lemma line_value_other: "other_header l \<Longrightarrow> line_value l rest v = v"
proof -
  assume o: "other_header l"
  have "header_content_length api_header_name_equals (l @ rest) (length l) = None"
    using o memchr_bound [of l "CHR '':''"]
    by (auto simp: header_content_length_def other_header_def api_header_name_equals_def split: option.splits)
  then show ?thesis by (simp add: line_value_def)
qed

lemma lines_value_other: "\<forall>l \<in> set ls. other_header l \<Longrightarrow> lines_value ls rest v = v"
  by (induction ls arbitrary: v) (auto simp: line_value_other)

lemma lines_value_append: "lines_value (ls @ ks) rest v = lines_value ks rest (lines_value ls (join_lines ks @ rest) v)"
  by (induction ls arbitrary: v) auto

lemma line_value_length:
  assumes "n < 2 ^ 64"
  shows "line_value (''Content-Length: '' @ show_nat n) (CRLF @ rest) v = of_nat n"
proof -
  have "\<not> isdigit (peek (CRLF @ rest))" by (simp add: isdigit_def code_of_def)
  from strtoul_digits [OF assms this] show ?thesis
    by (simp add: line_value_def header_content_length_def api_header_name_equals_def api_ascii_case_equal_char_def)
qed

lemma request_line_ok: "header_line ''POST /query HTTP/1.1''"
  by (simp add: header_line_def)

lemma length_line_ok: "header_line (''Content-Length: '' @ show_nat n)"
proof -
  have "CHR 0x0D \<notin> set (show_nat n)" using show_nat_digits [of n] by (auto simp: isdigit_def code_of_def)
  then show ?thesis using show_nat_no_NUL by (simp add: header_line_def)
qed

lemma request_lines_ok:
  "\<forall>l \<in> set (hs @ ks). other_header l \<Longrightarrow> \<forall>l \<in> set (request_lines hs n ks). header_line l"
  using request_line_ok length_line_ok by (auto simp: request_lines_def other_header_def)

lemma request_words:
  "sscanf_words [7, 63, 15] (''POST /query HTTP/1.1'' @ CRLF @ rest) = [''POST'', ''/query'', ''HTTP/1.1'']"
  by (simp add: isspace_def Let_def)

lemma skip_spaces_stop: "drop i buf = c # rest \<Longrightarrow> \<not> isspace c \<Longrightarrow> api_skip_spaces buf i e = Some i"
  using arr_get_drop [of i buf c rest] by (subst api_skip_spaces.simps) simp

lemma json_class: "\<not> isspace (CHR ''{'')" "\<not> isspace (CHR 0x22)" "\<not> isspace (CHR '':'')"
  by (simp_all add: isspace_def)

lemma escape_query: "escape ''query'' = ''query''" "json_plain ''query''" "length (escape ''query'') = 5"
  by (simp_all add: json_escape_def json_plain_def code_of_def)

lemma extract_field_query:
  assumes "\<And>e. api_skip_spaces buf b e = Some b" "\<And>e. api_skip_spaces buf k e = Some k" "\<And>e. api_skip_spaces buf (Suc k) e = Some (Suc k)"
    "arr_get buf b = Some (CHR 0x22)" "arr_get buf k = Some (CHR '':'')" "b < e" "k < e"
    "api_parse_json_string buf b e 64 = Some (Some (k, ''query''))" "api_parse_json_string buf (Suc k) e n = Some (Some (z, q))"
  shows "api_extract_field buf b e n = Some (Found q)"
  unfolding api_extract_field_def by (simp add: assms cstr_def)

lemma extract_query:
  assumes "json_plain q" "length q < 1024" "drop b buf = query_body q @ rest" "b + length (query_body q) \<le> sz"
  shows "api_extract_query_string buf sz b (length (query_body q)) 1024 = Some (Some q)"
proof -
  define k e where "k = b + 8" and "e = b + length (query_body q)"
  have e: "e = b + length (escape q) + 12" by (simp add: query_body_def jq_def e_def)
  have d0: "drop b buf = CHR ''{'' # CHR 0x22 # escape ''query'' @ CHR 0x22 # CHR '':'' # CHR 0x22 # escape q @ CHR 0x22 # ''}'' @ rest"
    using assms(3) unfolding escape_query(1) by (simp add: query_body_def jq_def)
  then have d1: "drop (Suc b) buf = CHR 0x22 # escape ''query'' @ CHR 0x22 # CHR '':'' # CHR 0x22 # escape q @ CHR 0x22 # ''}'' @ rest"
    by (intro conjunct2 [OF arr_get_drop])
  have "drop 7 (drop (Suc b) buf) = CHR '':'' # CHR 0x22 # escape q @ CHR 0x22 # ''}'' @ rest"
    unfolding d1 escape_query(1) by simp
  then have d2: "drop k buf = CHR '':'' # CHR 0x22 # escape q @ CHR 0x22 # ''}'' @ rest" by (simp add: k_def add.commute)
  then have d3: "drop (Suc k) buf = CHR 0x22 # escape q @ CHR 0x22 # ''}'' @ rest" by (intro conjunct2 [OF arr_get_drop])
  have key: "api_parse_json_string buf (Suc b) e 64 = Some (Some (k, ''query''))"
    using parse_json_escape [OF escape_query(2) d1, of e 64, unfolded escape_query(3)] e by (simp add: k_def)
  have val: "api_parse_json_string buf (Suc k) e 1024 = Some (Some (Suc k + length (escape q) + 2, q))"
    by (rule parse_json_escape [OF assms(1) d3]) (use e assms(2) k_def in simp_all)
  note g = conjunct1 [OF arr_get_drop [OF d0]] conjunct1 [OF arr_get_drop [OF d1]] conjunct1 [OF arr_get_drop [OF d2]]
  note s = skip_spaces_stop [OF d0 json_class(1)] skip_spaces_stop [OF d1 json_class(2)] skip_spaces_stop [OF d2 json_class(3)]
    skip_spaces_stop [OF d3 json_class(2)]
  have lt: "Suc b < e" "k < e" using e k_def by simp_all
  have "api_extract_field buf (Suc b) e 1024 = Some (Found q)"
    by (rule extract_field_query [OF s(2-4) g(2,3) lt key val])
  moreover have "Suc b < e" using e by simp
  ultimately have "api_extract_from buf (Suc b) e 1024 = Some (Some q)" by (subst api_extract_from.simps) simp
  then show ?thesis using g(1) s(1) lt(1) assms(4) unfolding api_extract_query_string_def Let_def e_def [symmetric] by simp
qed

lemma escape_plain_no_NUL: "json_plain q \<Longrightarrow> NUL \<notin> set (escape q)"
  by (rule escape_no_NUL) (auto simp: json_plain_def code_of_def)

lemma join_lines_no_NUL: "\<forall>l \<in> set ls. header_line l \<Longrightarrow> NUL \<notin> set (join_lines ls)"
  by (induction ls) (auto simp: header_line_def)

lemma query_request_no_NUL:
  assumes "\<forall>l \<in> set (hs @ ks). other_header l" "json_plain q"
  shows "NUL \<notin> set (query_request hs ks q)"
  using join_lines_no_NUL [OF request_lines_ok [OF assms(1)]] escape_plain_no_NUL [OF assms(2)]
  by (simp add: query_request_def query_body_def jq_def)

text \<open>The length of the body that a buffer with such a request announces.\<close>

lemma request_length:
  assumes "\<forall>l \<in> set (hs @ ks). other_header l" "n < 2 ^ 64"
  shows "api_header_lines (join_lines (request_lines hs n ks) @ CRLF @ rest) 22 (length (join_lines (request_lines hs n ks)) - 2) 0 = Some (of_nat n)"
proof -
  let ?ls = "hs @ [''Content-Length: '' @ show_nat n] @ ks"
  let ?raw = "join_lines (request_lines hs n ks) @ CRLF @ rest"
  have ok: "\<forall>l \<in> set ?ls. header_line l" using request_lines_ok [OF assms(1), of n] by (simp add: request_lines_def)
  have d: "drop 22 ?raw = join_lines ?ls @ CRLF @ rest" by (simp add: request_lines_def)
  have "length (join_lines (request_lines hs n ks)) - 2 + 2 = 22 + length (join_lines ?ls)" by (simp add: request_lines_def)
  from header_lines_all [OF ok d this] have "api_header_lines ?raw 22 (length (join_lines (request_lines hs n ks)) - 2) 0 =
      Some (lines_value ?ls (CRLF @ rest) 0)" .
  also have "lines_value ?ls (CRLF @ rest) 0 = of_nat n"
    using assms(1) line_value_length [OF assms(2), of "join_lines ks @ CRLF @ rest"]
    by (simp only: lines_value_append lines_value.simps) (simp add: lines_value_other)
  finally show ?thesis .
qed

lemma parse_query_request:
  assumes "\<forall>l \<in> set (hs @ ks). other_header l" "json_plain q" "length q < 1024" "length (query_request hs ks q) < sz" "sz < 2 ^ 64"
  shows "api_parse_http_request (Some (query_request hs ks q @ [NUL])) sz =
    Some (Inr \<lparr>req_method = API_METHOD_POST, req_path = ''/query'', req_query = q, req_content_length = of_nat (length (query_body q))\<rparr>)"
proof -
  let ?b = "query_body q" let ?ls = "request_lines hs (length ?b) ks" let ?raw = "query_request hs ks q"
  have raw: "?raw = join_lines ?ls @ CRLF @ ?b" by (simp add: query_request_def)
  have n: "length ?b < 2 ^ 64" using assms(4,5) unfolding raw by simp
  have nn: "NUL \<notin> set ?raw" by (rule query_request_no_NUL [OF assms(1,2)])
  then have c: "cstr_get (?raw @ [NUL]) = Some ?raw" by (simp add: cstr_get_def cstr_def takeWhile_append)
  let ?r = "join_lines (hs @ [''Content-Length: '' @ show_nat (length ?b)] @ ks) @ CRLF @ ?b"
  have raw2: "?raw = ''POST /query HTTP/1.1'' @ CRLF @ ?r" by (simp add: raw request_lines_def)
  have line: "strstr ?raw CRLF = Some 20" using strstr_line [OF request_line_ok, of ?r] unfolding raw2 by simp
  have words: "sscanf_words [7, 63, 15] ?raw = [''POST'', ''/query'', ''HTTP/1.1'']" unfolding raw2 by (rule request_words)
  let ?h = "length (join_lines ?ls) - 2"
  have blank: "strstr ?raw (CRLF @ CRLF) = Some ?h"
    unfolding raw using strstr_blank [OF request_lines_ok [OF assms(1)]] by (simp add: request_lines_def)
  have len: "api_header_lines ?raw 22 ?h 0 = Some (of_nat (length ?b))" unfolding raw by (rule request_length [OF assms(1) n])
  have h: "?h + 4 = length (join_lines ?ls @ CRLF)" by (simp add: request_lines_def)
  have d: "drop (?h + 4) (?raw @ [NUL]) = ?b @ [NUL]" unfolding h raw by simp
  have "?h + 4 + length ?b \<le> sz" unfolding h using assms(4) unfolding raw by simp
  from extract_query [OF assms(2,3) d this] have ex: "api_extract_query_string (?raw @ [NUL]) sz (?h + 4) (length ?b) 1024 = Some (Some q)" .
  have u: "unat (of_nat (length ?b) :: 64 word) = length ?b" using n by (simp add: unsigned_of_nat take_bit_nat_eq_self)
  moreover have "length ?b \<noteq> 0" by (simp add: query_body_def)
  ultimately have "(of_nat (length ?b) :: 64 word) \<noteq> 0" by (metis unat_0)
  then show ?thesis unfolding api_parse_http_request_def
    using c line words blank len ex u by (simp add: api_method_def Let_def)
qed

section \<open>Reading inside the buffer\<close>

text \<open>Up to an end pointer inside the initialised bytes, every function of the JSON parser is defined and stays there.\<close>

lemma skip_spaces_in:
  "\<lbrakk>cursor \<le> e; e \<le> length buf\<rbrakk> \<Longrightarrow> \<exists>c. api_skip_spaces buf cursor e = Some c \<and> cursor \<le> c \<and> c \<le> e"
proof (induction buf cursor e rule: api_skip_spaces.induct)
  case (1 buf cursor e)
  show ?case
  proof (cases "cursor < e \<and> isspace (buf ! cursor)")
    case True
    then have "\<exists>c. api_skip_spaces buf (Suc cursor) e = Some c \<and> Suc cursor \<le> c \<and> c \<le> e" using 1 by auto
    then show ?thesis using True 1(3) by (subst api_skip_spaces.simps) auto
  next
    case False
    then show ?thesis using 1(2,3) by (subst api_skip_spaces.simps) auto
  qed
qed

lemma skip_value_in:
  "\<lbrakk>cursor \<le> e; e \<le> length buf\<rbrakk> \<Longrightarrow> \<exists>c. api_skip_value buf cursor e = Some c \<and> cursor \<le> c \<and> c \<le> e"
proof (induction buf cursor e rule: api_skip_value.induct)
  case (1 buf cursor e)
  show ?case
  proof (cases "cursor < e \<and> buf ! cursor \<noteq> CHR '','' \<and> buf ! cursor \<noteq> CHR ''}''")
    case True
    then have "\<exists>c. api_skip_value buf (Suc cursor) e = Some c \<and> Suc cursor \<le> c \<and> c \<le> e" using 1 by auto
    then show ?thesis using True 1(3) by (subst api_skip_value.simps) auto
  next
    case False
    then show ?thesis using 1(2,3) by (subst api_skip_value.simps) auto
  qed
qed

definition json_in :: "nat \<Rightarrow> (nat \<times> string) option option \<Rightarrow> bool" where
  "json_in e r \<longleftrightarrow> r = Some None \<or> (\<exists>c q. r = Some (Some (c, q)) \<and> c \<le> e)"

lemma json_chars_in: "\<lbrakk>e \<le> length buf; length b < n\<rbrakk> \<Longrightarrow> json_in e (api_json_chars buf cursor e b n)"
proof (induction "e - cursor" arbitrary: cursor b rule: less_induct)
  case less
  show ?case
  proof (cases "cursor < e")
    case lt: True
    have ih: "json_in e (api_json_chars buf c e (b @ [x]) n)" if "cursor < c" "\<not> n \<le> Suc (length b)" for c x
      using that lt less.prems by (intro less.hyps) auto
    show ?thesis
    proof (cases "buf ! cursor = CHR 0x5C \<and> Suc cursor < e \<and> \<not> n \<le> Suc (length b) \<and> json_unescape (buf ! Suc cursor) \<noteq> None")
      case True
      then obtain x where "json_unescape (buf ! Suc cursor) = Some x" by blast
      then show ?thesis using True lt less.prems ih [of "Suc (Suc cursor)" x] by (subst api_json_chars.simps) simp
    next
      case False
      then show ?thesis using lt less.prems ih [of "Suc cursor" "buf ! cursor"]
        by (subst api_json_chars.simps) (auto simp: json_in_def split: option.splits)
    qed
  next
    case False
    then show ?thesis by (subst api_json_chars.simps) (simp add: json_in_def)
  qed
qed

lemma parse_json_in: "e \<le> length buf \<Longrightarrow> 0 < n \<Longrightarrow> json_in e (api_parse_json_string buf cursor e n)"
  using json_chars_in [of e buf "[]" n "Suc cursor"] by (auto simp: api_parse_json_string_def json_in_def)

definition field_in :: "nat \<Rightarrow> field_result option \<Rightarrow> bool" where
  "field_in e r \<longleftrightarrow> r \<noteq> None \<and> (\<forall>c. r = Some (NextField c) \<longrightarrow> c \<le> e)"

lemma skip_field_in:
  assumes "cursor \<le> e" "e < length buf"
  shows "field_in e (api_skip_field buf cursor e)"
proof -
  have rest: "field_in e (do { c \<leftarrow> api_skip_spaces buf k e;
      if c < e then do { x \<leftarrow> arr_get buf c; Some (NextField (if x = CHR '','' then Suc c else c)) } else Some (NextField c) })" if "k \<le> e" for k
    using skip_spaces_in [OF that, of buf] assms(2) by (auto simp: field_in_def split: if_splits)
  show ?thesis
  proof (cases "buf ! cursor = CHR 0x22")
    case True
    have "json_in e (api_parse_json_string buf cursor e 16)" using parse_json_in assms by simp
    then show ?thesis using True assms rest by (auto simp: api_skip_field_def json_in_def field_in_def)
  next
    case False
    obtain c where "api_skip_value buf cursor e = Some c" "c \<le> e" using skip_value_in [of cursor e buf] assms by auto
    then show ?thesis using False assms rest [of c] by (simp add: api_skip_field_def)
  qed
qed

lemma extract_field_in:
  assumes "cursor < e" "e < length buf" "0 < n"
  shows "field_in e (api_extract_field buf cursor e n)"
proof -
  obtain c where c: "api_skip_spaces buf cursor e = Some c" "c \<le> e" using skip_spaces_in [of cursor e buf] assms by auto
  have json: "json_in e (api_parse_json_string buf k e l)" if "0 < l" for k l using parse_json_in [of e buf l] that assms(2) by simp
  show ?thesis
  proof (cases "\<exists>d key. api_parse_json_string buf c e 64 = Some (Some (d, key))")
    case True
    then obtain d key where d: "api_parse_json_string buf c e 64 = Some (Some (d, key))" by blast
    then have "d \<le> e" using json [of 64 c] by (auto simp: json_in_def)
    then obtain d' where d': "api_skip_spaces buf d e = Some d'" "d' \<le> e" using skip_spaces_in [of d e buf] assms by auto
    show ?thesis
    proof (cases "d' < e \<and> buf ! d' = CHR '':''")
      case True
      then obtain k where k: "api_skip_spaces buf (Suc d') e = Some k" "k \<le> e" using skip_spaces_in [of "Suc d'" e buf] assms by auto
      show ?thesis using c d d' True k json [OF assms(3), of k] skip_field_in [OF k(2) assms(2)] assms
        by (auto simp: api_extract_field_def json_in_def field_in_def)
    qed (use c d d' assms in \<open>auto simp: api_extract_field_def field_in_def\<close>)
  next
    case False
    then have "api_parse_json_string buf c e 64 = Some None" using json [of 64 c] by (auto simp: json_in_def)
    then show ?thesis using c assms by (auto simp: api_extract_field_def field_in_def)
  qed
qed

lemma extract_from_in: "\<lbrakk>e < length buf; 0 < n\<rbrakk> \<Longrightarrow> api_extract_from buf cursor e n \<noteq> None"
proof (induction "e - cursor" arbitrary: cursor rule: less_induct)
  case less
  show ?case
  proof (cases "cursor < e")
    case True
    note f = extract_field_in [OF True less.prems]
    show ?thesis
    proof (cases "\<exists>c. api_extract_field buf cursor e n = Some (NextField c)")
      case True
      then obtain c where c: "api_extract_field buf cursor e n = Some (NextField c)" by blast
      have "e - c < e - cursor" using extract_field_less [OF c] \<open>cursor < e\<close> by simp
      from less.hyps [OF this less.prems] show ?thesis using c \<open>cursor < e\<close> by (subst api_extract_from.simps) simp
    next
      case False
      then show ?thesis using f \<open>cursor < e\<close>
        by (subst api_extract_from.simps) (auto simp: field_in_def split: field_result.splits)
    qed
  qed (subst api_extract_from.simps, simp)
qed

lemma extract_query_in:
  assumes "body + n < length buf" "length buf \<le> sz" "0 < k"
  shows "api_extract_query_string buf sz body n k \<noteq> None"
proof -
  obtain c where "api_skip_spaces buf body (body + n) = Some c" "c \<le> body + n" using skip_spaces_in [of body "body + n" buf] assms by auto
  then show ?thesis using assms extract_from_in [of "body + n" buf k "Suc c"] by (auto simp: api_extract_query_string_def Let_def)
qed

text \<open>The offset behind the body that the headers announce, as the parser reads them.\<close>

definition announced_end :: "string \<Rightarrow> nat option" where
  "announced_end raw = do {
     line_end \<leftarrow> strstr raw CRLF;
     header_end \<leftarrow> strstr raw (CRLF @ CRLF);
     len \<leftarrow> api_header_lines raw (line_end + 2) header_end 0;
     Some (header_end + 4 + unat len)
   }"

lemma parse_in:
  assumes "length received < sz" "\<forall>e. announced_end (cstr received) = Some e \<longrightarrow> e \<le> length received"
  shows "api_parse_http_request (Some (received @ [NUL])) sz \<noteq> None"
proof -
  have c: "cstr_get (received @ [NUL]) = Some (cstr received)" by (simp add: cstr_get_def cstr_def takeWhile_tail)
  have ex: "api_extract_query_string (received @ [NUL]) sz (h + 4) (unat len) 1024 \<noteq> None"
    if "strstr (cstr received) CRLF = Some l" "strstr (cstr received) [CHR 0x0D, CHR 0x0A, CHR 0x0D, CHR 0x0A] = Some h"
      "api_header_lines (cstr received) (Suc (Suc l)) h 0 = Some len" for l h len
  proof -
    have "announced_end (cstr received) = Some (h + 4 + unat len)" using that by (simp add: announced_end_def)
    then have "h + 4 + unat len \<le> length received" using assms(2) by blast
    then show ?thesis using assms(1) by (intro extract_query_in) simp_all
  qed
  show ?thesis unfolding api_parse_http_request_def using c
    by (auto simp: Let_def simp del: sscanf_words.simps split: option.splits list.splits Option.bind_splits dest: ex)
qed

section \<open>The response to an execution\<close>

definition select_text :: "bool \<Rightarrow> Record list \<Rightarrow> string" where
  "select_text indexed rs = select_head (length rs) indexed @ comma_sep (map row_of rs) @ '']}''"

definition answer :: "int \<Rightarrow> string \<Rightarrow> APIResponse" where
  "answer code text = \<lparr>status_code = code, content_type = Some json_content_type, resp_body = Some text\<rparr>"

text \<open>What the client is told about a statement: the response, given the error message in the result.\<close>

definition statement_answer :: "int \<Rightarrow> Record list \<Rightarrow> bool \<Rightarrow> sql_statement \<Rightarrow> SQLResult \<Rightarrow> APIResponse" where
  "statement_answer i rs indexed st r =
     (case st of
        InsertStatement name age \<Rightarrow> answer 200 (insert_text i)
      | SelectStatement q \<Rightarrow> answer 200 (select_text indexed (filter (query_matches q) rs))
      | ExitStatement \<Rightarrow> answer 400 (error_text ''query_error'' (escape ''EXIT and QUIT are only supported in CLI mode''))
      | BadStatement \<Rightarrow> answer 400 (error_text (if status r = SQL_STATUS_SYNTAX_ERROR then ''syntax_error'' else ''query_error'')
          (escape (cstr (error_message r)))))"

lemma answer_eq: "zero_response\<lparr>resp_body := Some b, status_code := code, content_type := Some json_content_type\<rparr> = answer code b"
  "zero_response\<lparr>status_code := code, content_type := Some json_content_type, resp_body := Some b\<rparr> = answer code b"
  by (simp_all add: answer_def zero_response_def)

lemma insert_text_no_NUL: "NUL \<notin> set (insert_text i)"
  using show_int_no_NUL by (simp add: insert_text_def jq_def)

lemma insert_response:
  assumes "live_mem m" "int_range i"
  shows "\<exists>m'. api_set_response_body m zero_response 200 (snprintf 256 (insert_text i)) = (m', answer 200 (insert_text i), True) \<and>
    quiet m m' \<and> live_mem m'"
proof -
  obtain m1 p1 where a: "alloc m = (m1, p1)" "p1 \<noteq> NULL" "quiet m m1" "live_mem m1" using alloc_quiet [OF assms(1)] by blast
  have "snprintf 256 (insert_text i) = insert_text i" using insert_text_length [of i] assms(2) by (simp add: snprintf_def int_range_def)
  moreover have "cstr (insert_text i) = insert_text i" by (rule cstr_no_NUL [OF insert_text_no_NUL])
  ultimately show ?thesis using a by (simp add: api_set_response_body_def answer_eq)
qed

lemma execution_response:
  assumes "sql_outcome m0 t ps rs st m t' (ex_result ex)" "server_status ex = DB_SERVER_EXEC_STATUS_OK" "live_mem m"
    "\<forall>x \<in> set rs. printable_row x" "length rs < 10 ^ 20" "int_range (next_id t)"
  shows "\<exists>m'. api_build_execution_response m ex zero_response =
    Some (m', statement_answer (next_id t) rs (used_index ex) st (ex_result ex), True) \<and> quiet m m' \<and> live_mem m'"
proof (cases st)
  case (InsertStatement name age)
  then show ?thesis using assms(1,2) insert_response [OF assms(3,6)]
    by (simp add: api_build_execution_response_def sql_outcome_def statement_answer_def Let_def)
next
  case (SelectStatement q)
  let ?rows = "filter (query_matches q) rs"
  have "\<forall>x \<in> set ?rows. printable_row x" "length ?rows < 10 ^ 20" using assms(4,5) le_less_trans [OF length_filter_le] by auto
  moreover have "result_rows m (ex_result ex) ?rows" using assms(1) SelectStatement by (simp add: sql_outcome_def)
  ultimately obtain m' where "api_build_select_response m ex zero_response = Some (m', answer 200 (select_text (used_index ex) ?rows), True)"
    "quiet m m'" "live_mem m'"
    using select_response [OF _ _ assms(3), of ex ?rows zero_response] by (auto simp: select_text_def answer_eq)
  then show ?thesis using assms(1,2) SelectStatement
    by (auto simp: api_build_execution_response_def sql_outcome_def statement_answer_def Let_def split: if_splits)
next
  case ExitStatement
  then show ?thesis using assms(1,2) error_response [OF assms(3), of "''EXIT and QUIT are only supported in CLI mode''" "''query_error''" zero_response 400]
    by (simp add: api_build_execution_response_def sql_outcome_def statement_answer_def Let_def answer_eq cstr_def)
next
  case BadStatement
  have l: "length (cstr (error_message (ex_result ex))) \<le> 255"
    using assms(1) BadStatement length_takeWhile_le [of "\<lambda>c. c \<noteq> NUL" "error_message (ex_result ex)"]
    by (simp add: sql_outcome_def error_result_def cstr_def)
  show ?thesis using assms(1,2) BadStatement error_response [OF assms(3) l, of "''syntax_error''" zero_response 400]
    error_response [OF assms(3) l, of "''query_error''" zero_response 400]
    by (auto simp: api_build_execution_response_def sql_outcome_def statement_answer_def Let_def answer_eq error_result_def)
qed

section \<open>Properties\<close>

text \<open>
  C36. Parsing a request never touches a byte that was not received: when the body that the headers
  announce ends within the received bytes, the parser returns a request or an error message, whatever the bytes
  are, complete JSON or not.
\<close>

theorem api_parse_in_bounds:
  assumes "length received < array_size" "\<forall>e. announced_end (cstr received) = Some e \<longrightarrow> e \<le> length received"
  shows "\<exists>result. api_parse_http_request (Some (received @ [NUL])) array_size = Some result"
  using parse_in [OF assms] by blast

definition open_request :: string where
  "open_request = ''POST /query HTTP/1.1'' @ CRLF @ ''Content-Length: 11'' @ CRLF @ CRLF @ ''{'' @ jq ''query'' @ '':'' @ [CHR 0x22, CHR ''a'']"

theorem api_parse_in_bounds_witness:
  "announced_end (cstr open_request) = Some (length open_request) \<and>
   api_parse_http_request (Some (open_request @ [NUL])) 8192 = Some (Inl ''JSON body must contain a string field named query'')"
proof -
  have a: "announced_end (cstr open_request) = Some (length open_request)" "length open_request < 8192" by code_simp+
  then have "\<exists>result. api_parse_http_request (Some (open_request @ [NUL])) 8192 = Some result"
    using api_parse_in_bounds [of open_request 8192] by simp
  moreover have "api_parse_http_request (Some (open_request @ [NUL])) 8192 \<noteq> None \<longrightarrow>
    api_parse_http_request (Some (open_request @ [NUL])) 8192 = Some (Inl ''JSON body must contain a string field named query'')"
    by code_simp
  ultimately show ?thesis using a by simp
qed

text \<open>
  C37. No response is cut off by the array it is built in: with memory available the metrics response
  carries the whole text of the fourteen counters, whatever their values; an error response the whole text with the escaped
  message, for every message of at most 255 characters and every type of at most 20; and rendering adds the complete status line and headers
  with the length of the body.
\<close>

theorem api_responses_complete:
  assumes "live_mem m" "length (cstr msg) \<le> 255" "length ty \<le> 20" "NUL \<notin> set ty" "int_range code"
  shows "(\<exists>m'. api_build_metrics_response m mt zero_response = (m', answer 200 (metrics_text mt), True)) \<and>
    (\<exists>m' m''. api_build_error_response m zero_response code ty msg = Some (m', answer code (error_text ty (escape (cstr msg))), True) \<and>
       api_render_http_response m' (answer code (error_text ty (escape (cstr msg)))) =
         (m'', Some (response_text code json_content_type (error_text ty (escape (cstr msg))))))"
proof -
  obtain m1 p1 where a: "alloc m = (m1, p1)" "p1 \<noteq> NULL" "quiet m m1" "live_mem m1" using alloc_quiet [OF assms(1)] by blast
  have "snprintf 1024 (metrics_text mt) = metrics_text mt" using metrics_text_length [of mt] by (simp add: snprintf_def)
  then have mt: "api_build_metrics_response m mt zero_response = (m1, answer 200 (metrics_text mt), True)"
    using a cstr_no_NUL [OF metrics_text_no_NUL [of mt]] by (simp add: api_build_metrics_response_def api_set_response_body_def answer_eq)
  let ?t = "error_text ty (escape (cstr msg))"
  obtain m2 where e: "api_build_error_response m zero_response code ty msg = Some (m2, answer code ?t, True)" "live_mem m2"
    using error_response [OF assms(1-4), of zero_response code] by (auto simp: answer_eq)
  have "length ?t \<le> 1700" using assms(2,3) escape_length [of "cstr msg"] by (simp add: error_text_length)
  then have "length ?t < 10 ^ 20" by simp
  then obtain m3 where "api_render_http_response m2 (answer code ?t) = (m3, Some (response_text code json_content_type ?t))"
    using render_response [OF e(2), of "answer code ?t" ?t] assms(5) by (auto simp: answer_def)
  then show ?thesis using mt e(1) by blast
qed

theorem api_responses_complete_witness:
  "\<exists>m' m''. api_build_error_response db0 zero_response 404 ''not_found'' ''Unknown endpoint'' =
       Some (m', answer 404 (error_text ''not_found'' ''Unknown endpoint''), True) \<and>
     api_render_http_response m' (answer 404 (error_text ''not_found'' ''Unknown endpoint'')) =
       (m'', Some (response_text 404 json_content_type (error_text ''not_found'' ''Unknown endpoint'')))"
proof -
  have "escape (cstr ''Unknown endpoint'') = ''Unknown endpoint''" by code_simp
  moreover have "length (cstr ''Unknown endpoint'') \<le> 255" by code_simp
  ultimately show ?thesis
    using api_responses_complete [OF db0_live(1), of "''Unknown endpoint''" "''not_found''" 404] by (simp add: int_range_def)
qed

text \<open>
  The response to an execution says what happened: with memory available, an INSERT is answered with its
  identifier; a SELECT with the number of rows, the use of the index and each selected row in order with its escaped
  name, also when no row was selected; EXIT and QUIT and rejected statements with status 400 and the escaped message.
  The text is complete, since the array computed from the lengths of the names holds every escape.
\<close>

theorem api_execution_response_complete:
  assumes "sql_outcome m0 t ps rs st m t' (ex_result ex)" "server_status ex = DB_SERVER_EXEC_STATUS_OK" "live_mem m"
    "\<forall>x \<in> set rs. printable_row x" "length rs < 10 ^ 20" "int_range (next_id t)"
  shows "\<exists>m'. api_build_execution_response m ex zero_response =
    Some (m', statement_answer (next_id t) rs (used_index ex) st (ex_result ex), True) \<and> recs m' = recs m \<and> nodes m' = nodes m"
proof -
  obtain m' where "api_build_execution_response m ex zero_response =
    Some (m', statement_answer (next_id t) rs (used_index ex) st (ex_result ex), True)" "quiet m m'"
    using execution_response [OF assms] by blast
  then show ?thesis using quiet_recs quiet_simps by blast
qed

theorem api_execution_response_complete_witness:
  "\<exists>m ex m'. statement_of (cstr ''select * from users'') = SelectStatement SelectAll \<and>
     sql_outcome db1_mem db1_table [4] [new_record 1 ''kim'' 20] (SelectStatement SelectAll) m db1_table (ex_result ex) \<and>
     api_build_execution_response m ex zero_response = Some (m', answer 200 (select_text (used_index ex) [new_record 1 ''kim'' 20]), True)"
proof -
  have st: "statement_of (cstr ''select * from users'') = SelectStatement SelectAll" by code_simp
  obtain m t' r where x: "live_mem m" "sql_outcome db1_mem db1_table [4] [new_record 1 ''kim'' 20] (SelectStatement SelectAll) m t' r"
    using execute_outcome [OF db1_rep, of "''select * from users''"] st by auto
  define ex where "ex = db_server_zero_execution\<lparr>ex_result := r, server_status := DB_SERVER_EXEC_STATUS_OK\<rparr>"
  have "t' = db1_table" using x(2) by (simp add: sql_outcome_def)
  moreover have "printable_row (new_record 1 ''kim'' 20)" by (simp add: printable_row_def int_range_def) (simp add: new_record_def)
  moreover have "int_range (next_id db1_table)" by (simp add: int_range_def db1_table_def)
  moreover have "ex_result ex = r" "server_status ex = DB_SERVER_EXEC_STATUS_OK" by (simp_all add: ex_def)
  ultimately have "\<exists>m'. api_build_execution_response m ex zero_response =
      Some (m', statement_answer (next_id db1_table) [new_record 1 ''kim'' 20] (used_index ex) (SelectStatement SelectAll) r, True)"
    using api_execution_response_complete [of db1_mem db1_table "[4]" "[new_record 1 ''kim'' 20]" "SelectStatement SelectAll" m t' ex] x by auto
  moreover have "statement_answer (next_id db1_table) [new_record 1 ''kim'' 20] (used_index ex) (SelectStatement SelectAll) r =
      answer 200 (select_text (used_index ex) [new_record 1 ''kim'' 20])" by (simp add: statement_answer_def)
  ultimately show ?thesis using x st \<open>t' = db1_table\<close> \<open>ex_result ex = r\<close> by metis
qed

end
