(* ===== verification/HttpServer_Props.thy ===== *)
theory HttpServer_Props
  imports HttpServer Api_Props DbServer_Props
begin

text \<open>
  The connections of the HTTP server: the two readers of the length header agree on requests with a single one, a request
  is read completely however the network cuts it into pieces and its query reaches the database server, and
  each connection is counted once. Two length headers make the reader and the parser disagree, and the parser
  goes on over bytes that were never received.
\<close>

section \<open>The length header\<close>

lemma http_lower_eq: "http_lower c = tolower c"
  by (simp add: http_lower_def tolower_def isupper_def)

lemma header_name_equals_eq: "http_server_header_name_equals = api_header_name_equals"
  by (intro ext) (simp add: http_server_header_name_equals_def api_header_name_equals_def api_ascii_case_equal_char_def [abs_def] http_lower_eq)

lemma other_header_none:
  "other_header l \<Longrightarrow> header_content_length api_header_name_equals (l @ rest) (length l) = None"
  using memchr_bound [of l "CHR '':''"]
  by (auto simp: header_content_length_def other_header_def api_header_name_equals_def split: option.splits)

lemma content_length_step:
  assumes "header_line l" "drop h raw = l @ CRLF @ rest" "h + length l \<le> e"
  shows "http_content_length_from raw h e =
    (case header_content_length api_header_name_equals (l @ CRLF @ rest) (length l) of
       Some v \<Rightarrow> v | None \<Rightarrow> http_content_length_from raw (h + length l + 2) e)"
proof -
  have "h < e" using assms(1,3) by (cases l) (auto simp: header_line_def)
  then show ?thesis using strstr_line [OF assms(1), of rest] assms(2,3)
    by (subst http_content_length_from.simps) (simp add: header_name_equals_eq)
qed

lemma content_length_lines:
  assumes "\<forall>l \<in> set hs. other_header l" "n < 2 ^ 64"
    "drop h raw = join_lines (hs @ [''Content-Length: '' @ show_nat n]) @ rest" "h + length (join_lines (hs @ [''Content-Length: '' @ show_nat n])) \<le> e + 2"
  shows "http_content_length_from raw h e = of_nat n"
  using assms(1,3,4)
proof (induction hs arbitrary: h)
  case Nil
  let ?l = "''Content-Length: '' @ show_nat n"
  have v: "line_value ?l (CRLF @ rest) 0 = of_nat n" "line_value ?l (CRLF @ rest) 1 = of_nat n" using line_value_length [OF assms(2)] by blast+
  have "header_content_length api_header_name_equals (?l @ CRLF @ rest) (length ?l) = Some (of_nat n)"
    using v unfolding line_value_def by (cases "header_content_length api_header_name_equals (?l @ CRLF @ rest) (length ?l)") auto
  moreover have "drop h raw = ?l @ CRLF @ rest" "h + length ?l \<le> e" using Nil.prems(2,3) by simp_all
  ultimately show ?case using content_length_step [OF length_line_ok [of n], of h raw rest e] by simp
next
  case (Cons l hs)
  let ?r = "join_lines (hs @ [''Content-Length: '' @ show_nat n]) @ rest"
  have l: "other_header l" "header_line l" using Cons.prems(1) by (auto simp: other_header_def)
  have d: "drop h raw = l @ CRLF @ ?r" using Cons.prems(2) by simp
  have "drop (length l + 2) (drop h raw) = ?r" unfolding d by simp
  then have d': "drop (h + length l + 2) raw = ?r" by (simp add: add.commute add.left_commute)
  have e: "h + length l \<le> e" "h + length l + 2 + length (join_lines (hs @ [''Content-Length: '' @ show_nat n])) \<le> e + 2"
    using Cons.prems(3) by simp_all
  show ?case unfolding content_length_step [OF l(2) d e(1)] other_header_none [OF l(1)]
    using Cons.IH [OF _ d' e(2)] Cons.prems(1) by simp
qed

section \<open>Pieces of a request\<close>

lemma strstr_short: "length s < length pat \<Longrightarrow> strstr s pat = None"
proof (induction s)
  case (Cons c s)
  have "take (length pat) (c # s) \<noteq> pat" using Cons.prems by (metis length_take min.strict_order_iff nat_neq_iff min.commute)
  then show ?case using Cons by simp
qed auto

lemma strstr_prefix:
  "strstr (p @ t) pat = Some h \<Longrightarrow> pat \<noteq> [] \<Longrightarrow> strstr p pat = (if h + length pat \<le> length p then Some h else None)"
proof (induction p arbitrary: h)
  case (Cons c p)
  show ?case
  proof (cases "take (length pat) (c # p @ t) = pat")
    case True
    then have "h = 0" using Cons.prems(1) by simp
    moreover have "take (length pat) (c # p) = pat \<longleftrightarrow> length pat \<le> length (c # p)"
    proof
      assume "take (length pat) (c # p) = pat"
      then show "length pat \<le> length (c # p)" by (metis length_take min.cobounded1)
    next
      assume "length pat \<le> length (c # p)"
      then show "take (length pat) (c # p) = pat" using True by (metis append_Cons take_append append_Nil2 diff_is_0_eq' take_0)
    qed
    moreover have "strstr p pat = None" if "\<not> length pat \<le> length (c # p)" using that by (intro strstr_short) simp
    ultimately show ?thesis by auto
  next
    case False
    then obtain k where k: "strstr (p @ t) pat = Some k" "h = Suc k" using Cons.prems(1) by auto
    have "take (length pat) (c # p) \<noteq> pat"
    proof
      assume a: "take (length pat) (c # p) = pat"
      then have "length pat \<le> length (c # p)" by (metis length_take min.cobounded1)
      then show False using a False by (metis append_Cons take_append append_Nil2 diff_is_0_eq' take_0)
    qed
    then show ?thesis using Cons.IH [OF k(1) Cons.prems(2)] k(2) by auto
  qed
qed auto

lemma cstr_prefix: "NUL \<notin> set (p @ t) \<Longrightarrow> cstr p = p"
  by (rule cstr_no_NUL) simp

text \<open>What the reader expects after a piece of a request: nothing yet, or its whole length.\<close>

lemma expected_piece:
  assumes "\<forall>l \<in> set (hs @ ks). other_header l" "json_plain q" "query_request hs ks q = p @ t" "length (query_request hs ks q) < 2 ^ 64"
  shows "expected_after None p = None \<or> expected_after None p = Some (of_nat (length (query_request hs ks q)))"
    "t = [] \<Longrightarrow> expected_after None p \<noteq> None"
proof -
  let ?b = "query_body q" let ?ls = "request_lines hs (length ?b) ks"
  let ?h = "length (join_lines ?ls) - 2"
  have req: "query_request hs ks q = join_lines ?ls @ CRLF @ ?b" by (simp add: query_request_def)
  have n: "length ?b < 2 ^ 64" using assms(4) unfolding req by simp
  have cp: "cstr p = p" using query_request_no_NUL [OF assms(1,2)] assms(3) by (intro cstr_prefix [of p t]) simp
  have ok: "\<forall>l \<in> set ?ls. header_line l" by (rule request_lines_ok [OF assms(1)])
  have blank: "strstr (p @ t) (CRLF @ CRLF) = Some ?h"
    using strstr_blank [OF ok] unfolding assms(3) [symmetric] req by (simp add: request_lines_def)
  have h4: "?h + 4 = length (join_lines ?ls @ CRLF)" by (simp add: request_lines_def)
  have sp: "strstr p (CRLF @ CRLF) = (if ?h + 4 \<le> length p then Some ?h else None)"
    using strstr_prefix [OF blank] by simp
  have full: "expected_after None p = Some (of_nat (length (query_request hs ks q)))" if "?h + 4 \<le> length p"
  proof -
    let ?A = "join_lines ?ls @ CRLF"
    have A: "length ?A \<le> length p" using that h4 by linarith
    have "p @ t = ?A @ ?b" using assms(3) req by simp
    then have "take (length ?A) (p @ t) = take (length ?A) (?A @ ?b)" by (rule arg_cong)
    also have "\<dots> = ?A" by simp
    finally have "take (length ?A) (p @ t) = ?A" .
    then have "take (length ?A) p = ?A" using A by (simp only: take_append diff_is_0_eq' take_0 append_Nil2)
    then have "p = ?A @ drop (length ?A) p" by (metis append_take_drop_id)
    then obtain r where r: "p = join_lines ?ls @ CRLF @ r" by (metis append_assoc)
    let ?hd = "join_lines (hs @ [''Content-Length: '' @ show_nat (length ?b)])"
    have p2: "p = ''POST /query HTTP/1.1'' @ CRLF @ ?hd @ join_lines ks @ CRLF @ r" by (simp add: r request_lines_def)
    have "strstr p CRLF = Some 20" using strstr_line [OF request_line_ok, of "?hd @ join_lines ks @ CRLF @ r"] unfolding p2 by simp
    moreover have "http_content_length_from p 22 ?h = of_nat (length ?b)"
    proof (rule content_length_lines [OF _ n])
      show "\<forall>l \<in> set hs. other_header l" using assms(1) by simp
      show "drop 22 p = ?hd @ join_lines ks @ CRLF @ r" unfolding p2 by simp
      show "22 + length ?hd \<le> ?h + 2" by (simp add: request_lines_def)
    qed
    moreover have "strstr p (CRLF @ CRLF) = Some ?h" using sp that by simp
    ultimately have "expected_after None p = Some (of_nat ?h + 4 + of_nat (length ?b))"
      by (simp add: expected_after_def cp http_server_parse_content_length_def)
    also have "(of_nat ?h + 4 + of_nat (length ?b) :: 64 word) = of_nat (?h + 4 + length ?b)" by simp
    also have "?h + 4 + length ?b = length (query_request hs ks q)" unfolding h4 req by simp
    finally show ?thesis .
  qed
  moreover have none: "expected_after None p = None" if "\<not> ?h + 4 \<le> length p" using sp that by (simp add: expected_after_def cp)
  ultimately show "expected_after None p = None \<or> expected_after None p = Some (of_nat (length (query_request hs ks q)))" by blast
  assume "t = []"
  then have "length p = length (join_lines ?ls @ CRLF) + length ?b" using assms(3) req by (metis append_Nil2 append_assoc length_append)
  then have "?h + 4 \<le> length p" using h4 by linarith
  then show "expected_after None p \<noteq> None" using full by simp
qed

lemma of_nat_le_64: "a < 2 ^ 64 \<Longrightarrow> b < 2 ^ 64 \<Longrightarrow> (of_nat a :: 64 word) \<le> of_nat b \<longleftrightarrow> a \<le> b"
  by (simp add: word_le_nat_alt unsigned_of_nat take_bit_nat_eq_self)

lemma read_request_pieces:
  assumes "\<forall>l \<in> set (hs @ ks). other_header l" "json_plain q" "length (query_request hs ks q) < n" "n < 2 ^ 64"
    "query_request hs ks q = b @ concat cs" "\<forall>c \<in> set cs. c \<noteq> []" "cs \<noteq> []"
    "expected = None \<or> expected = Some (of_nat (length (query_request hs ks q)))"
  shows "http_read_from (map Data cs @ es) b expected n = Inr (query_request hs ks q)"
  using assms(5-8)
proof (induction cs arbitrary: b expected)
  case (Cons c cs)
  let ?R = "query_request hs ks q"
  have len: "length (b @ c) \<le> length ?R" "c \<noteq> []" using Cons.prems(1,2) by simp_all
  then have b1: "length b + 1 < n" "length c \<le> n - length b - 1" using assms(3) by (cases c; simp)+
  have R64: "length ?R < 2 ^ 64" "length (b @ c) < 2 ^ 64" using assms(3,4) len(1) by simp_all
  have piece: "?R = (b @ c) @ concat cs" using Cons.prems(1) by simp
  note ep = expected_piece [OF assms(1,2) piece R64(1)]
  define expected' where "expected' = expected_after expected (b @ c)"
  have e': "expected' = None \<and> expected_after None (b @ c) = None \<or> expected' = Some (of_nat (length ?R))"
    using Cons.prems(4) ep(1) unfolding expected'_def by (auto simp: expected_after_def)
  have fits: "\<not> of_nat n < (of_nat (length ?R) + 1 :: 64 word)"
    using of_nat_le_64 [of "Suc (length ?R)" n] assms(3,4) by (simp add: not_less add.commute)
  have step: "http_read_from (map Data (c # cs) @ es) b expected n =
    (case expected' of Some tot \<Rightarrow> if tot \<le> of_nat (length (b @ c)) then Inr (b @ c) else http_read_from (map Data cs @ es) (b @ c) expected' n
     | None \<Rightarrow> http_read_from (map Data cs @ es) (b @ c) expected' n)"
  proof -
    have "take (n - length b - 1) c = c" "\<not> n - length b - 1 < length c" using b1(2) by simp_all
    then show ?thesis using b1(1) len(2) e' fits
      by (subst http_read_from.simps) (cases expected'; simp add: Let_def expected'_def [symmetric])
  qed
  show ?case
  proof (cases "cs = []")
    case True
    then have "expected' = Some (of_nat (length ?R))" "b @ c = ?R" using e' ep(2) piece by auto
    then show ?thesis using step by simp
  next
    case False
    then have "length (b @ c) < length ?R" using piece Cons.prems(2) by (cases cs) auto
    then have "\<not> of_nat (length ?R) \<le> (of_nat (length (b @ c)) :: 64 word)" unfolding of_nat_le_64 [OF R64] by simp
    moreover have "http_read_from (map Data cs @ es) (b @ c) expected' n = Inr ?R"
    proof (rule Cons.IH [OF piece _ False])
      show "\<forall>c \<in> set cs. c \<noteq> []" using Cons.prems(2) by simp
      show "expected' = None \<or> expected' = Some (of_nat (length ?R))" using e' by blast
    qed
    ultimately show ?thesis using step e' by auto
  qed
qed simp

section \<open>From the socket to the query\<close>

lemma handle_query_request:
  assumes "\<forall>l \<in> set (hs @ ks). other_header l" "json_plain q" "length q < 1024" "length (query_request hs ks q) < HTTP_SERVER_REQUEST_BUFFER_SIZE"
    "concat cs = query_request hs ks q" "\<forall>c \<in> set cs. c \<noteq> []"
  shows "http_server_handle_client m server context clock (map Data cs @ es) = http_server_handle_query m server context clock q"
proof -
  have "cs \<noteq> []" using assms(5) by (auto simp: query_request_def request_lines_def)
  then have "http_server_read_request (map Data cs @ es) HTTP_SERVER_REQUEST_BUFFER_SIZE = Inr (query_request hs ks q)"
    using read_request_pieces [OF assms(1,2,4), of "[]" cs None es] assms(5,6) by (simp add: http_server_read_request_def)
  moreover have "api_parse_http_request (Some (query_request hs ks q @ [NUL])) HTTP_SERVER_REQUEST_BUFFER_SIZE =
    Some (Inr \<lparr>req_method = API_METHOD_POST, req_path = ''/query'', req_query = q, req_content_length = of_nat (length (query_body q))\<rparr>)"
    by (rule parse_query_request [OF assms(1-4)]) simp
  ultimately show ?thesis by (simp add: http_server_handle_client_def http_server_route_def)
qed

lemma send_error_counted:
  "http_server_send_error_and_count m server context code ty msg = Some (m', server', context', out) \<Longrightarrow>
   context' = http_server_note_response_complete context"
  by (auto simp: http_server_send_error_and_count_def split: Option.bind_splits prod.splits if_splits)

lemma send_counted:
  "http_server_send_and_count built server context = (m', server', context', out) \<Longrightarrow>
   context' = http_server_note_response_complete context"
  by (auto simp: http_server_send_and_count_def split: prod.splits if_splits)

lemma query_counted:
  "http_server_handle_query m server context clock q = Some (m', server', context', out) \<Longrightarrow>
   context' = http_server_note_response_complete context"
  unfolding http_server_handle_query_def
  by (auto split: Option.bind_splits option.splits prod.splits if_splits dest: send_error_counted send_counted)

lemma route_counted:
  "http_server_route m server context clock request = Some (m', server', context', out) \<Longrightarrow>
   context' = http_server_note_response_complete context"
  unfolding http_server_route_def Let_def
  by (auto split: if_splits dest: send_error_counted send_counted query_counted)

lemma client_counted:
  "http_server_handle_client m server context clock events = Some (m', server', context', out) \<Longrightarrow>
   context' = http_server_note_response_complete context"
  unfolding http_server_handle_client_def
  by (auto split: sum.splits Option.bind_splits dest: send_error_counted route_counted)

text \<open>Everything that was sent is a prefix of the text, and all of it when the function reports success.\<close>

lemma send_all_complete: "http_server_socket_send_all t sends = (out, ok) \<Longrightarrow> \<exists>rest. t = out @ rest \<and> (ok \<longrightarrow> rest = [])"
proof (induction t sends arbitrary: out rule: http_server_socket_send_all.induct)
  case (3 c buffer sent sends)
  show ?case
  proof (cases "sent \<le> 0")
    case False
    obtain o1 where o1: "http_server_socket_send_all (drop (nat sent) (c # buffer)) sends = (o1, ok)"
      "out = take (nat sent) (c # buffer) @ o1"
      using 3(2) False by (auto split: prod.splits)
    obtain rest where "drop (nat sent) (c # buffer) = o1 @ rest" "ok \<longrightarrow> rest = []" using 3(1) [OF False o1(1)] by blast
    then show ?thesis using o1(2) by (metis append_assoc append_take_drop_id)
  qed (use 3(2) in auto)
qed auto

section \<open>Two length headers\<close>

text \<open>A body whose string is not closed, and a request with it and two length headers.\<close>

definition open_body :: "string \<Rightarrow> string" where
  "open_body q = ''{'' @ jq ''query'' @ '':'' @ [CHR 0x22] @ escape q"

definition length_line :: "nat \<Rightarrow> string" where
  "length_line n = ''Content-Length: '' @ show_nat n"

definition double_request :: "string list \<Rightarrow> nat \<Rightarrow> string list \<Rightarrow> nat \<Rightarrow> string list \<Rightarrow> string \<Rightarrow> string" where
  "double_request hs n1 ls n2 ks q = join_lines (request_lines hs n1 (ls @ [length_line n2] @ ks)) @ CRLF @ open_body q"

text \<open>Behind the received bytes there is the terminator; a string that is not closed before is read on behind it.\<close>

lemma json_chars_open:
  assumes "json_plain s" "drop cursor buf = escape s @ [NUL]" "length buf < e" "length b + length s + 1 < n"
  shows "api_json_chars buf cursor e b n = None"
  using assms
proof (induction s arbitrary: cursor b)
  case Nil
  then have g: "arr_get buf cursor = Some NUL" "drop (Suc cursor) buf = []" using arr_get_drop [of cursor buf NUL "[]"] by auto
  then have c: "cursor < length buf" "length buf \<le> Suc cursor" by (auto simp: arr_get_def split: if_splits)
  then have "arr_get buf (Suc cursor) = None" by (simp add: arr_get_def)
  then have "api_json_chars buf (Suc cursor) e (b @ [NUL]) n = None"
    using Nil.prems(3) c by (subst api_json_chars.simps) simp
  then show ?case using g(1) c(1) Nil.prems(3,4) by (subst api_json_chars.simps) simp
next
  case (Cons c s)
  have p: "json_plain s" "32 \<le> code_of c \<or> c \<in> {CHR 0x09, CHR 0x0A, CHR 0x0D}" using Cons.prems(1) by (auto simp: json_plain_def)
  have lt: "cursor < length buf" using Cons.prems(2) by (metis append_is_Nil_conv drop_all not_Cons_self2 not_less)
  from p(2) show ?case
  proof (cases rule: json_escape_cases)
    case Plain
    then have g: "arr_get buf cursor = Some c" "drop (Suc cursor) buf = escape s @ [NUL]"
      using arr_get_drop [of cursor buf c] Cons.prems(2) by auto
    have "api_json_chars buf cursor e b n = api_json_chars buf (Suc cursor) e (b @ [c]) n"
      using Plain(2,3) g(1) lt Cons.prems(3,4) by (subst api_json_chars.simps) simp
    then show ?thesis using Cons.IH [OF p(1) g(2), of "b @ [c]"] Cons.prems(3,4) by simp
  next
    case (Escaped d)
    then have g: "arr_get buf cursor = Some (CHR 0x5C)" "arr_get buf (Suc cursor) = Some d" "drop (Suc (Suc cursor)) buf = escape s @ [NUL]"
      using arr_get_drop [of cursor buf "CHR 0x5C"] arr_get_drop [of "Suc cursor" buf d] Cons.prems(2) by auto
    have "api_json_chars buf cursor e b n = api_json_chars buf (Suc (Suc cursor)) e (b @ [c]) n"
      using Escaped g(1,2) lt Cons.prems(3,4) by (subst api_json_chars.simps) simp
    then show ?thesis using Cons.IH [OF p(1) g(3), of "b @ [c]"] Cons.prems(3,4) by simp
  qed
qed

lemma extract_open:
  assumes "json_plain q" "length q < 1023" "drop b buf = open_body q @ [NUL]" "length buf < b + n"
  shows "api_extract_query_string buf sz b n 1024 = None"
proof -
  define k e where "k = b + 8" and "e = b + n"
  have e: "length buf < e" using assms(4) by (simp add: e_def)
  have d0: "drop b buf = CHR ''{'' # CHR 0x22 # escape ''query'' @ CHR 0x22 # CHR '':'' # CHR 0x22 # escape q @ [NUL]"
    using assms(3) unfolding escape_query(1) by (simp add: open_body_def jq_def)
  then have d1: "drop (Suc b) buf = CHR 0x22 # escape ''query'' @ CHR 0x22 # CHR '':'' # CHR 0x22 # escape q @ [NUL]"
    by (intro conjunct2 [OF arr_get_drop])
  have "drop 7 (drop (Suc b) buf) = CHR '':'' # CHR 0x22 # escape q @ [NUL]" unfolding d1 escape_query(1) by simp
  then have d2: "drop k buf = CHR '':'' # CHR 0x22 # escape q @ [NUL]" by (simp add: k_def add.commute)
  then have d3: "drop (Suc k) buf = CHR 0x22 # escape q @ [NUL]" by (intro conjunct2 [OF arr_get_drop])
  note g = conjunct1 [OF arr_get_drop [OF d0]] conjunct1 [OF arr_get_drop [OF d1]] conjunct1 [OF arr_get_drop [OF d2]] arr_get_drop [OF d3]
  have lt: "Suc k < length buf" using g(4) by (auto simp: arr_get_def split: if_splits)
  have key: "api_parse_json_string buf (Suc b) e 64 = Some (Some (k, ''query''))"
    using parse_json_escape [OF escape_query(2) d1, of e 64, unfolded escape_query(3)] e lt by (simp add: k_def)
  have "api_json_chars buf (Suc (Suc k)) e [] 1024 = None"
    using assms(1,2) g(4) e by (intro json_chars_open) auto
  then have val: "api_parse_json_string buf (Suc k) e 1024 = None" using g(4) lt e by (simp add: api_parse_json_string_def)
  note s = skip_spaces_stop [OF d0 json_class(1)] skip_spaces_stop [OF d1 json_class(2)] skip_spaces_stop [OF d2 json_class(3)]
    skip_spaces_stop [OF d3 json_class(2)]
  have le: "b < e" "Suc b < e" "k < e" using e lt k_def by simp_all
  have "api_extract_field buf (Suc b) e 1024 = None"
    unfolding api_extract_field_def by (simp add: s g(2,3) le key val cstr_def)
  then have "api_extract_from buf (Suc b) e 1024 = None" using le by (subst api_extract_from.simps) simp
  then show ?thesis using g(1) s(1) le(1) unfolding api_extract_query_string_def Let_def e_def [symmetric] by simp
qed

lemma double_ok:
  assumes "\<forall>l \<in> set (hs @ ls @ ks). other_header l"
  shows "\<forall>l \<in> set (request_lines hs n1 (ls @ [length_line n2] @ ks)). header_line l"
  using assms request_line_ok length_line_ok by (auto simp: request_lines_def length_line_def other_header_def)

lemma double_no_NUL:
  assumes "\<forall>l \<in> set (hs @ ls @ ks). other_header l" "json_plain q"
  shows "NUL \<notin> set (double_request hs n1 ls n2 ks q)"
  using join_lines_no_NUL [OF double_ok [OF assms(1)]] escape_plain_no_NUL [OF assms(2)]
  by (simp add: double_request_def open_body_def jq_def)

lemma double_blank:
  assumes "\<forall>l \<in> set (hs @ ls @ ks). other_header l"
  shows "strstr (double_request hs n1 ls n2 ks q) (CRLF @ CRLF) = Some (length (join_lines (request_lines hs n1 (ls @ [length_line n2] @ ks))) - 2)"
    "strstr (double_request hs n1 ls n2 ks q) CRLF = Some 20"
proof -
  let ?ls = "request_lines hs n1 (ls @ [length_line n2] @ ks)"
  have "?ls \<noteq> []" by (simp add: request_lines_def)
  from strstr_blank [OF double_ok [OF assms] this]
  show "strstr (double_request hs n1 ls n2 ks q) (CRLF @ CRLF) = Some (length (join_lines ?ls) - 2)" unfolding double_request_def .
  let ?r = "join_lines (tl ?ls) @ CRLF @ open_body q"
  have "double_request hs n1 ls n2 ks q = ''POST /query HTTP/1.1'' @ CRLF @ ?r" by (simp add: double_request_def request_lines_def)
  then show "strstr (double_request hs n1 ls n2 ks q) CRLF = Some 20" using strstr_line [OF request_line_ok, of ?r] by simp
qed

text \<open>The reader takes the first header.\<close>

lemma double_read:
  assumes "\<forall>l \<in> set (hs @ ls @ ks). other_header l" "json_plain q" "length (double_request hs n1 ls n2 ks q) < 8192" "n1 \<le> length (open_body q)"
  shows "http_server_read_request [Data (double_request hs n1 ls n2 ks q)] 8192 = Inr (double_request hs n1 ls n2 ks q)"
proof -
  let ?R = "double_request hs n1 ls n2 ks q" and ?ls = "request_lines hs n1 (ls @ [length_line n2] @ ks)"
  let ?h = "length (join_lines ?ls) - 2" and ?hd = "join_lines (hs @ [''Content-Length: '' @ show_nat n1])"
  have R: "length ?R = ?h + 4 + length (open_body q)" by (simp add: double_request_def request_lines_def)
  have n1: "n1 < 2 ^ 64" using order.strict_trans1 [OF order.trans [OF assms(4)] assms(3)] R by simp
  have c: "cstr ?R = ?R" by (rule cstr_no_NUL [OF double_no_NUL [OF assms(1,2)]])
  have "http_content_length_from ?R 22 ?h = of_nat n1"
  proof (rule content_length_lines [OF _ n1])
    show "\<forall>l \<in> set hs. other_header l" using assms(1) by simp
    show "drop 22 ?R = ?hd @ join_lines (ls @ [length_line n2] @ ks) @ CRLF @ open_body q" by (simp add: double_request_def request_lines_def)
    show "22 + length ?hd \<le> ?h + 2" by (simp add: request_lines_def)
  qed
  then have "expected_after None ?R = Some (of_nat ?h + 4 + of_nat n1)"
    using double_blank [OF assms(1)] by (simp add: expected_after_def c http_server_parse_content_length_def)
  also have "(of_nat ?h + 4 + of_nat n1 :: 64 word) = of_nat (?h + 4 + n1)" by simp
  finally have ex: "expected_after None ?R = Some (of_nat (?h + 4 + n1))" .
  have le: "?h + 4 + n1 \<le> length ?R" using R assms(4) by simp
  have fits: "\<not> (8192 :: 64 word) < of_nat (?h + 4 + n1) + 1"
    using of_nat_le_64 [of "Suc (?h + 4 + n1)" 8192] assms(3) le by (simp add: not_less add.commute)
  have tot: "(of_nat (?h + 4 + n1) :: 64 word) \<le> of_nat (length ?R)"
    using of_nat_le_64 [of "?h + 4 + n1" "length ?R"] assms(3) le by simp
  have "?R \<noteq> []" by (simp add: double_request_def request_lines_def)
  moreover have "take 8191 ?R = ?R" "\<not> 8191 < length ?R" using assms(3) by simp_all
  ultimately show ?thesis unfolding http_server_read_request_def http_read_from.simps [of "[Data ?R]" "[]" None 8192]
    using ex fits tot by (simp add: Let_def del: of_nat_add of_nat_Suc)
qed

text \<open>The parser takes the last one.\<close>

lemma double_parse:
  assumes "\<forall>l \<in> set (hs @ ls @ ks). other_header l" "json_plain q" "length q < 1023" "length (open_body q) + 2 \<le> n2" "n2 < 2 ^ 64"
  shows "api_parse_http_request (Some (double_request hs n1 ls n2 ks q @ [NUL])) sz = None"
proof -
  let ?R = "double_request hs n1 ls n2 ks q" and ?ls = "request_lines hs n1 (ls @ [length_line n2] @ ks)"
  let ?h = "length (join_lines ?ls) - 2" and ?vs = "tl (request_lines hs n1 (ls @ [length_line n2] @ ks))"
  have nn: "NUL \<notin> set ?R" by (rule double_no_NUL [OF assms(1,2)])
  then have c: "cstr_get (?R @ [NUL]) = Some ?R" by (simp add: cstr_get_def cstr_def takeWhile_append)
  have words: "sscanf_words [7, 63, 15] ?R = [''POST'', ''/query'', ''HTTP/1.1'']"
    using request_words [of "join_lines ?vs @ CRLF @ open_body q"] by (simp add: double_request_def request_lines_def)
  have len: "api_header_lines ?R 22 ?h 0 = Some (of_nat n2)"
  proof -
    have vs: "?vs = (hs @ [length_line n1] @ ls) @ [length_line n2] @ ks" by (simp add: request_lines_def length_line_def)
    have ok: "\<forall>l \<in> set ?vs. header_line l" using double_ok [OF assms(1), of n1 n2] by (auto simp: request_lines_def)
    have d: "drop 22 ?R = join_lines ?vs @ CRLF @ open_body q" by (simp add: double_request_def request_lines_def)
    have "?h + 2 = 22 + length (join_lines ?vs)" by (simp add: request_lines_def)
    from header_lines_all [OF ok d this] have "api_header_lines ?R 22 ?h 0 = Some (lines_value ?vs (CRLF @ open_body q) 0)" .
    also have "lines_value ?vs (CRLF @ open_body q) 0 = of_nat n2"
      using assms(1) line_value_length [OF assms(5), of "join_lines ks @ CRLF @ open_body q"]
      unfolding vs by (simp only: lines_value_append lines_value.simps) (simp add: lines_value_other length_line_def)
    finally show ?thesis .
  qed
  have h: "?h + 4 = length (join_lines ?ls @ CRLF)" by (simp add: request_lines_def)
  have d: "drop (?h + 4) (?R @ [NUL]) = open_body q @ [NUL]" unfolding h by (simp add: double_request_def)
  have "length (?R @ [NUL]) = ?h + 4 + length (open_body q) + 1" by (simp add: double_request_def request_lines_def)
  then have "length (?R @ [NUL]) < ?h + 4 + n2" using assms(4) by linarith
  from extract_open [OF assms(2,3) d this] have ex: "api_extract_query_string (?R @ [NUL]) sz (?h + 4) n2 1024 = None" .
  have u: "unat (of_nat n2 :: 64 word) = n2" using assms(5) by (simp add: unsigned_of_nat take_bit_nat_eq_self)
  have "n2 \<noteq> 0" using assms(4) by simp
  then have "(of_nat n2 :: 64 word) \<noteq> 0" using u by (metis unat_0)
  then show ?thesis unfolding api_parse_http_request_def
    using c double_blank [OF assms(1), of n1 n2 q] words len ex u by (simp add: api_method_def Let_def)
qed

section \<open>Properties\<close>

text \<open>
  A query survives the way from the client to the database server: a request with the JSON-escaped
  query, any other header lines and one length header, of less than 8192 bytes, is read completely however the
  network cuts it into pieces, and handling the connection is executing exactly that query, for every query of at
  most 1023 characters without control characters other than tab and line ends.
\<close>

theorem http_query_delivered:
  assumes "\<forall>l \<in> set (hs @ ks). other_header l" "json_plain q" "length q < 1024" "length (query_request hs ks q) < 8192"
    "concat pieces = query_request hs ks q" "\<forall>c \<in> set pieces. c \<noteq> []"
  shows "http_server_handle_client m server context clock (map Data pieces @ later) = http_server_handle_query m server context clock q"
  by (rule handle_query_request [OF assms])

theorem http_query_delivered_witness:
  "\<forall>(m :: db_mem) server ctx clock. http_server_handle_client m server ctx clock
     (map Data [take 30 (query_request [''Host: localhost''] [''Accept: */*''] ''select * from users''),
                drop 30 (query_request [''Host: localhost''] [''Accept: */*''] ''select * from users'')]) =
   http_server_handle_query m server ctx clock ''select * from users''"
proof -
  let ?r = "query_request [''Host: localhost''] [''Accept: */*''] ''select * from users''"
  have h: "\<forall>l \<in> set ([''Host: localhost''] @ [''Accept: */*'']). other_header l" "json_plain ''select * from users''"
    "length ''select * from users'' < 1024" "length ?r < 8192" by code_simp+
  have p: "concat [take 30 ?r, drop 30 ?r] = ?r" by simp
  have "\<forall>c \<in> set [take 30 ?r, drop 30 ?r]. c \<noteq> []" by code_simp
  from http_query_delivered [OF h p this, where later = "[]"] show ?thesis unfolding append_Nil2 by blast
qed

text \<open>
  C39. Two length headers break the bound. Take any request POST /query of fewer than 8192 bytes, sent in one piece, with any other header lines that are not empty
  and have no carriage return or terminator, and two length headers. Its body opens a JSON string for the query and does not close it, after fewer than 1023 characters
  without control characters other than tab and line ends; the first length announces at most the body that was sent, the last at least two bytes more, below 2^64. The reader goes by the first and is satisfied, the parser by the last, so it goes on over bytes of the array that were never received or forms a
  pointer behind the array: handling the connection is undefined, whatever the state of the server.
\<close>

theorem http_duplicate_length_undefined:
  assumes "\<forall>l \<in> set (hs @ ls @ ks). other_header l" "json_plain q" "length q < 1023" "length (double_request hs n1 ls n2 ks q) < 8192"
    "n1 \<le> length (open_body q)" "length (open_body q) + 2 \<le> n2" "n2 < 2 ^ 64"
  shows "http_server_read_request [Data (double_request hs n1 ls n2 ks q)] 8192 = Inr (double_request hs n1 ls n2 ks q) \<and>
    api_parse_http_request (Some (double_request hs n1 ls n2 ks q @ [NUL])) 8192 = None \<and>
    http_server_handle_client m server context clock [Data (double_request hs n1 ls n2 ks q)] = None"
proof -
  have "http_server_read_request [Data (double_request hs n1 ls n2 ks q)] 8192 = Inr (double_request hs n1 ls n2 ks q)"
    by (rule double_read [OF assms(1,2,4,5)])
  moreover have "api_parse_http_request (Some (double_request hs n1 ls n2 ks q @ [NUL])) 8192 = None"
    by (rule double_parse [OF assms(1-3,6,7)])
  ultimately show ?thesis by (simp add: http_server_handle_client_def)
qed

theorem http_duplicate_length_undefined_witness:
  "\<forall>m server ctx clock. http_server_handle_client m server ctx clock
     [Data (double_request [''Host: localhost''] 11 [] 400 [] ''ab'')] = None"
proof -
  have h: "\<forall>l \<in> set ([''Host: localhost''] @ [] @ []). other_header l" "json_plain ''ab''" "length ''ab'' < 1023"
    "length (double_request [''Host: localhost''] 11 [] 400 [] ''ab'') < 8192" "11 \<le> length (open_body ''ab'')"
    "length (open_body ''ab'') + 2 \<le> 400" by code_simp+
  have "400 < (2 :: nat) ^ 64" by simp
  from http_duplicate_length_undefined [OF h this] show ?thesis by blast
qed

end
