(* ===== verification/ServerMain.thy ===== *)
theory ServerMain
  imports HttpServer_Props
begin

text \<open>
  The two programs: the server executable of \<^verbatim>\<open>src/server/server.c\<close>, with its argument parser, the query mode and the
  standard-input mode, and the interactive shell of \<^verbatim>\<open>src/cli/main.c\<close>. Standard input is the text it contains, standard
  output the text that is printed. Their \<^verbatim>\<open>main\<close> functions are composed in \<open>Programs\<close>.
\<close>

section \<open>Reading lines\<close>

text \<open>\<^verbatim>\<open>fgets\<close> with an array of \<open>n\<close> bytes: at most \<open>n - 1\<close> characters, up to and with the end of the line.\<close>

fun fgets_line :: "nat \<Rightarrow> string \<Rightarrow> string \<times> string" where
  "fgets_line 0 s = ([], s)"
| "fgets_line (Suc n) [] = ([], [])"
| "fgets_line (Suc n) (c # s) =
     (if c = CHR 0x0A then ([c], s) else let (line, rest) = fgets_line n s in (c # line, rest))"

lemma fgets_line_append: "fgets_line n s = (line, rest) \<Longrightarrow> s = line @ rest \<and> length line \<le> n \<and> (0 < n \<and> s \<noteq> [] \<longrightarrow> line \<noteq> [])"
  by (induction n s arbitrary: line rest rule: fgets_line.induct) (auto split: if_splits prod.splits)

section \<open>The server executable\<close>

definition server_parse_unsigned :: "string \<Rightarrow> 64 word \<times> bool" where
  "server_parse_unsigned value = (let (parsed, end_ptr) = strtoul10 (cstr value) in (parsed, end_ptr \<noteq> cstr value \<and> end_ptr = []))"

definition nl :: string where "nl = [CHR 0x0A]"

definition dquote :: string where "dquote = [CHR 0x22]"

definition server_print_usage :: "string \<Rightarrow> string" where
  "server_print_usage program_name =
     ''Usage:'' @ nl @
     ''  '' @ program_name @ '' --query '' @ dquote @ ''SQL'' @ dquote @ '' [--query '' @ dquote @ ''SQL'' @ dquote @ '' ...]'' @ nl @
     ''  '' @ program_name @ '' --serve [--port 8080] [--workers 4] [--queue 16]'' @ nl @
     ''  '' @ program_name @ nl @
     nl @
     ''CLI mode reads one SQL statement per line from stdin when --query is omitted.'' @ nl @
     ''HTTP mode enables GET /health, GET /metrics, and POST /query.'' @ nl"

definition bool_text :: "bool \<Rightarrow> string" where
  "bool_text b = (if b then ''true'' else ''false'')"

fun server_print_rows :: "'a db_mem_scheme \<Rightarrow> SQLResult \<Rightarrow> nat \<Rightarrow> string option" where
  "server_print_rows m r 0 = Some []"
| "server_print_rows m r (Suc i) = do {
     out \<leftarrow> server_print_rows m r i;
     rc \<leftarrow> result_record m r i;
     name \<leftarrow> cstr_get (rec_name rc);
     Some (out @ ''ROW id='' @ show_int (rec_id rc) @ '' name='' @ name @ '' age='' @ show_int (rec_age rc) @ nl)
   }"

text \<open>The printed text and the return value, which tells whether to continue.\<close>

definition server_print_execution :: "'a db_mem_scheme \<Rightarrow> DBServerExecution \<Rightarrow> (string \<times> bool) option" where
  "server_print_execution m execution =
     (let r = ex_result execution in
      if server_status execution = DB_SERVER_EXEC_STATUS_LOCK_TIMEOUT then
        Some (''ERROR type=lock_timeout message='' @ message execution @ nl, True)
      else if status r = SQL_STATUS_OK then
        if action r = SQL_ACTION_INSERT then
          Some (''OK INSERT id='' @ show_int (inserted_id r) @ '' used_index=false'' @ nl, True)
        else if action r = SQL_ACTION_SELECT_ROWS then do {
          rws \<leftarrow> server_print_rows m r (row_count r);
          Some (''OK SELECT rows='' @ show_nat (row_count r) @ '' used_index='' @ bool_text (used_index execution) @ nl @ rws, True)
        }
        else Some (''OK DONE'' @ nl, True)
      else if status r = SQL_STATUS_NOT_FOUND then
        Some (''OK SELECT rows=0 used_index='' @ bool_text (used_index execution) @ nl, True)
      else if status r = SQL_STATUS_EXIT then Some (''BYE'' @ nl, False)
      else if status r = SQL_STATUS_SYNTAX_ERROR then Some (''ERROR type=syntax message='' @ error_message r @ nl, True)
      else if status r = SQL_STATUS_QUERY_ERROR then Some (''ERROR type=query message='' @ error_message r @ nl, True)
      else Some (''ERROR type=internal message='' @ (if error_message r \<noteq> [] then error_message r else ''Execution error'') @ nl, True))"

definition server_run_query ::
  "'a db_mem_scheme \<Rightarrow> DBServer \<Rightarrow> (nat \<Rightarrow> 64 word) \<Rightarrow> string \<Rightarrow> ('a db_mem_scheme \<times> DBServer \<times> string \<times> bool) option" where
  "server_run_query m server clock q = do {
     (m, server, executed) \<leftarrow> db_server_execute m server (Some q) clock;
     case executed of
       None \<Rightarrow> Some (m, server, [], False)
     | Some execution \<Rightarrow> do {
         (out, should_continue) \<leftarrow> server_print_execution m execution;
         Some (m, server, out, should_continue)
       }
   }"

text \<open>The loop of \<^verbatim>\<open>server_run_stdin\<close> over the text of standard input; an error of a query ends it like EXIT does.\<close>

function server_stdin_from ::
  "'a db_mem_scheme \<Rightarrow> DBServer \<Rightarrow> (nat \<Rightarrow> 64 word) \<Rightarrow> string \<Rightarrow> ('a db_mem_scheme \<times> DBServer \<times> string) option" where
  "server_stdin_from m server clock input =
     (if input = [] then Some (m, server, [])
      else case fgets_line 511 input of (line, rest) \<Rightarrow>
        (case server_run_query m server clock line of
           None \<Rightarrow> None
         | Some (m, server, out, should_continue) \<Rightarrow>
             if \<not> should_continue then Some (m, server, out)
             else (case server_stdin_from m server clock rest of
                     None \<Rightarrow> None
                   | Some (m, server, out') \<Rightarrow> Some (m, server, out @ out'))))"
  by pat_completeness auto
termination
  by (relation "measure (\<lambda>(m, s, c, input). length input)") (auto dest!: fgets_line_append [OF sym])

definition server_run_stdin ::
  "'a db_mem_scheme \<Rightarrow> DBServer \<Rightarrow> (nat \<Rightarrow> 64 word) \<Rightarrow> string \<Rightarrow> ('a db_mem_scheme \<times> DBServer \<times> string) option" where
  "server_run_stdin m server clock input = do {
     (m, server, out) \<leftarrow> server_stdin_from m server clock input;
     Some (m, server, ''SQL server harness ready.'' @ nl @ ''Type EXIT or QUIT to stop.'' @ nl @ out)
   }"

subsection \<open>Arguments\<close>

record server_args =
  cli_config :: DBServerConfig
  http_options :: HTTPServerOptions
  serve_mode :: bool
  has_query_argument :: bool

definition server_args_default :: server_args where
  "server_args_default = \<lparr>cli_config = db_server_config_default, http_options = http_server_options_default,
     serve_mode = False, has_query_argument = False\<rparr>"

text \<open>A numeric option stores its value, narrowed to the width of the field; \<open>None\<close> when the option is unknown.\<close>

definition server_set_option :: "string \<Rightarrow> 64 word \<Rightarrow> server_args \<Rightarrow> server_args option" where
  "server_set_option name parsed args =
     (let opts = http_options args; c = cli_config args in
      if name = ''--port'' then Some (args\<lparr>http_options := opts\<lparr>opt_port := ucast parsed\<rparr>\<rparr>)
      else if name = ''--workers'' then Some (args\<lparr>http_options := opts\<lparr>opt_worker_count := parsed\<rparr>\<rparr>)
      else if name = ''--queue'' then Some (args\<lparr>http_options := opts\<lparr>opt_queue_capacity := parsed\<rparr>\<rparr>)
      else if name = ''--lock-timeout-ms'' then
        Some (args\<lparr>cli_config := c\<lparr>lock_timeout_ms := ucast parsed\<rparr>, http_options := opts\<lparr>opt_lock_timeout_ms := ucast parsed\<rparr>\<rparr>)
      else if name = ''--simulate-read-delay-ms'' then
        Some (args\<lparr>cli_config := c\<lparr>simulate_read_delay_ms := ucast parsed\<rparr>, http_options := opts\<lparr>opt_simulate_read_delay_ms := ucast parsed\<rparr>\<rparr>)
      else if name = ''--simulate-write-delay-ms'' then
        Some (args\<lparr>cli_config := c\<lparr>simulate_write_delay_ms := ucast parsed\<rparr>, http_options := opts\<lparr>opt_simulate_write_delay_ms := ucast parsed\<rparr>\<rparr>)
      else if name = ''--max-requests'' then Some (args\<lparr>http_options := opts\<lparr>opt_max_requests := ucast parsed\<rparr>\<rparr>)
      else None)"

definition server_option_ok :: "string \<Rightarrow> 64 word \<Rightarrow> bool" where
  "server_option_ok name parsed =
     (if name = ''--port'' then parsed \<le> 65535
      else if name = ''--workers'' \<or> name = ''--queue'' then parsed \<noteq> 0
      else True)"

text \<open>The loop over the arguments: \<open>Inl\<close> is an exit code, and whether the usage is printed.\<close>

fun server_parse_args :: "string list \<Rightarrow> server_args \<Rightarrow> (int \<times> bool) + server_args" where
  "server_parse_args [] args = Inr args"
| "server_parse_args (a # argv) args =
     (if a = ''--help'' then Inl (0, True)
      else if a = ''--serve'' then server_parse_args argv (args\<lparr>serve_mode := True\<rparr>)
      else if a = ''--query'' then
        (case argv of [] \<Rightarrow> Inl (1, False) | _ # argv' \<Rightarrow> server_parse_args argv' (args\<lparr>has_query_argument := True\<rparr>))
      else if server_set_option a 0 args = None then Inl (1, True)
      else
        (case argv of
           [] \<Rightarrow> Inl (1, False)
         | v # argv' \<Rightarrow>
             (case server_parse_unsigned v of (parsed, ok) \<Rightarrow>
              if \<not> ok \<or> \<not> server_option_ok a parsed then Inl (1, False)
              else server_parse_args argv' (the (server_set_option a parsed args)))))"

fun server_query_args :: "string list \<Rightarrow> string list" where
  "server_query_args [] = []"
| "server_query_args [a] = []"
| "server_query_args (a # q # argv) = (if a = ''--query'' then q # server_query_args argv else server_query_args (q # argv))"

datatype server_mode =
    ExitWith int bool
  | ServeHttp HTTPServerOptions
  | RunStdin DBServerConfig
  | RunQueries DBServerConfig "string list"

definition server_main_mode :: "string list \<Rightarrow> server_mode" where
  "server_main_mode argv =
     (case server_parse_args argv server_args_default of
        Inl (code, usage) \<Rightarrow> ExitWith code usage
      | Inr args \<Rightarrow>
          if serve_mode args \<and> has_query_argument args then ExitWith 1 False
          else if serve_mode args then ServeHttp (http_options args)
          else if argv = [] \<or> \<not> has_query_argument args then RunStdin (cli_config args)
          else RunQueries (cli_config args) (server_query_args argv))"

fun server_run_queries ::
  "'a db_mem_scheme \<Rightarrow> DBServer \<Rightarrow> (nat \<Rightarrow> 64 word) \<Rightarrow> string list \<Rightarrow> ('a db_mem_scheme \<times> DBServer \<times> string) option" where
  "server_run_queries m server clock [] = Some (m, server, [])"
| "server_run_queries m server clock (q # qs) = do {
     (m, server, out, should_continue) \<leftarrow> server_run_query m server clock q;
     if \<not> should_continue then Some (m, server, out)
     else do { (m, server, out') \<leftarrow> server_run_queries m server clock qs; Some (m, server, out @ out') }
   }"

section \<open>The interactive shell\<close>

definition cli_print_result :: "'a db_mem_scheme \<Rightarrow> SQLResult \<Rightarrow> string option" where
  "cli_print_result m result =
     (if status result = SQL_STATUS_OK then
        if action result = SQL_ACTION_INSERT then Some (''Inserted row with id = '' @ show_int (inserted_id result) @ nl)
        else if action result = SQL_ACTION_SELECT_ROWS then do {
          (out, n) \<leftarrow> table_print_records m (res_records result) (row_count result);
          Some (if n = 0 then out @ ''No rows'' @ nl else out)
        }
        else Some (''Done'' @ nl)
      else if status result = SQL_STATUS_NOT_FOUND then Some (''Not found'' @ nl)
      else if error_message result \<noteq> [] then Some (error_message result @ nl)
      else if status result = SQL_STATUS_SYNTAX_ERROR then Some (''Syntax error'' @ nl)
      else Some (''Execution error'' @ nl))"

definition cli_banner :: string where
  "cli_banner =
     ''Simple SQL Processor with B+ Tree Index'' @ nl @ ''Supported statements:'' @ nl @
     ''  INSERT INTO users VALUES ('' @ quoted ''Alice'' @ '', 20);'' @ nl @
     ''  SELECT * FROM users;'' @ nl @
     ''  SELECT * FROM users WHERE id = 1;'' @ nl @
     ''  SELECT * FROM users WHERE id >= 10;'' @ nl @
     ''  SELECT * FROM users WHERE name = '' @ quoted ''Alice'' @ '';'' @ nl @
     ''  SELECT * FROM users WHERE age = 20;'' @ nl @
     ''  SELECT * FROM users WHERE age > 20;'' @ nl @
     ''Type EXIT or QUIT to leave.'' @ nl"

function cli_loop ::
  "'a db_mem_scheme \<Rightarrow> Table option \<Rightarrow> string \<Rightarrow> ('a db_mem_scheme \<times> Table option \<times> string) option" where
  "cli_loop m table input =
     (if input = [] then Some (m, table, ''sql> '')
      else case fgets_line 255 input of (line, rest) \<Rightarrow>
        (case sql_execute m table (Some line) of
           None \<Rightarrow> None
         | Some (m, table, result) \<Rightarrow>
             if status result = SQL_STATUS_EXIT then Some (m, table, ''sql> '')
             else (case cli_print_result m result of
                     None \<Rightarrow> None
                   | Some out \<Rightarrow>
                       (case cli_loop m table rest of
                          None \<Rightarrow> None
                        | Some (m, table, out') \<Rightarrow> Some (m, table, ''sql> '' @ out @ out')))))"
  by pat_completeness auto
termination
  by (relation "measure (\<lambda>(m, t, input). length input)") (auto dest!: fgets_line_append [OF sym])

text \<open>The exit code and the text on standard output.\<close>

definition cli_main :: "'a db_mem_scheme \<Rightarrow> string \<Rightarrow> ('a db_mem_scheme \<times> int \<times> string) option" where
  "cli_main m input =
     (case table_create m of
        (m, None) \<Rightarrow> Some (m, 1, [])
      | (m, Some t) \<Rightarrow> do {
          (m, table, out) \<leftarrow> cli_loop m (Some t) input;
          m \<leftarrow> table_destroy m table;
          Some (m, 0, cli_banner @ out)
        })"

declare server_stdin_from.simps [simp del] cli_loop.simps [simp del]

section \<open>The shell ends\<close>

lemma print_result_from:
  assumes "result_rows m r rs" "\<forall>x \<in> set rs. row_ok x"
  shows "i \<le> length rs \<Longrightarrow> \<exists>out. table_print_from m (res_records r) (length rs) i = Some out"
proof (induction "length rs - i" arbitrary: i)
  case 0
  then show ?case by (subst table_print_from.simps) simp
next
  case (Suc d)
  then have i: "i < length rs" by simp
  obtain p where p: "tmp_get (res_records r) i = Some p" "recs m p = Some (rs ! i)"
    using result_record_nth(1) [OF assms(1) i] by (auto simp: result_record_def split: Option.bind_splits)
  have "row_ok (rs ! i)" using assms(2) i by simp
  then have "\<exists>out. table_print_record m p = Some out" using p(2) row_name by (simp add: table_print_record_def)
  moreover have "\<exists>out. table_print_from m (res_records r) (length rs) (Suc i) = Some out" using Suc i by auto
  ultimately show ?case using p(1) i by (subst table_print_from.simps) auto
qed

lemma outcome_printed:
  assumes "sql_outcome m t ps rs st m' t' r" "\<forall>x \<in> set rs. row_ok x"
  shows "\<exists>out. cli_print_result m' r = Some out"
proof (cases st)
  case (SelectStatement q)
  have rr: "result_rows m' r (filter (query_matches q) rs)" using assms(1) SelectStatement by (simp add: sql_outcome_def)
  then have rc: "row_count r = length (filter (query_matches q) rs)" by (auto simp: result_rows_def)
  obtain out where "table_print_from m' (res_records r) (row_count r) 0 = Some out"
    using print_result_from [OF rr, of 0] assms(2) rc by auto
  then show ?thesis by (auto simp: cli_print_result_def table_print_records_def)
qed (use assms(1) in \<open>auto simp: cli_print_result_def sql_outcome_def error_result_def\<close>)

lemma outcome_table:
  assumes "sql_outcome m t ps rs st m' t' r" "table_rep m t ps rs"
  shows "\<exists>ps' rs'. table_rep m' t' ps' rs' \<and> next_id t' \<le> next_id t + 1"
proof (cases "\<exists>name age. st = InsertStatement name age")
  case True
  then obtain name age where "st = InsertStatement name age" by blast
  then have "table_rep m' t' (ps @ [res_record r]) (rs @ [new_record (next_id t) name age])" "next_id t' \<le> next_id t + 1"
    using assms(1) by (simp_all add: sql_outcome_def)
  then show ?thesis by blast
next
  case False
  then have "t' = t" "quiet m m'" using outcome_reads [OF assms(1)] by blast+
  then show ?thesis using table_rep_quiet [OF assms(2)] by auto
qed

lemma cli_loop_ends:
  assumes "table_rep m t ps rs" "live_mem m" "next_id t + int (length input) \<le> INT_MAX"
  shows "\<exists>m' t' ps' rs' out. cli_loop m (Some t) input = Some (m', Some t', out) \<and> table_rep m' t' ps' rs'"
  using assms
proof (induction "length input" arbitrary: m t ps rs input rule: less_induct)
  case less
  show ?case
  proof (cases "input = []")
    case True
    then show ?thesis using less.prems(1) by (subst cli_loop.simps) auto
  next
    case False
    obtain line rest where f: "fgets_line 255 input = (line, rest)" by (cases "fgets_line 255 input")
    then have len: "length rest < length input" using fgets_line_append [OF f] False by auto
    have "next_id t < INT_MAX" using less.prems(3) False by (cases input) auto
    then obtain m1 t1 r where x: "sql_execute m (Some t) (Some line) = Some (m1, Some t1, r)" "live_mem m1"
      "sql_outcome m t ps rs (statement_of (cstr line)) m1 t1 r"
      using execute_outcome [OF less.prems(1,2)] by blast
    obtain ps1 rs1 where t1: "table_rep m1 t1 ps1 rs1" "next_id t1 \<le> next_id t + 1" using outcome_table [OF x(3) less.prems(1)] by blast
    obtain out where out: "cli_print_result m1 r = Some out"
      using outcome_printed [OF x(3)] rep_row_ok [OF less.prems(1)] by blast
    have "next_id t1 + int (length rest) \<le> INT_MAX" using t1(2) less.prems(3) len by simp
    then obtain m2 t2 ps2 rs2 out2 where l: "cli_loop m1 (Some t1) rest = Some (m2, Some t2, out2)" "table_rep m2 t2 ps2 rs2"
      using less.hyps [OF len t1(1) x(2)] by blast
    have "cli_loop m (Some t) input = (if status r = SQL_STATUS_EXIT then Some (m1, Some t1, ''sql> '')
        else Some (m2, Some t2, ''sql> '' @ out @ out2))"
      using False f x(1) out l(1) by (subst cli_loop.simps) simp
    then show ?thesis using t1(1) l(2) by (metis (no_types))
  qed
qed

section \<open>Properties\<close>

text \<open>
  Whatever is typed into the shell, it ends: with memory available and an input shorter than the range of
  identifiers, the program reads to the end of the input or to EXIT, with every statement and every printed row
  defined, and leaves with exit code 0 and everything it allocated for rows and tree released.
\<close>

theorem cli_main_ends:
  assumes "live_mem m" "nodes m = Map.empty" "recs m = Map.empty \<and> blocks m = {}" "int (length input) < INT_MAX"
  shows "\<exists>m' out. cli_main m input = Some (m', 0, cli_banner @ out) \<and> nodes m' = Map.empty \<and> recs m' = Map.empty \<and> blocks m' = {}"
proof -
  obtain m1 t where c: "table_create m = (m1, Some t)" "table_rep m1 t [] []" "live_mem m1" "next_id t = 1"
    using table_create_rep [OF assms(1-3)] by blast
  obtain m2 t2 ps2 rs2 out where l: "cli_loop m1 (Some t) input = Some (m2, Some t2, out)" "table_rep m2 t2 ps2 rs2"
    using cli_loop_ends [OF c(2,3), of input] c(4) assms(4) by auto
  show ?thesis using c(1) l(1) table_destroy_rep [OF l(2)] by (simp add: cli_main_def)
qed

theorem cli_main_ends_witness:
  "\<exists>m' out. cli_main db0 (''insert into users values ('' @ quoted ''kim'' @ '', 3)'' @ [CHR 0x0A] @ ''exit'') = Some (m', 0, cli_banner @ out) \<and>
     nodes m' = Map.empty \<and> recs m' = Map.empty \<and> blocks m' = {}"
  using cli_main_ends [OF db0_live, of "''insert into users values ('' @ quoted ''kim'' @ '', 3)'' @ [CHR 0x0A] @ ''exit''"]
  by (simp add: quoted_def)

text \<open>A negative number is accepted as an unsigned option and wraps, and a large one is cut to the width of its field.\<close>

lemma unsigned_option_wraps:
  "server_parse_unsigned ''-1'' = (- 1, True)"
  "server_main_mode [''--serve'', ''--lock-timeout-ms'', ''4294967296''] =
     ServeHttp (http_server_options_default\<lparr>opt_lock_timeout_ms := 0\<rparr>)"
  by code_simp+

end
