(* ===== verification/Session.thy ===== *)
theory Session
  imports HttpServer_Props DbServer_Conc
begin

text \<open>
  Whole sessions of the HTTP server. The rows of the table have the types that the C declarations give them, and every
  statement keeps them so; with that, a query is always answered, and the answers are functions of the rows and of
  the text of the query. The functions \<open>spec_rows\<close> and \<open>spec_answer\<close> are the abstract server, a list of rows; the requests that
  clients send one after the other to the server of \<^verbatim>\<open>src/server/http_server.c\<close> are answered as it answers them.
\<close>

section \<open>Types of the rows\<close>

lemma int_of_long_int_range: "int_range (int_of_long i)"
  by (simp add: int_of_long_def int_range_def)

lemma insert_age_range: "statement_of (cstr q) = InsertStatement name age \<Longrightarrow> int_range age"
  using int_of_long_int_range by (auto simp: statement_insert_iff)

definition rows_ok :: "Record list \<Rightarrow> bool" where
  "rows_ok rs \<longleftrightarrow> (\<forall>x \<in> set rs. printable_row x)"

text \<open>The well-formed store: the table in memory, its rows of the right types, numbered from one without a gap.\<close>

definition store :: "'a db_mem_scheme \<Rightarrow> Table \<Rightarrow> ptr list \<Rightarrow> Record list \<Rightarrow> bool" where
  "store m t ps rs \<longleftrightarrow> table_rep m t ps rs \<and> live_mem m \<and> rows_ok rs \<and> next_id t = int (length rs) + 1"

section \<open>The abstract server\<close>

text \<open>The result of a text that is no statement depends on the text alone.\<close>

definition bad_result :: "string \<Rightarrow> SQLResult" where
  "bad_result text =
     (let result = sql_make_result SQL_STATUS_SYNTAX_ERROR SQL_ACTION_NONE
      in case sql_match_exit (sql_skip_spaces text) of (ok, cursor) \<Rightarrow>
         if ok then sql_set_syntax_error result (snd (sql_match_statement_end cursor))
         else case sql_parse_insert text of
           Inr _ \<Rightarrow> result
         | Inl e \<Rightarrow>
             if e \<noteq> NotThisStatement then sql_report result e
             else case sql_parse_select text of
               Inr _ \<Rightarrow> result
             | Inl e' \<Rightarrow> if e' \<noteq> NotThisStatement then sql_report result e' else sql_set_syntax_error result cursor)"

definition spec_rows :: "Record list \<Rightarrow> string \<Rightarrow> Record list" where
  "spec_rows rs q =
     (case statement_of (cstr q) of
        InsertStatement name age \<Rightarrow> rs @ [new_record (int (length rs) + 1) name age]
      | _ \<Rightarrow> rs)"

definition spec_answer :: "Record list \<Rightarrow> string \<Rightarrow> APIResponse" where
  "spec_answer rs q =
     statement_answer (int (length rs) + 1) rs (db_server_guess_uses_index (Some q)) (statement_of (cstr q)) (bad_result (cstr q))"

definition reply_text :: "APIResponse \<Rightarrow> string" where
  "reply_text a = response_text (status_code a) json_content_type (the (resp_body a))"

fun spec_session :: "Record list \<Rightarrow> string list \<Rightarrow> string list" where
  "spec_session rs [] = []"
| "spec_session rs (q # qs) = reply_text (spec_answer rs q) # spec_session (spec_rows rs q) qs"

lemma execute_bad:
  assumes "statement_of (cstr q) = BadStatement"
  shows "sql_execute m (Some t) (Some q) = Some (m, Some t, bad_result (cstr q))"
proof (cases "sql_match_exit (sql_skip_spaces (cstr q))")
  case (Pair ok cursor)
  show ?thesis
  proof (cases ok)
    case True
    then show ?thesis using Pair assms
      by (auto simp: sql_execute_def bad_result_def statement_of_def Let_def split: prod.splits if_splits)
  next
    case False
    then have ne: "\<not> fst (sql_match_exit (sql_skip_spaces (cstr q)))" using Pair by simp
    obtain e where e: "sql_parse_insert (cstr q) = Inl e"
      using assms ne by (auto simp: statement_of_def split: sum.splits)
    show ?thesis
    proof (cases "e = NotThisStatement")
      case bad: False
      then show ?thesis using report_error [OF bad] Pair False e
        by (auto simp: sql_execute_def sql_execute_insert_def bad_result_def error_result_def Let_def)
    next
      case True
      then obtain e' where "sql_parse_select (cstr q) = Inl e'"
        using assms ne e by (auto simp: statement_of_def split: sum.splits)
      then show ?thesis using report_error [of e'] Pair False e True
        by (auto simp: sql_execute_def sql_execute_insert_def sql_execute_select_def bad_result_def error_result_def Let_def
            sql_report_def sql_make_result_def)
    qed
  qed
qed

lemma statement_answer_spec:
  "(statement_of (cstr q) = BadStatement \<Longrightarrow> r = bad_result (cstr q)) \<Longrightarrow>
   statement_answer (int (length rs) + 1) rs (db_server_guess_uses_index (Some q)) (statement_of (cstr q)) r = spec_answer rs q"
  by (cases "statement_of (cstr q)") (simp_all add: spec_answer_def statement_answer_def)

lemma new_record_printable:
  assumes "statement_of (cstr q) = InsertStatement name age" "int (length rs) + 1 \<le> INT_MAX" "row_ok (new_record (int (length rs) + 1) name age)"
  shows "printable_row (new_record (int (length rs) + 1) name age)"
  using assms insert_age_range [OF assms(1)] by (simp add: printable_row_def int_range_def new_record_def)

text \<open>A statement on a well-formed store: it is executed, its outcome is the abstract one, and the store stays well formed.\<close>

lemma outcome_store:
  assumes "store m t ps rs" "sql_outcome m t ps rs (statement_of (cstr q)) m' t' r" "live_mem m'"
  shows "\<exists>ps'. store m' t' ps' (spec_rows rs q)"
proof (cases "\<exists>name age. statement_of (cstr q) = InsertStatement name age")
  case True
  then obtain name age where st: "statement_of (cstr q) = InsertStatement name age" by blast
  let ?x = "new_record (int (length rs) + 1) name age"
  have n: "next_id t = int (length rs) + 1" "rows_ok rs" using assms(1) by (simp_all add: store_def)
  have rep: "table_rep m' t' (ps @ [res_record r]) (rs @ [?x])" "next_id t' = next_id t + 1"
    using assms(2) st n(1) by (simp_all add: sql_outcome_def)
  have "row_ok ?x" "next_id t \<le> INT_MAX" using rep(1) assms(1) by (auto simp: table_rep_def store_def)
  then have "printable_row ?x" using n(1) by (intro new_record_printable [OF st]) auto
  then show ?thesis using rep assms(3) n st by (auto simp: store_def spec_rows_def rows_ok_def)
next
  case False
  then have "t' = t" "quiet m m'" using outcome_reads [OF assms(2)] by blast+
  moreover have "spec_rows rs q = rs" using False by (auto simp: spec_rows_def split: sql_statement.splits)
  ultimately have "store m' t' ps (spec_rows rs q)" using assms(1,3) table_rep_quiet [of m t ps rs m'] by (simp add: store_def)
  then show ?thesis by blast
qed

lemma store_execute:
  assumes "store m t ps rs" "int (length rs) + 1 < INT_MAX"
  shows "\<exists>m' t' r ps'. sql_execute m (Some t) (Some q) = Some (m', Some t', r) \<and> store m' t' ps' (spec_rows rs q) \<and>
    sql_outcome m t ps rs (statement_of (cstr q)) m' t' r \<and> (statement_of (cstr q) = BadStatement \<longrightarrow> r = bad_result (cstr q))"
proof -
  have s: "table_rep m t ps rs" "live_mem m" "next_id t < INT_MAX" using assms by (simp_all add: store_def)
  obtain m' t' r where x: "sql_execute m (Some t) (Some q) = Some (m', Some t', r)" "live_mem m'"
    "sql_outcome m t ps rs (statement_of (cstr q)) m' t' r"
    using execute_outcome [OF s(1,2)] s(3) by blast
  moreover have "r = bad_result (cstr q)" if "statement_of (cstr q) = BadStatement" using execute_bad [OF that, of m t] x(1) by simp
  ultimately show ?thesis using outcome_store [OF assms(1) x(3,2)] by blast
qed

lemma spec_rows_length: "length (spec_rows rs q) \<le> Suc (length rs)"
  by (simp add: spec_rows_def split: sql_statement.splits)

section \<open>From the socket to the table\<close>

text \<open>Identifiers are distinct integers, so a table has at most as many rows, and every answer has a size that can be printed.\<close>

lemma rep_length: "table_rep m t ps rs \<Longrightarrow> int (length rs) < next_id t \<and> next_id t \<le> INT_MAX \<and> 1 \<le> next_id t"
proof -
  assume r: "table_rep m t ps rs"
  then have ids: "sorted_wrt (<) (map rec_id rs)" "rec_id ` set rs \<subseteq> {1 ..< next_id t}" "1 \<le> next_id t" "next_id t \<le> INT_MAX"
    by (auto simp: table_rep_def)
  then have "distinct (map rec_id rs)" using strict_sorted_iff by blast
  then have "length rs = card (rec_id ` set rs)" by (metis distinct_card length_map list.set_map)
  also have "\<dots> \<le> card {1 ..< next_id t}" using ids(2) by (intro card_mono) auto
  finally show ?thesis using ids(3,4) by simp
qed

lemma row_room_bound: "printable_row x \<Longrightarrow> row_room x \<le> 500"
proof -
  assume "printable_row x"
  then have "length (rec_name x) = 64" by (simp add: printable_row_def row_ok_def)
  then have "length (cstr (rec_name x)) \<le> 64" using length_takeWhile_le [of "\<lambda>c. c \<noteq> NUL" "rec_name x"] by (simp add: cstr_def)
  then show ?thesis by (simp add: row_room_def)
qed

lemma select_text_length:
  assumes "\<forall>x \<in> set rs. printable_row x" "length rs < 10 ^ 10"
  shows "length (select_text u rs) < 10 ^ 20"
proof -
  have "sum_list (map row_room rs) \<le> 500 * length rs"
    using assms(1) row_room_bound by (induction rs) fastforce+
  then have "length (comma_sep (map row_of rs)) \<le> 500 * length rs" using rows_text_length [OF assms(1)] by simp
  moreover have "length (select_head (length rs) u) \<le> 110" using assms(2) by (intro select_head_length) simp
  ultimately show ?thesis using assms(2) by (simp add: select_text_def)
qed

lemma store_quiet: "store m t ps rs \<Longrightarrow> quiet m m' \<Longrightarrow> store m' t ps rs"
  unfolding store_def using table_rep_quiet quiet_simps(2) by blast

lemma store_length: "store m t ps rs \<Longrightarrow> int (length rs) < INT_MAX \<and> length rs < 10 ^ 10 \<and> int_range (next_id t)"
  using rep_length [of m t ps rs] by (auto simp: store_def int_range_def)

text \<open>
  What a result tells about its query on the rows \<open>rs\<close>, read through the memory \<open>m\<close>. It stays true while records are only added.
\<close>

definition answers :: "'a db_mem_scheme \<Rightarrow> SQLResult \<Rightarrow> Record list \<Rightarrow> string \<Rightarrow> bool" where
  "answers m r rs q \<longleftrightarrow>
     (case statement_of (cstr q) of
        InsertStatement name age \<Rightarrow> status r = SQL_STATUS_OK \<and> action r = SQL_ACTION_INSERT \<and> inserted_id r = int (length rs) + 1
      | SelectStatement sel \<Rightarrow> action r = SQL_ACTION_SELECT_ROWS \<and> result_rows m r (filter (query_matches sel) rs) \<and>
          status r = (if sel \<noteq> SelectAll \<and> filter (query_matches sel) rs = [] then SQL_STATUS_NOT_FOUND else SQL_STATUS_OK)
      | ExitStatement \<Rightarrow> status r = SQL_STATUS_EXIT
      | BadStatement \<Rightarrow> error_result r \<and> r = bad_result (cstr q))"

lemma outcome_answers:
  assumes "store m t ps rs" "sql_outcome m t ps rs (statement_of (cstr q)) m1 t' r"
    "statement_of (cstr q) = BadStatement \<longrightarrow> r = bad_result (cstr q)"
  shows "answers m1 r rs q"
  using assms by (auto simp: answers_def sql_outcome_def store_def split: sql_statement.splits)

lemma answers_le: "answers m r rs q \<Longrightarrow> recs m \<subseteq>\<^sub>m recs m' \<Longrightarrow> answers m' r rs q"
  by (auto simp: answers_def split: sql_statement.splits intro: result_rows_le)

lemma error_body_length: "length msg \<le> 255 \<Longrightarrow> length ty \<le> 12 \<Longrightarrow> length (error_text ty (escape msg)) < 10 ^ 20"
  using escape_length [of msg] unfolding error_text_length by simp

lemma answer_shape:
  assumes "answers m r rs q" "rows_ok rs" "int (length rs) + 1 \<le> INT_MAX"
  obtains code body where "spec_answer rs q = answer code body" "int_range code" "length body < 10 ^ 20"
proof (cases "statement_of (cstr q)")
  case (InsertStatement name age)
  then show ?thesis using that [of 200 "insert_text (int (length rs) + 1)"] insert_text_length [of "int (length rs) + 1"] assms(3)
    by (simp add: spec_answer_def statement_answer_def int_range_def)
next
  case (SelectStatement sel)
  have "length rs < 10 ^ 10" using assms(3) by simp
  then have "length (filter (query_matches sel) rs) < 10 ^ 10" by (rule le_less_trans [OF length_filter_le])
  then have "length (select_text u (filter (query_matches sel) rs)) < 10 ^ 20" for u
    using assms(2) by (intro select_text_length) (auto simp: rows_ok_def)
  then show ?thesis using that [of 200 "select_text _ (filter (query_matches sel) rs)"] SelectStatement
    by (simp add: spec_answer_def statement_answer_def int_range_def)
next
  case ExitStatement
  have "length (error_text ''query_error'' (escape ''EXIT and QUIT are only supported in CLI mode'')) < 10 ^ 20"
    by (rule error_body_length) simp_all
  then show ?thesis using that [of 400] ExitStatement by (simp add: spec_answer_def statement_answer_def int_range_def)
next
  case BadStatement
  let ?b = "bad_result (cstr q)"
  have "length (error_message ?b) < 256" using assms(1) BadStatement by (auto simp: answers_def error_result_def)
  then have l: "length (cstr (error_message ?b)) \<le> 255"
    using length_takeWhile_le [of "\<lambda>c. c \<noteq> NUL" "error_message ?b"] by (simp add: cstr_def)
  have "length (error_text (if status ?b = SQL_STATUS_SYNTAX_ERROR then ''syntax_error'' else ''query_error'')
      (escape (cstr (error_message ?b)))) < 10 ^ 20"
    by (rule error_body_length [OF l]) simp
  then show ?thesis using that [of 400] BadStatement by (simp add: spec_answer_def statement_answer_def int_range_def)
qed

text \<open>The response that is built from such a result is the abstract answer, and it can be rendered.\<close>

lemma answers_response:
  assumes "answers m (ex_result ex) rs q" "live_mem m" "rows_ok rs" "int (length rs) + 1 \<le> INT_MAX"
    "server_status ex = DB_SERVER_EXEC_STATUS_OK" "used_index ex = db_server_guess_uses_index (Some q)"
  shows "\<exists>m'. api_build_execution_response m ex zero_response = Some (m', spec_answer rs q, True) \<and> quiet m m' \<and> live_mem m'"
proof (cases "\<exists>name age. statement_of (cstr q) = InsertStatement name age")
  case True
  then show ?thesis using assms(1,5) insert_response [OF assms(2), of "int (length rs) + 1"] assms(4)
    by (auto simp: api_build_execution_response_def answers_def spec_answer_def statement_answer_def int_range_def Let_def)
next
  case False
  define t where "t = (undefined :: Table)\<lparr>next_id := int (length rs) + 1\<rparr>"
  have t: "next_id t = int (length rs) + 1" by (simp add: t_def)
  have "sql_outcome m t [] rs (statement_of (cstr q)) m t (ex_result ex)"
    using assms(1) False by (auto simp: answers_def sql_outcome_def split: sql_statement.splits)
  from execution_response [OF this assms(5,2)] assms(3,4) t
  obtain m' where "api_build_execution_response m ex zero_response = Some (m', statement_answer (int (length rs) + 1) rs (used_index ex)
      (statement_of (cstr q)) (ex_result ex), True)" "quiet m m'" "live_mem m'"
    by (auto simp: rows_ok_def int_range_def)
  moreover have "statement_of (cstr q) = BadStatement \<Longrightarrow> ex_result ex = bad_result (cstr q)" using assms(1) by (simp add: answers_def)
  ultimately show ?thesis using statement_answer_spec [of q "ex_result ex" rs] assms(6) by auto
qed

lemma spec_answer_rendered:
  assumes "answers m0 r rs q" "live_mem m" "rows_ok rs" "int (length rs) + 1 \<le> INT_MAX"
  shows "\<exists>m'. api_render_http_response m (spec_answer rs q) = (m', Some (reply_text (spec_answer rs q))) \<and> quiet m m' \<and> live_mem m'"
proof -
  obtain code body where a: "spec_answer rs q = answer code body" "int_range code" "length body < 10 ^ 20"
    using answer_shape [OF assms(1,3,4)] by blast
  show ?thesis using render_response [OF assms(2), of "spec_answer rs q" body] a by (auto simp: reply_text_def answer_def)
qed

lemma query_answered:
  assumes "srv_table server = Some t" "store m t ps rs" "int (length rs) + 1 < INT_MAX" "rwlock_held (db_lock server) 0 0"
  shows "\<exists>m1 m' server' t' ps' r. http_server_handle_query m server context clock q =
      Some (m', server', http_server_note_response_complete context, Some (reply_text (spec_answer rs q))) \<and>
    srv_table server' = Some t' \<and> rwlock_held (db_lock server') 0 0 \<and> store m' t' ps' (spec_rows rs q) \<and>
    sql_outcome m t ps rs (statement_of (cstr q)) m1 t' r \<and> quiet m1 m'"
proof -
  obtain m1 t' r ps' where x: "sql_execute m (Some t) (Some q) = Some (m1, Some t', r)" "store m1 t' ps' (spec_rows rs q)"
    "sql_outcome m t ps rs (statement_of (cstr q)) m1 t' r" "statement_of (cstr q) = BadStatement \<longrightarrow> r = bad_result (cstr q)"
    using store_execute [OF assms(2,3)] by blast
  have st: "table_rep m t ps rs" "\<forall>x \<in> set rs. printable_row x" "next_id t = int (length rs) + 1" "live_mem m1"
    using assms(2) x(2) by (simp_all add: store_def rows_ok_def)
  have ok: "rows_ok rs" "int (length rs) + 1 \<le> INT_MAX" using assms(2,3) by (simp_all add: store_def)
  have an: "answers m1 r rs q" by (rule outcome_answers [OF assms(2) x(3,4)])
  let ?ex = "(db_server_begin q)\<lparr>ex_result := r, server_status := DB_SERVER_EXEC_STATUS_OK, message := snprintf 128 ''OK''\<rparr>"
  obtain server' where s: "db_server_execute m server (Some q) clock = Some (m1, server', Some ?ex)" "srv_table server' = Some t'"
    "rwlock_held (db_lock server') 0 0"
    using execute_free [OF assms(1,4) x(1), of clock] by blast
  have ui: "used_index ?ex = db_server_guess_uses_index (Some q)" "ex_result ?ex = r" "server_status ?ex = DB_SERVER_EXEC_STATUS_OK"
    by (simp_all add: db_server_begin_def)
  obtain m2 where m2: "api_build_execution_response m1 ?ex zero_response = Some (m2, spec_answer rs q, True)" "quiet m1 m2" "live_mem m2"
    using answers_response [of m1 ?ex rs q] an st(4) ok ui by auto
  obtain m3 where m3: "api_render_http_response m2 (spec_answer rs q) = (m3, Some (reply_text (spec_answer rs q)))" "quiet m2 m3" "live_mem m3"
    using spec_answer_rendered [OF an m2(3) ok] by blast
  have "http_server_handle_query m server context clock q =
      Some (m3, server', http_server_note_response_complete context, Some (reply_text (spec_answer rs q)))"
    using s(1) m2(1) m3(1)
    by (simp add: http_server_handle_query_def http_server_send_and_count_def http_server_send_response_def)
  moreover have "quiet m1 m3" by (rule quiet_trans [OF m2(2) m3(2)])
  ultimately show ?thesis using s(2,3) x(2,3) store_quiet [OF x(2)] by blast
qed

section \<open>Sessions\<close>

text \<open>The connections of clients, handled one after the other; the list of what was sent back.\<close>

fun http_serve_all ::
  "'a db_mem_scheme \<Rightarrow> DBServer \<Rightarrow> HTTPServerContext \<Rightarrow> (nat \<Rightarrow> 64 word) \<Rightarrow> recv_event list list \<Rightarrow>
   ('a db_mem_scheme \<times> DBServer \<times> HTTPServerContext \<times> string option list) option" where
  "http_serve_all m server context clock [] = Some (m, server, context, [])"
| "http_serve_all m server context clock (events # conns) = do {
     (m, server, context, out) \<leftarrow> http_server_handle_client m server context clock events;
     (m, server, context, outs) \<leftarrow> http_serve_all m server context clock conns;
     Some (m, server, context, out # outs)
   }"

text \<open>A client that asks the query \<open>q\<close>: a request with any further headers, in any pieces.\<close>

definition asks :: "recv_event list \<Rightarrow> string \<Rightarrow> bool" where
  "asks events q \<longleftrightarrow> json_plain q \<and> length q < 1024 \<and>
     (\<exists>hs ks pieces later. events = map Data pieces @ later \<and> (\<forall>l \<in> set (hs @ ks). other_header l) \<and>
        length (query_request hs ks q) < HTTP_SERVER_REQUEST_BUFFER_SIZE \<and> concat pieces = query_request hs ks q \<and> [] \<notin> set pieces)"

lemma asks_handled:
  assumes "asks events q"
  shows "http_server_handle_client m server context clock events = http_server_handle_query m server context clock q"
proof -
  obtain hs ks pieces later where h: "events = map Data pieces @ later" "\<forall>l \<in> set (hs @ ks). other_header l" "json_plain q" "length q < 1024"
    "length (query_request hs ks q) < HTTP_SERVER_REQUEST_BUFFER_SIZE" "concat pieces = query_request hs ks q" "[] \<notin> set pieces"
    using assms unfolding asks_def by blast
  then have "\<forall>c \<in> set pieces. c \<noteq> []" by metis
  then show ?thesis unfolding h(1) by (intro handle_query_request [OF h(2-6)])
qed

lemma serve_all_spec:
  assumes "srv_table server = Some t" "store m t ps rs" "rwlock_held (db_lock server) 0 0" "list_all2 asks conns qs"
    "int (length rs) + int (length qs) < INT_MAX"
  shows "\<exists>m' server' t' ps'. http_serve_all m server context clock conns =
      Some (m', server', (http_server_note_response_complete ^^ length qs) context, map Some (spec_session rs qs)) \<and>
    srv_table server' = Some t' \<and> store m' t' ps' (foldl spec_rows rs qs) \<and> rwlock_held (db_lock server') 0 0"
  using assms(4,1-3,5)
proof (induction conns qs arbitrary: m server "context" t ps rs rule: list_all2_induct)
  case Nil
  then show ?case by auto
next
  case (Cons events conns q qs)
  obtain m1 server1 t1 ps1 where h: "http_server_handle_query m server context clock q =
      Some (m1, server1, http_server_note_response_complete context, Some (reply_text (spec_answer rs q)))"
    "srv_table server1 = Some t1" "rwlock_held (db_lock server1) 0 0" "store m1 t1 ps1 (spec_rows rs q)"
    using query_answered [OF Cons.prems(1,2) _ Cons.prems(3)] Cons.prems(4) by fastforce
  have "int (length (spec_rows rs q)) + int (length qs) < INT_MAX" using Cons.prems(4) spec_rows_length [of rs q] by simp
  from Cons.IH [OF h(2,4,3) this, of "http_server_note_response_complete context"]
  show ?case using h(1) by (auto simp: funpow_swap1 asks_handled [OF Cons.hyps(1)])
qed

lemma init_store:
  assumes "live_mem m" "nodes m = Map.empty" "recs m = Map.empty \<and> blocks m = {}" "db_server_init_with_config m cfg True True = (m0, Some server)"
  shows "\<exists>t. srv_table server = Some t \<and> store m0 t [] [] \<and> rwlock_held (db_lock server) 0 0"
proof -
  obtain m1 t where "table_create m = (m1, Some t)" "table_rep m1 t [] []" "live_mem m1" "next_id t = 1"
    using table_create_rep [OF assms(1-3)] by blast
  then show ?thesis using assms(4) by (auto simp: db_server_init_with_config_def store_def rows_ok_def Let_def)
qed

section \<open>Properties\<close>


definition find_query :: string where
  "find_query = ''select * from users where id = 1''"

lemma asks_one:
  assumes "\<forall>l \<in> set hs. other_header l" "json_plain q" "length q < 1024" "length (query_request hs [] q) < 8192"
  shows "asks [Data (query_request hs [] q)] q"
proof -
  have "query_request hs [] q \<noteq> []" by (simp add: query_request_def request_lines_def)
  then show ?thesis unfolding asks_def using assms
    by (intro conjI exI [of _ hs] exI [of _ "[]"] exI [of _ "[query_request hs [] q]"]) auto
qed

lemma find_asks: "asks [Data (query_request [''Host: localhost''] [] find_query)] find_query"
  by (rule asks_one) code_simp+

lemma insert_asks: "asks [Data (query_request [] [] insert_query)] insert_query"
  by (rule asks_one) code_simp+

lemma query_statements:
  "statement_of (cstr insert_query) = InsertStatement ''kim'' 20"
  "statement_of (cstr find_query) = SelectStatement (SelectById TABLE_COMPARISON_EQ 1)" "db_server_guess_uses_index (Some find_query)"
  by code_simp+

lemma two_queries:
  "foldl spec_rows [] [insert_query, find_query] = [new_record 1 ''kim'' 20]"
  "spec_session [] [insert_query, find_query] =
     [response_text 200 json_content_type (insert_text 1), response_text 200 json_content_type (select_text True [new_record 1 ''kim'' 20])]"
proof -
  have "query_matches (SelectById TABLE_COMPARISON_EQ 1) (new_record 1 ''kim'' 20)" by (simp add: table_compare_int_def new_record_def)
  then show "foldl spec_rows [] [insert_query, find_query] = [new_record 1 ''kim'' 20]"
    "spec_session [] [insert_query, find_query] =
     [response_text 200 json_content_type (insert_text 1), response_text 200 json_content_type (select_text True [new_record 1 ''kim'' 20])]"
    by (simp_all only: spec_session.simps foldl.simps spec_rows_def spec_answer_def query_statements statement_answer_def reply_text_def
        answer_def sql_statement.case APIResponse.simps option.sel filter.simps if_True simp_thms list.size int_ops(1) add_0 append_Nil)
qed


text \<open>
  C17. The rows have the types of their declarations, and a statement cannot go wrong on them: on a table whose rows have a 32-bit
  identifier and age and a terminated name in its 64 bytes, every text is executed without undefined behaviour as long as an identifier is left, and the
  rows of the resulting table are of these types again, whatever number the text contained.
\<close>

theorem sql_execute_type_sound:
  assumes "table_rep m t ps rs" "live_mem m" "\<forall>x \<in> set rs. printable_row x" "next_id t < INT_MAX"
  shows "\<exists>m' t' r ps' rs'. sql_execute m (Some t) (Some q) = Some (m', Some t', r) \<and> table_rep m' t' ps' rs' \<and>
    (\<forall>x \<in> set rs'. printable_row x)"
proof -
  obtain m' t' r where x: "sql_execute m (Some t) (Some q) = Some (m', Some t', r)" "sql_outcome m t ps rs (statement_of (cstr q)) m' t' r"
    using execute_outcome [OF assms(1,2)] assms(4) by blast
  show ?thesis
  proof (cases "\<exists>name age. statement_of (cstr q) = InsertStatement name age")
    case True
    then obtain name age where st: "statement_of (cstr q) = InsertStatement name age" by blast
    then have rep: "table_rep m' t' (ps @ [res_record r]) (rs @ [new_record (next_id t) name age])" using x(2) by (simp add: sql_outcome_def)
    then have "row_ok (new_record (next_id t) name age)" "1 \<le> next_id t" using assms(1) by (simp_all add: table_rep_def)
    then have "printable_row (new_record (next_id t) name age)"
      using insert_age_range [OF st] assms(4) by (simp add: printable_row_def int_range_def new_record_def)
    then have "\<forall>x \<in> set (rs @ [new_record (next_id t) name age]). printable_row x" using assms(3) by simp
    then show ?thesis using x(1) rep by blast
  next
    case False
    then have "t' = t" "quiet m m'" using outcome_reads [OF x(2)] by blast+
    then show ?thesis using x(1) table_rep_quiet [OF assms(1)] assms(3) by blast
  qed
qed

theorem sql_execute_type_sound_witness:
  "\<exists>m' t' r ps' rs'. sql_execute db1_mem (Some db1_table) (Some (''insert into users values ('' @ quoted ''lee'' @ '', 99999999999)'')) = Some (m', Some t', r) \<and>
     table_rep m' t' ps' rs' \<and> (\<forall>x \<in> set rs'. printable_row x)"
proof -
  have "\<forall>x \<in> set [new_record 1 ''kim'' 20]. printable_row x" by (simp add: printable_row_def int_range_def) (simp add: new_record_def)
  moreover have "next_id db1_table < INT_MAX" by (simp add: db1_table_def)
  ultimately show ?thesis using sql_execute_type_sound [OF db1_rep] by blast
qed

end
