(* ===== verification/ServerSystem.thy ===== *)
theory ServerSystem
  imports Session WorkerPool
begin

text \<open>
  The whole HTTP server under any interleaving. A system state has the worker pool of \<^verbatim>\<open>src/server/http_server.c\<close> and the
  database server of \<^verbatim>\<open>src/server/db_server.c\<close>; every worker that has a client takes it through the actions of
  \<^verbatim>\<open>http_server_handle_client\<close>, one at a time: it reads and parses the request, dispatches it, goes through the phases of
  \<^verbatim>\<open>db_server_execute\<close> when it is a query, and builds and sends the response. Between any two actions the other threads act. The pool
  and the database make steps of their own relations, so what is proved of each of them holds in the system. The
  list of the statements in the order they ran, the position of a worker's statement in it and the list of what was sent are history;
  with them it is shown that the server is linearizable: every query is answered as if the statements had run one after the other in that order.
\<close>

section \<open>Parts of the handler\<close>

text \<open>What a worker has in hand for its client.\<close>

datatype job =
    Unread
  | Routed APIRequest
  | Rejected int string string
  | Recorded
  | Reporting "DBServerMetrics option"
  | Querying string

definition read_job :: "recv_event list \<Rightarrow> job option" where
  "read_job events =
     (case http_server_read_request events HTTP_SERVER_REQUEST_BUFFER_SIZE of
        Inl msg \<Rightarrow> Some (Rejected 400 ''malformed_http'' msg)
      | Inr buffer \<Rightarrow> do {
          parsed \<leftarrow> api_parse_http_request (Some (buffer @ [NUL])) HTTP_SERVER_REQUEST_BUFFER_SIZE;
          case parsed of
            Inl msg \<Rightarrow> Some (Rejected 400 ''malformed_http'' msg)
          | Inr request \<Rightarrow> Some (Routed request)
        })"

definition is_health :: "APIRequest \<Rightarrow> bool" where
  "is_health request \<longleftrightarrow> req_method request = API_METHOD_GET \<and> req_path request = ''/health''"

definition is_metrics :: "APIRequest \<Rightarrow> bool" where
  "is_metrics request \<longleftrightarrow> req_method request = API_METHOD_GET \<and> req_path request = ''/metrics''"

definition is_query :: "APIRequest \<Rightarrow> bool" where
  "is_query request \<longleftrightarrow> req_method request = API_METHOD_POST \<and> req_path request = ''/query''"

definition route_error :: "APIRequest \<Rightarrow> job" where
  "route_error request =
     (if (req_path request = ''/health'' \<or> req_path request = ''/metrics'') \<and> req_method request \<noteq> API_METHOD_GET then
        Rejected 405 ''method_not_allowed'' ''This endpoint only supports GET''
      else if req_path request = ''/query'' \<and> req_method request \<noteq> API_METHOD_POST then
        Rejected 405 ''method_not_allowed'' ''This endpoint only supports POST''
      else if req_method request = API_METHOD_UNKNOWN then
        Rejected 405 ''method_not_allowed'' ''Unsupported HTTP method''
      else Rejected 404 ''not_found'' ''Unknown endpoint'')"

definition send_built :: "'a db_mem_scheme \<times> APIResponse \<times> bool \<Rightarrow> 'a db_mem_scheme \<times> string option" where
  "send_built built = (case built of (m, response, ok) \<Rightarrow> if ok then http_server_send_response m response else (m, None))"

definition error_reply :: "'a db_mem_scheme \<Rightarrow> int \<Rightarrow> string \<Rightarrow> string \<Rightarrow> ('a db_mem_scheme \<times> string option) option" where
  "error_reply m code error_type msg = map_option send_built (api_build_error_response m zero_response code error_type msg)"

definition query_reply :: "'a db_mem_scheme \<Rightarrow> DBServerExecution \<Rightarrow> ('a db_mem_scheme \<times> string option) option" where
  "query_reply m execution = do {
     (m, response, ok) \<leftarrow> api_build_execution_response m execution zero_response;
     if \<not> ok then error_reply m 500 ''internal_error'' ''Failed to serialize query result''
     else Some (send_built (m, response, ok))
   }"

text \<open>They are the parts of the sequential handler.\<close>

lemma send_error_parts:
  "http_server_send_error_and_count m server context code ty msg =
   map_option (\<lambda>(m, out). (m, server, http_server_note_response_complete context, out)) (error_reply m code ty msg)"
  by (cases "api_build_error_response m zero_response code ty msg")
    (auto simp: http_server_send_error_and_count_def error_reply_def send_built_def split: prod.splits)

lemma send_parts:
  "http_server_send_and_count built server context =
   (case send_built built of (m, out) \<Rightarrow> (m, server, http_server_note_response_complete context, out))"
  by (simp add: http_server_send_and_count_def send_built_def split: prod.splits)

section \<open>The system\<close>

text \<open>
  The history of replies: for a query that ran, the client, the query, the number of statements that had run when the request was read, the
  position of its statement, and the reply; for a query that waited too long, the client, the query and the reply; for the others the client, what is
  reported or the error with its code, type and message, and the reply. A reply is the text handed to the socket, or nothing.
\<close>

datatype sent_reply =
    QueryReply int string nat nat "string option"
  | TimeoutReply int string "string option"
  | HealthReply int "string option"
  | MetricsReply int DBServerMetrics "string option"
  | ErrorReply int int string string "string option"

fun reply_client :: "sent_reply \<Rightarrow> int" where
  "reply_client (QueryReply c q b k out) = c"
| "reply_client (TimeoutReply c q out) = c"
| "reply_client (HealthReply c out) = c"
| "reply_client (MetricsReply c mt out) = c"
| "reply_client (ErrorReply c code ty msg out) = c"

fun reply_out :: "sent_reply \<Rightarrow> string option" where
  "reply_out (QueryReply c q b k out) = out"
| "reply_out (TimeoutReply c q out) = out"
| "reply_out (HealthReply c out) = out"
| "reply_out (MetricsReply c mt out) = out"
| "reply_out (ErrorReply c code ty msg out) = out"

text \<open>The text that a reply has to have, given the order in which the statements ran.\<close>

definition health_text :: string where
  "health_text = ''{'' @ jq ''ok'' @ '':true,'' @ jq ''status'' @ '':'' @ jq ''healthy'' @ ''}''"

fun reply_due :: "string list \<Rightarrow> sent_reply \<Rightarrow> string" where
  "reply_due qs (QueryReply c q b k out) = reply_text (spec_answer (foldl spec_rows [] (take k qs)) q)"
| "reply_due qs (TimeoutReply c q out) =
     response_text 503 json_content_type (error_text ''lock_timeout'' ''Lock wait timeout exceeded'')"
| "reply_due qs (HealthReply c out) = response_text 200 json_content_type health_text"
| "reply_due qs (MetricsReply c mt out) = response_text 200 json_content_type (metrics_text mt)"
| "reply_due qs (ErrorReply c code ty msg out) = response_text code json_content_type (error_text ty (escape (cstr msg)))"

record http_system =
  pool :: server_pool
  conc :: db_conc
  job_of :: "nat \<Rightarrow> job"
  ran :: "string list"
  begun :: "nat \<Rightarrow> nat"
  pos :: "nat \<Rightarrow> nat"
  sent :: "sent_reply list"

abbreviation srv_of :: "http_system \<Rightarrow> DBServer" where "srv_of s \<equiv> csrv (conc s)"
abbreviation mem_of :: "http_system \<Rightarrow> db_mem" where "mem_of s \<equiv> cmem (conc s)"

text \<open>The end of handling: the response is counted, the socket closed, and the worker takes the next client.\<close>

definition served :: "server_pool \<Rightarrow> nat \<Rightarrow> int \<Rightarrow> server_pool" where
  "served p i c = (http_server_note_response_complete p)\<lparr>workers := (workers p)(i := Popping), closed := closed p @ [c]\<rparr>"

definition reply_to :: "http_system \<Rightarrow> nat \<Rightarrow> int \<Rightarrow> db_mem \<Rightarrow> sent_reply \<Rightarrow> http_system" where
  "reply_to s i c m e = s\<lparr>pool := served (pool s) i c, conc := (conc s)\<lparr>cmem := m\<rparr>, job_of := (job_of s)(i := Unread), sent := sent s @ [e]\<rparr>"

inductive handler_step :: "nat \<Rightarrow> http_system \<Rightarrow> http_system \<Rightarrow> bool" for n where
  read: "\<lbrakk>i < n; workers (pool s) i = Handling c; job_of s i = Unread; read_job events = Some j\<rbrakk> \<Longrightarrow>
    handler_step n s (s\<lparr>job_of := (job_of s)(i := j), begun := (begun s)(i := length (ran s))\<rparr>)"
| health: "\<lbrakk>i < n; job_of s i = Routed request; is_health request\<rbrakk> \<Longrightarrow>
    handler_step n s (s\<lparr>job_of := (job_of s)(i := Reporting None),
      conc := (conc s)\<lparr>csrv := db_server_record_health_request (srv_of s)\<rparr>\<rparr>)"
| metrics: "\<lbrakk>i < n; job_of s i = Routed request; is_metrics request\<rbrakk> \<Longrightarrow>
    handler_step n s (s\<lparr>job_of := (job_of s)(i := Recorded),
      conc := (conc s)\<lparr>csrv := db_server_record_metrics_request (srv_of s)\<rparr>\<rparr>)"
| snapshot: "\<lbrakk>i < n; job_of s i = Recorded\<rbrakk> \<Longrightarrow>
    handler_step n s (s\<lparr>job_of := (job_of s)(i := Reporting (Some (db_server_get_metrics (srv_of s))))\<rparr>)"
| query: "\<lbrakk>i < n; job_of s i = Routed request; is_query request; q = req_query request\<rbrakk> \<Longrightarrow>
    handler_step n s (s\<lparr>job_of := (job_of s)(i := Querying q),
      conc := step_to (conc s) i (mem_of s) (db_server_metrics_query_started (srv_of s) (kind_of q)) (Waiting q now)\<rparr>)"
| reject: "\<lbrakk>i < n; job_of s i = Routed request; \<not> is_health request; \<not> is_metrics request; \<not> is_query request\<rbrakk> \<Longrightarrow>
    handler_step n s (s\<lparr>job_of := (job_of s)(i := route_error request)\<rparr>)"
| reply_error: "\<lbrakk>i < n; workers (pool s) i = Handling c; job_of s i = Rejected code ty msg;
     error_reply (mem_of s) code ty msg = Some (m, out)\<rbrakk> \<Longrightarrow>
    handler_step n s (reply_to s i c m (ErrorReply c code ty msg out))"
| reply_health: "\<lbrakk>i < n; workers (pool s) i = Handling c; job_of s i = Reporting None;
     send_built (api_build_health_response (mem_of s) zero_response) = (m, out)\<rbrakk> \<Longrightarrow>
    handler_step n s (reply_to s i c m (HealthReply c out))"
| reply_metrics: "\<lbrakk>i < n; workers (pool s) i = Handling c; job_of s i = Reporting (Some mt);
     send_built (api_build_metrics_response (mem_of s) mt zero_response) = (m, out)\<rbrakk> \<Longrightarrow>
    handler_step n s (reply_to s i c m (MetricsReply c mt out))"
| reply_query: "\<lbrakk>i < n; workers (pool s) i = Handling c; job_of s i = Querying q; thr (conc s) i = Responding q ex;
     query_reply (mem_of s) ex = Some (m, out);
     e = (if server_status ex = DB_SERVER_EXEC_STATUS_OK then QueryReply c q (begun s i) (pos s i) out else TimeoutReply c q out)\<rbrakk> \<Longrightarrow>
    handler_step n s (reply_to (s\<lparr>conc := step_to (conc s) i (mem_of s) (srv_of s) Idle\<rparr>) i c m e)"

text \<open>
  The steps of the system. A statement that runs is recorded in the history; the other steps of the queries neither
  run a statement nor respond; a refused client gets its response from the accepting thread.
\<close>

inductive system_step :: "nat \<Rightarrow> http_system \<Rightarrow> http_system \<Rightarrow> bool" for n where
  handler: "handler_step n s s' \<Longrightarrow> system_step n s s'"
| statement: "\<lbrakk>i < n; thr (conc s) i = Holding q; db_server_run (mem_of s) (srv_of s) q (db_server_begin q) = Some (m, srv, ex)\<rbrakk> \<Longrightarrow>
    system_step n s (s\<lparr>conc := step_to (conc s) i m srv (Executed q ex), ran := ran s @ [q], pos := (pos s)(i := length (ran s))\<rparr>)"
| database: "\<lbrakk>query_step n (conc s) c'; \<forall>i. thr (conc s) i \<noteq> Idle \<longrightarrow> thr c' i \<noteq> Idle;
     \<forall>i q. thr (conc s) i = Holding q \<longrightarrow> thr c' i = Holding q\<rbrakk> \<Longrightarrow>
    system_step n s (s\<lparr>conc := c'\<rparr>)"
| threads: "\<lbrakk>pool_step n (pool s) p; closed p = closed (pool s)\<rbrakk> \<Longrightarrow> system_step n s (s\<lparr>pool := p\<rparr>)"
| refuse: "\<lbrakk>listening (pool s); 0 \<le> c; http_request_queue_push (queue (pool s)) c = Some (q, False);
     error_reply (mem_of s) 503 ''queue_full'' ''Worker queue is full'' = Some (m, out)\<rbrakk> \<Longrightarrow>
    system_step n s (s\<lparr>pool := (http_server_note_response_complete (pool s))\<lparr>queue := q, accepted := accepted (pool s) @ [c],
        closed := closed (pool s) @ [c]\<rparr>,
      conc := (conc s)\<lparr>cmem := m, csrv := db_server_record_queue_full (srv_of s)\<rparr>, 
      sent := sent s @ [ErrorReply c 503 ''queue_full'' ''Worker queue is full'' out]\<rparr>)"

definition system_init :: "HTTPServerOptions \<Rightarrow> db_mem \<Rightarrow> http_system \<Rightarrow> bool" where
  "system_init opts m s \<longleftrightarrow> pool_init opts (pool s) \<and>
     db_conc_init m \<lparr>lock_timeout_ms = opt_lock_timeout_ms opts, simulate_read_delay_ms = opt_simulate_read_delay_ms opts,
       simulate_write_delay_ms = opt_simulate_write_delay_ms opts\<rparr> (conc s) \<and>
     job_of s = (\<lambda>_. Unread) \<and> ran s = [] \<and> begun s = (\<lambda>_. 0) \<and> sent s = []"

section \<open>Responses only allocate\<close>

lemma quiet_mem_upd [simp]: "quiet m (mem_upd m k (nodes m))"
  unfolding quiet_def by blast

lemma escape_quiet: "live_mem m \<Longrightarrow> api_escape_json_string_alloc m x = Some (m', e) \<Longrightarrow> quiet m m'"
  by (auto simp: api_escape_json_string_alloc_def alloc_live(1,2) Let_def split: Option.bind_splits if_splits)

lemma set_body_quiet: "live_mem m \<Longrightarrow> api_set_response_body m r code b = (m', r', ok) \<Longrightarrow> quiet m m'"
  by (auto simp: api_set_response_body_def alloc_live(1,2) Let_def split: if_splits)

lemma error_quiet:
  assumes "live_mem m" "api_build_error_response m r code ty msg = Some (m', r', ok)"
  shows "quiet m m'"
proof -
  obtain m1 e where e: "api_escape_json_string_alloc m msg = Some (m1, e)" "case e of None \<Rightarrow> m' = m1
    | Some x \<Rightarrow> api_set_response_body m1 r code (snprintf 2048 (error_text ty x)) = (m', r', ok)"
    using assms(2) by (auto simp: api_build_error_response_def split: Option.bind_splits option.splits)
  note q = escape_quiet [OF assms(1) e(1)]
  show ?thesis using e(2) q set_body_quiet [OF quiet_simps(2) [OF q assms(1)]] quiet_trans [OF q] by (auto split: option.splits)
qed

lemma render_quiet: "live_mem m \<Longrightarrow> api_render_http_response m r = (m', out) \<Longrightarrow> quiet m m'"
  by (auto simp: api_render_http_response_def alloc_live(1,2) Let_def split: option.splits if_splits)

lemma write_rows_quiet:
  "live_mem m \<Longrightarrow> api_write_rows m r room body k = Some (m', w) \<Longrightarrow> quiet m m'"
proof (induction k arbitrary: m' w)
  case (Suc k)
  obtain m1 w1 where r: "api_write_rows m r room body k = Some (m1, w1)" using Suc.prems(2) by (auto split: Option.bind_splits)
  have q: "quiet m m1" by (rule Suc.IH [OF Suc.prems(1) r])
  show ?case
  proof (cases w1)
    case None
    then show ?thesis using Suc.prems(2) r q by simp
  next
    case (Some b)
    then obtain name e where "api_escape_json_string_alloc m1 name = Some (m', e)"
      using Suc.prems(2) r by (auto split: Option.bind_splits option.splits)
    then show ?thesis using escape_quiet [OF quiet_simps(2) [OF q Suc.prems(1)]] quiet_trans [OF q] by blast
  qed
qed auto

lemma select_quiet:
  assumes "live_mem m" "api_build_select_response m ex r = Some (m', r', ok)"
  shows "quiet m m'"
proof -
  obtain m1 p1 where a: "alloc m = (m1, p1)" "p1 \<noteq> NULL" "quiet m m1" "live_mem m1" using alloc_quiet [OF assms(1)] by blast
  then obtain room b w where "api_write_rows m1 (ex_result ex) room b (row_count (ex_result ex)) = Some (m', w)"
    using assms(2) by (auto simp: api_build_select_response_def split: Option.bind_splits option.splits)
  then show ?thesis using write_rows_quiet [OF a(4)] quiet_trans [OF a(3)] by blast
qed

lemma execution_quiet: "live_mem m \<Longrightarrow> api_build_execution_response m ex r = Some (m', r', ok) \<Longrightarrow> quiet m m'"
  by (auto simp: api_build_execution_response_def Let_def split: if_splits dest: error_quiet select_quiet set_body_quiet)

lemma send_built_quiet: "live_mem m \<Longrightarrow> quiet m m1 \<Longrightarrow> send_built (m1, r, ok) = (m', out) \<Longrightarrow> quiet m m'"
  by (auto simp: send_built_def http_server_send_response_def split: if_splits
      dest: quiet_simps(2) render_quiet intro: quiet_trans)

lemma error_reply_quiet: "live_mem m \<Longrightarrow> error_reply m code ty msg = Some (m', out) \<Longrightarrow> quiet m m'"
  using error_quiet send_built_quiet by (fastforce simp: error_reply_def)

lemma query_reply_quiet:
  assumes "live_mem m" "query_reply m ex = Some (m', out)"
  shows "quiet m m'"
proof -
  obtain m1 r ok where b: "api_build_execution_response m ex zero_response = Some (m1, r, ok)"
    "if ok then send_built (m1, r, ok) = (m', out)
     else error_reply m1 500 ''internal_error'' ''Failed to serialize query result'' = Some (m', out)"
    using assms(2) by (auto simp: query_reply_def split: Option.bind_splits if_splits)
  note q = execution_quiet [OF assms(1) b(1)]
  show ?thesis using b(2) send_built_quiet [OF assms(1) q] error_reply_quiet [OF quiet_simps(2) [OF q assms(1)]] quiet_trans [OF q]
    by (auto split: if_splits)
qed

lemma health_quiet: "live_mem m \<Longrightarrow> send_built (api_build_health_response m r) = (m', out) \<Longrightarrow> quiet m m'"
  using set_body_quiet send_built_quiet unfolding api_build_health_response_def by (metis prod_cases3)

lemma metrics_quiet: "live_mem m \<Longrightarrow> send_built (api_build_metrics_response m mt r) = (m', out) \<Longrightarrow> quiet m m'"
  using set_body_quiet send_built_quiet unfolding api_build_metrics_response_def by (metis prod_cases3)

lemmas reply_quiet = error_reply_quiet health_quiet metrics_quiet query_reply_quiet

section \<open>Every reply is sent\<close>

text \<open>The errors that are reported without executing a query.\<close>

definition request_errors :: "string list" where
  "request_errors = [''Incomplete HTTP request headers'', ''Incomplete HTTP request body'', ''Failed to read from socket'',
     ''HTTP request exceeds buffer limit'', ''Request path is empty'', ''Malformed HTTP headers'', ''Malformed HTTP header line'',
     ''POST /query requires a JSON body'', ''JSON body must contain a string field named query'', ''Malformed HTTP request line'']"

definition known_error :: "int \<Rightarrow> string \<Rightarrow> string \<Rightarrow> bool" where
  "known_error code ty msg \<longleftrightarrow>
     (code = 400 \<and> ty = ''malformed_http'' \<and> msg \<in> set request_errors) \<or>
     (code = 405 \<and> ty = ''method_not_allowed'' \<and> msg \<in> {''This endpoint only supports GET'', ''This endpoint only supports POST'', ''Unsupported HTTP method''}) \<or>
     (code = 404 \<and> ty = ''not_found'' \<and> msg = ''Unknown endpoint'') \<or>
     (code = 503 \<and> ty = ''queue_full'' \<and> msg = ''Worker queue is full'')"

lemma request_error_mems:
  "''Incomplete HTTP request headers'' \<in> set request_errors" "''Incomplete HTTP request body'' \<in> set request_errors"
  "''Failed to read from socket'' \<in> set request_errors" "''HTTP request exceeds buffer limit'' \<in> set request_errors"
  "''Request path is empty'' \<in> set request_errors" "''Malformed HTTP headers'' \<in> set request_errors"
  "''Malformed HTTP header line'' \<in> set request_errors" "''POST /query requires a JSON body'' \<in> set request_errors"
  "''JSON body must contain a string field named query'' \<in> set request_errors" "''Malformed HTTP request line'' \<in> set request_errors"
  "incomplete_message e \<in> set request_errors"
  by (simp_all add: request_errors_def incomplete_message_def)

lemma read_from_error: "http_read_from events b e n = Inl msg \<Longrightarrow> msg \<in> set request_errors"
proof (induction "n - length b" arbitrary: events b e rule: less_induct)
  case less
  show ?case
  proof (cases "length b + 1 < n \<and> (\<exists>s es. events = Data s # es \<and> s \<noteq> [])")
    case True
    then obtain s es where d: "length b + 1 < n" "events = Data s # es" "s \<noteq> []" by blast
    have IH: "http_read_from xs (b @ take (n - length b - 1) s) y n = Inl msg \<Longrightarrow> msg \<in> set request_errors" for xs y
      by (rule less.hyps [OF read_progress [OF d(1,3)]])
    then have "http_read_from xs (b @ take (n - Suc (length b)) s) y n = Inl msg \<Longrightarrow> msg \<in> set request_errors"
      "\<not> n - Suc (length b) < length s \<Longrightarrow> http_read_from xs (b @ s) y n = Inl msg \<Longrightarrow> msg \<in> set request_errors" for xs y
      using IH [of xs y] by simp_all
    note IH = this
    show ?thesis using less.prems d unfolding http_read_from.simps [of events b e n] Let_def
      by (auto split: if_splits option.splits dest: IH simp: request_error_mems)
  next
    case False
    then show ?thesis using less.prems unfolding http_read_from.simps [of events b e n] Let_def
      by (auto split: if_splits list.splits recv_event.splits simp: request_error_mems)
  qed
qed

lemma parse_error: "api_parse_http_request (Some buf) n = Some (Inl msg) \<Longrightarrow> msg \<in> set request_errors"
  unfolding api_parse_http_request_def Let_def option.case
  by (auto simp: request_error_mems split: Option.bind_splits option.splits list.splits if_splits)

lemma known_error_short:
  assumes "known_error code ty msg"
  shows "length (cstr msg) \<le> 255" "length ty \<le> 20" "NUL \<notin> set ty" "int_range code"
proof -
  have "length msg \<le> 255" using assms by (auto simp: known_error_def request_errors_def)
  then show "length (cstr msg) \<le> 255" using length_takeWhile_le [of "\<lambda>c. c \<noteq> NUL" msg] by (simp add: cstr_def)
  show "length ty \<le> 20" "NUL \<notin> set ty" "int_range code" using assms by (auto simp: known_error_def int_range_def)
qed

fun job_ok :: "job \<Rightarrow> bool" where
  "job_ok (Rejected code ty msg) \<longleftrightarrow> known_error code ty msg"
| "job_ok _ \<longleftrightarrow> True"

lemma read_job_ok: "read_job events = Some j \<Longrightarrow> job_ok j"
  unfolding read_job_def http_server_read_request_def
  by (auto simp: known_error_def split: sum.splits Option.bind_splits if_splits dest: read_from_error parse_error)

lemma route_error_ok: "job_ok (route_error request)"
  by (simp add: route_error_def known_error_def)

text \<open>Each of these responses is built and rendered completely.\<close>

lemma send_answer:
  assumes "live_mem m" "int_range code" "length body < 10 ^ 20" "send_built (m, answer code body, True) = (m', out)"
  shows "out = Some (response_text code json_content_type body)"
  using render_response [OF assms(1), of "answer code body" body] assms(2-4)
  by (auto simp: send_built_def http_server_send_response_def answer_def)

lemma build_error:
  assumes "live_mem m" "length (cstr msg) \<le> 255" "length ty \<le> 20" "NUL \<notin> set ty"
  obtains m1 where "api_build_error_response m zero_response code ty msg = Some (m1, answer code (error_text ty (escape (cstr msg))), True)"
    "live_mem m1" "length (error_text ty (escape (cstr msg))) < 10 ^ 20"
proof -
  have "length (error_text ty (escape (cstr msg))) \<le> 1700"
    using assms(2,3) escape_length [of "cstr msg"] by (simp add: error_text_length)
  then have "length (error_text ty (escape (cstr msg))) < 10 ^ 20" by simp
  then show ?thesis using error_response [OF assms, of zero_response code] that by (auto simp: answer_eq)
qed

lemma error_reply_text:
  assumes "live_mem m" "known_error code ty msg" "error_reply m code ty msg = Some (m', out)"
  shows "out = Some (response_text code json_content_type (error_text ty (escape (cstr msg))))"
proof -
  note k = known_error_short [OF assms(2)]
  obtain m1 where b: "api_build_error_response m zero_response code ty msg = Some (m1, answer code (error_text ty (escape (cstr msg))), True)"
    "live_mem m1" "length (error_text ty (escape (cstr msg))) < 10 ^ 20"
    using build_error [OF assms(1) k(1-3)] by blast
  then show ?thesis using send_answer [OF b(2) k(4) b(3)] assms(3) by (simp add: error_reply_def)
qed

lemma set_body_sent:
  assumes "live_mem m" "NUL \<notin> set body" "length body < 10 ^ 20" "send_built (api_set_response_body m zero_response 200 body) = (m', out)"
  shows "out = Some (response_text 200 json_content_type body)"
proof -
  obtain m1 p1 where a: "alloc m = (m1, p1)" "p1 \<noteq> NULL" "live_mem m1" using alloc_quiet [OF assms(1)] by blast
  have "api_set_response_body m zero_response 200 body = (m1, answer 200 body, True)"
    using a(1,2) cstr_no_NUL [OF assms(2)] by (simp add: api_set_response_body_def answer_eq)
  then show ?thesis using assms(4) send_answer [OF a(3) _ assms(3)] by (simp add: int_range_def)
qed

lemma health_reply_text:
  assumes "live_mem m" "send_built (api_build_health_response m zero_response) = (m', out)"
  shows "out = Some (response_text 200 json_content_type health_text)"
  using set_body_sent [OF assms(1), of health_text] assms(2)
  by (simp add: api_build_health_response_def health_text_def jq_def)

lemma metrics_reply_text:
  assumes "live_mem m" "send_built (api_build_metrics_response m mt zero_response) = (m', out)"
  shows "out = Some (response_text 200 json_content_type (metrics_text mt))"
proof -
  have l: "length (metrics_text mt) < 1024" using metrics_text_length [of mt] by simp
  then have "snprintf 1024 (metrics_text mt) = metrics_text mt" by (simp add: snprintf_def)
  then show ?thesis using set_body_sent [OF assms(1) metrics_text_no_NUL, of mt] l assms(2)
    by (simp add: api_build_metrics_response_def)
qed

lemma timeout_reply_text:
  assumes "live_mem m" "query_reply m (lock_timeout_execution (db_server_begin q)) = Some (m', out)"
  shows "out = Some (response_text 503 json_content_type (error_text ''lock_timeout'' ''Lock wait timeout exceeded''))"
proof -
  let ?msg = "''Lock wait timeout exceeded''"
  have c: "cstr (snprintf 128 ?msg) = ?msg" "escape ?msg = ?msg" by code_simp+
  obtain m1 where b: "api_build_error_response m zero_response 503 ''lock_timeout'' (snprintf 128 ?msg) =
      Some (m1, answer 503 (error_text ''lock_timeout'' ?msg), True)" "live_mem m1" "length (error_text ''lock_timeout'' ?msg) < 10 ^ 20"
    using build_error [OF assms(1), of "snprintf 128 ?msg" "''lock_timeout''" 503] unfolding c by auto
  then have "api_build_execution_response m (lock_timeout_execution (db_server_begin q)) zero_response =
      Some (m1, answer 503 (error_text ''lock_timeout'' ?msg), True)"
    by (simp add: api_build_execution_response_def lock_timeout_execution_def Let_def)
  then show ?thesis using assms(2) send_answer [OF b(2) _ b(3)] by (simp add: query_reply_def int_range_def)
qed

section \<open>The pool and the database in the system\<close>

lemma served_step: "i < n \<Longrightarrow> workers p i = Handling c \<Longrightarrow> worker_step n p (served p i c)"
  unfolding served_def by (rule worker_step.serve)

lemma reply_to_simps [simp]:
  "pool (reply_to s i c m e) = served (pool s) i c" "conc (reply_to s i c m e) = (conc s)\<lparr>cmem := m\<rparr>"
  "job_of (reply_to s i c m e) = (job_of s)(i := Unread)" "sent (reply_to s i c m e) = sent s @ [e]"
  "ran (reply_to s i c m e) = ran s" "pos (reply_to s i c m e) = pos s" "begun (reply_to s i c m e) = begun s"
  by (simp_all add: reply_to_def)

lemma system_pool:
  assumes "system_step n s s'"
  shows "(pool_step n)\<^sup>*\<^sup>* (pool s) (pool s')"
  using assms
proof cases
  case handler
  then have "pool s' = pool s \<or> worker_step n (pool s) (pool s')" by cases (auto intro: served_step)
  then show ?thesis by (auto intro: pool_step.worker)
next
  case (refuse c q m out)
  then show ?thesis using pool_step.refuse [OF refuse(2-4), of n] by auto
qed auto

lemma handler_conc:
  assumes "handler_step n s s'" "live_mem (mem_of s)" "\<forall>i<n. \<forall>r. job_of s i = Routed r \<longrightarrow> thr (conc s) i = Idle"
  shows "(db_step n)\<^sup>*\<^sup>* (conc s) (conc s')"
  using assms(1)
proof cases
  case (query i request q now)
  then show ?thesis using db_step.start [of i n "conc s" q now] assms(3) by auto
next
  case (reply_query i c q ex m out e)
  let ?c = "step_to (conc s) i (mem_of s) (srv_of s) Idle"
  have "db_step n (conc s) ?c" using reply_query by (intro db_step.query query_step.respond) auto
  moreover have "db_step n ?c (?c\<lparr>cmem := m\<rparr>)" using reply_quiet(4) [OF assms(2)] reply_query by (intro db_step.allocate) auto
  ultimately show ?thesis using reply_query(1) by (auto intro: rtranclp.rtrancl_into_rtrancl)
qed (auto intro: db_step.health db_step.metrics db_step.allocate reply_quiet [OF assms(2)])

section \<open>The history explains the state\<close>

definition rows_at :: "http_system \<Rightarrow> nat \<Rightarrow> Record list" where
  "rows_at s k = foldl spec_rows [] (take k (ran s))"

definition result_ok :: "http_system \<Rightarrow> nat \<Rightarrow> string \<Rightarrow> DBServerExecution \<Rightarrow> bool" where
  "result_ok s i q ex \<longleftrightarrow> server_status ex = DB_SERVER_EXEC_STATUS_OK \<longrightarrow>
     begun s i \<le> pos s i \<and> pos s i < length (ran s) \<and> ran s ! pos s i = q \<and>
     used_index ex = db_server_guess_uses_index (Some q) \<and> answers (mem_of s) (ex_result ex) (rows_at s (pos s i)) q"

text \<open>A query has run, or it has timed out.\<close>

definition outcome_ok :: "http_system \<Rightarrow> nat \<Rightarrow> string \<Rightarrow> DBServerExecution \<Rightarrow> bool" where
  "outcome_ok s i q ex \<longleftrightarrow> result_ok s i q ex \<and>
     (server_status ex \<noteq> DB_SERVER_EXEC_STATUS_OK \<longrightarrow> ex = lock_timeout_execution (db_server_begin q))"

definition thread_ok :: "http_system \<Rightarrow> nat \<Rightarrow> bool" where
  "thread_ok s i \<longleftrightarrow> begun s i \<le> length (ran s) \<and> job_ok (job_of s i) \<and>
     (case thr (conc s) i of
        Idle \<Rightarrow> True
      | Waiting q t0 \<Rightarrow> job_of s i = Querying q
      | Holding q \<Rightarrow> job_of s i = Querying q
      | Executed q ex \<Rightarrow> job_of s i = Querying q \<and> outcome_ok s i q ex
      | Finishing q ex \<Rightarrow> job_of s i = Querying q \<and> outcome_ok s i q ex
      | Responding q ex \<Rightarrow> job_of s i = Querying q \<and> outcome_ok s i q ex)"

definition sent_ok :: "http_system \<Rightarrow> sent_reply \<Rightarrow> bool" where
  "sent_ok s e \<longleftrightarrow> reply_out e = Some (reply_due (ran s) e) \<and>
     (case e of
        QueryReply c q b k out \<Rightarrow> b \<le> k \<and> k < length (ran s) \<and> ran s ! k = q
      | ErrorReply c code ty msg out \<Rightarrow> known_error code ty msg
      | _ \<Rightarrow> True)"

lemma sent_okE:
  assumes "sent_ok s (QueryReply c q b k out)"
  shows "b \<le> k \<and> k < length (ran s) \<and> ran s ! k = q \<and> out = Some (reply_text (spec_answer (rows_at s k) q))"
  using assms by (simp add: sent_ok_def rows_at_def)

text \<open>No two replies, and no two workers with a result, share a statement; every statement that ran belongs to a reply or to a worker.\<close>

fun reply_pos :: "sent_reply \<Rightarrow> nat list" where
  "reply_pos (QueryReply c q b k out) = [k]"
| "reply_pos e = []"

definition taken :: "http_system \<Rightarrow> nat list" where
  "taken s = concat (map reply_pos (sent s))"

fun has_result :: "phase \<Rightarrow> bool" where
  "has_result (Executed q ex) \<longleftrightarrow> server_status ex = DB_SERVER_EXEC_STATUS_OK"
| "has_result (Finishing q ex) \<longleftrightarrow> server_status ex = DB_SERVER_EXEC_STATUS_OK"
| "has_result (Responding q ex) \<longleftrightarrow> server_status ex = DB_SERVER_EXEC_STATUS_OK"
| "has_result _ \<longleftrightarrow> False"

abbreviation active :: "http_system \<Rightarrow> nat \<Rightarrow> bool" where "active s i \<equiv> has_result (thr (conc s) i)"

definition once :: "nat \<Rightarrow> http_system \<Rightarrow> bool" where
  "once n s \<longleftrightarrow> distinct (taken s) \<and> (\<forall>i<n. active s i \<longrightarrow> pos s i \<notin> set (taken s)) \<and>
     (\<forall>i<n. \<forall>j<n. active s i \<and> active s j \<and> i \<noteq> j \<longrightarrow> pos s i \<noteq> pos s j) \<and>
     (\<forall>k<length (ran s). k \<in> set (taken s) \<or> (\<exists>i<n. active s i \<and> pos s i = k))"

definition stored :: "http_system \<Rightarrow> bool" where
  "stored s \<longleftrightarrow> (\<exists>t ps. srv_table (srv_of s) = Some t \<and> store (mem_of s) t ps (rows_at s (length (ran s))))"

definition system_inv :: "nat \<Rightarrow> http_system \<Rightarrow> bool" where
  "system_inv n s \<longleftrightarrow> stored s \<and> (\<forall>i<n. thread_ok s i) \<and> (\<forall>e \<in> set (sent s). sent_ok s e) \<and> once n s"

subsection \<open>What a step leaves alone\<close>

lemma rows_at_append: "ran s' = ran s @ qs \<Longrightarrow> k \<le> length (ran s) \<Longrightarrow> rows_at s' k = rows_at s k"
  by (simp add: rows_at_def)

lemma result_frame:
  assumes "result_ok s i q ex" "ran s' = ran s @ qs" "pos s' i = pos s i" "begun s' i = begun s i" "recs (mem_of s) \<subseteq>\<^sub>m recs (mem_of s')"
  shows "result_ok s' i q ex"
  using assms rows_at_append [OF assms(2)] answers_le [OF _ assms(5)] by (auto simp: result_ok_def nth_append)

lemma outcome_frame:
  assumes "outcome_ok s i q ex" "ran s' = ran s @ qs" "pos s' i = pos s i" "begun s' i = begun s i" "recs (mem_of s) \<subseteq>\<^sub>m recs (mem_of s')"
  shows "outcome_ok s' i q ex"
  using assms(1) result_frame [OF _ assms(2-5)] by (simp add: outcome_ok_def)

lemma thread_frame:
  assumes "thread_ok s i" "ran s' = ran s @ qs" "pos s' i = pos s i" "begun s' i = begun s i" "recs (mem_of s) \<subseteq>\<^sub>m recs (mem_of s')"
    "thr (conc s') i = thr (conc s) i" "job_of s' i = job_of s i"
  shows "thread_ok s' i"
  using assms(1,2,4,6,7) outcome_frame [OF _ assms(2-5)] by (auto simp: thread_ok_def split: phase.splits)

lemma sent_frame: "sent_ok s e \<Longrightarrow> ran s' = ran s @ qs \<Longrightarrow> sent_ok s' e"
  by (cases e) (auto simp: sent_ok_def nth_append)

lemma once_frame:
  assumes "once n s" "taken s' = taken s" "length (ran s') = length (ran s)"
    "\<And>i. i < n \<Longrightarrow> active s' i = active s i \<and> (active s i \<longrightarrow> pos s' i = pos s i)"
  shows "once n s'"
proof -
  have o: "distinct (taken s)" "\<And>j. j < n \<Longrightarrow> active s j \<Longrightarrow> pos s j \<notin> set (taken s)"
    "\<And>j k. j < n \<Longrightarrow> k < n \<Longrightarrow> active s j \<Longrightarrow> active s k \<Longrightarrow> j \<noteq> k \<Longrightarrow> pos s j \<noteq> pos s k"
    "\<And>k. k < length (ran s) \<Longrightarrow> k \<in> set (taken s) \<or> (\<exists>i<n. active s i \<and> pos s i = k)"
    using assms(1) by (simp_all add: once_def)
  have "k \<in> set (taken s') \<or> (\<exists>i<n. active s' i \<and> pos s' i = k)" if "k < length (ran s')" for k
    using o(4) [of k] that assms(2-4) by auto
  then show ?thesis using o(1-3) assms(2,4) unfolding once_def by simp
qed

lemma stored_quiet:
  assumes "stored s" "quiet (mem_of s) (mem_of s')" "srv_table (srv_of s') = srv_table (srv_of s)" "ran s' = ran s"
  shows "stored s'"
  using assms store_quiet unfolding stored_def rows_at_def by metis

lemma stored_live: "stored s \<Longrightarrow> live_mem (mem_of s)"
  by (auto simp: stored_def store_def)

text \<open>A step of worker \<open>i\<close> that runs no statement.\<close>

lemma inv_frame:
  assumes "system_inv n s" "ran s' = ran s" "quiet (mem_of s) (mem_of s')" "srv_table (srv_of s') = srv_table (srv_of s)" "pos s' = pos s"
    "\<And>j. j < n \<Longrightarrow> j \<noteq> i \<Longrightarrow> thr (conc s') j = thr (conc s) j \<and> job_of s' j = job_of s j \<and> begun s' j = begun s j"
    "i < n \<Longrightarrow> thread_ok s' i" "sent s' = sent s @ es" "\<forall>e \<in> set es. sent_ok s' e" "once n s'"
  shows "system_inv n s'"
proof -
  have v: "stored s" "\<forall>i<n. thread_ok s i" "\<forall>e \<in> set (sent s). sent_ok s e" using assms(1) by (simp_all add: system_inv_def)
  have r: "ran s' = ran s @ []" "recs (mem_of s) \<subseteq>\<^sub>m recs (mem_of s')" using assms(2) quiet_recs [OF assms(3)] by simp_all
  have "thread_ok s' j" if "j < n" for j
    using assms(5-7) that v(2) thread_frame [OF _ r(1) _ _ r(2), of j] by (cases "j = i") auto
  moreover have "\<forall>e \<in> set (sent s'). sent_ok s' e" using v(3) sent_frame [OF _ r(1)] assms(8,9) by auto
  ultimately show ?thesis using stored_quiet [OF v(1) assms(3,4,2)] assms(10) by (simp add: system_inv_def)
qed

lemma idle_unless_querying: "thread_ok s i \<Longrightarrow> \<forall>q. job_of s i \<noteq> Querying q \<Longrightarrow> thr (conc s) i = Idle"
  by (auto simp: thread_ok_def split: phase.splits)

lemma thread_ok_idle: "thr (conc s) i = Idle \<Longrightarrow> begun s i \<le> length (ran s) \<Longrightarrow> job_ok (job_of s i) \<Longrightarrow> thread_ok s i"
  by (simp add: thread_ok_def)

subsection \<open>Steps of the handler\<close>

lemma record_table [simp]:
  "srv_table (db_server_metrics_query_started srv k) = srv_table srv" "srv_table (db_server_metrics_query_finished srv ex) = srv_table srv"
  by (simp_all add: db_server_metrics_query_started_def db_server_metrics_query_finished_def Let_def)

lemma inv_idle:
  assumes "system_inv n s" "ran s' = ran s" "quiet (mem_of s) (mem_of s')" "srv_table (srv_of s') = srv_table (srv_of s)" "pos s' = pos s"
    "thr (conc s') = thr (conc s)" "\<And>j. j \<noteq> i \<Longrightarrow> job_of s' j = job_of s j \<and> begun s' j = begun s j"
    "i < n" "thr (conc s) i = Idle" "begun s' i \<le> length (ran s)" "sent s' = sent s @ es" "\<forall>e \<in> set es. reply_pos e = [] \<and> sent_ok s' e"
    "job_ok (job_of s' i)"
  shows "system_inv n s'"
proof -
  have "concat (map reply_pos es) = []" using assms(12) by auto
  then have "taken s' = taken s" using assms(11) by (simp add: taken_def)
  then have "once n s'" using assms(1,2,5,6) by (intro once_frame [of n s s']) (simp_all add: system_inv_def)
  moreover have "thread_ok s' i" using assms(2,6,9,10,13) by (intro thread_ok_idle) simp_all
  moreover have "\<forall>e \<in> set es. sent_ok s' e" using assms(12) by auto
  ultimately show ?thesis using assms by (intro inv_frame [of n s s' i es]) auto
qed

lemma once_reply:
  assumes "once n s" "i < n" "taken s' = taken s @ (if active s i then [pos s i] else [])" "pos s' = pos s" "ran s' = ran s"
    "\<And>j. active s' j \<longleftrightarrow> active s j \<and> j \<noteq> i"
  shows "once n s'"
proof (cases "active s i")
  case True
  then have p: "pos s i \<notin> set (taken s)" using assms(1,2) by (simp add: once_def)
  have o: "distinct (taken s)" "\<And>j. j < n \<Longrightarrow> active s j \<Longrightarrow> pos s j \<notin> set (taken s)"
    "\<And>j k. j < n \<Longrightarrow> k < n \<Longrightarrow> active s j \<Longrightarrow> active s k \<Longrightarrow> j \<noteq> k \<Longrightarrow> pos s j \<noteq> pos s k"
    "\<And>k. k < length (ran s) \<Longrightarrow> k \<in> set (taken s) \<or> (\<exists>i<n. active s i \<and> pos s i = k)"
    using assms(1) by (simp_all add: once_def)
  have t: "taken s' = taken s @ [pos s i]" using assms(3) True by simp
  have "distinct (taken s')" using o(1) p t by simp
  moreover have "pos s' j \<notin> set (taken s')" if "j < n" "active s' j" for j
    using o(2,3) [of j] assms(2,4,6) that True t by auto
  moreover have "pos s' j \<noteq> pos s' k" if "j < n" "k < n" "active s' j" "active s' k" "j \<noteq> k" for j k
    using o(3) [OF that(1,2) _ _ that(5)] assms(4,6) that(3,4) by simp
  moreover have "k \<in> set (taken s') \<or> (\<exists>j<n. active s' j \<and> pos s' j = k)" if k: "k < length (ran s')" for k
  proof (cases "k = pos s i")
    case False
    then show ?thesis using o(4) [of k] k assms(4-6) t by auto
  qed (simp add: t)
  ultimately show ?thesis unfolding once_def by blast
next
  case False
  then show ?thesis using assms(3-6) by (intro once_frame [OF assms(1)]) auto
qed

lemma spec_rows_extends: "\<exists>xs. foldl spec_rows rs qs = rs @ xs"
proof (induction qs arbitrary: rs)
  case (Cons q qs)
  have "\<exists>ys. spec_rows rs q = rs @ ys" by (auto simp: spec_rows_def split: sql_statement.splits)
  then obtain ys where "spec_rows rs q = rs @ ys" by blast
  then show ?case using Cons.IH [of "rs @ ys"] by auto
qed simp

lemma rows_at_ok:
  assumes "stored s"
  shows "rows_ok (rows_at s k)" "int (length (rows_at s k)) + 1 \<le> INT_MAX"
proof -
  obtain t ps where t: "store (mem_of s) t ps (rows_at s (length (ran s)))" using assms by (auto simp: stored_def)
  have "rows_at s (length (ran s)) = foldl spec_rows (rows_at s k) (drop k (ran s))"
    by (simp add: rows_at_def flip: foldl_append)
  then obtain xs where "rows_at s (length (ran s)) = rows_at s k @ xs" using spec_rows_extends by metis
  then show "rows_ok (rows_at s k)" "int (length (rows_at s k)) + 1 \<le> INT_MAX"
    using t store_length [OF t] by (auto simp: store_def rows_ok_def)
qed

lemma query_reply_ok:
  assumes "stored s" "result_ok s i q ex" "server_status ex = DB_SERVER_EXEC_STATUS_OK" "query_reply (mem_of s) ex = Some (m, out)"
  shows "out = Some (reply_text (spec_answer (rows_at s (pos s i)) q))"
proof -
  have a: "answers (mem_of s) (ex_result ex) (rows_at s (pos s i)) q" "used_index ex = db_server_guess_uses_index (Some q)"
    using assms(2,3) by (simp_all add: result_ok_def)
  note ok = rows_at_ok [OF assms(1), of "pos s i"]
  obtain m1 where b: "api_build_execution_response (mem_of s) ex zero_response = Some (m1, spec_answer (rows_at s (pos s i)) q, True)" "live_mem m1"
    using answers_response [OF a(1) stored_live [OF assms(1)] ok assms(3) a(2)] by blast
  obtain m2 where "api_render_http_response m1 (spec_answer (rows_at s (pos s i)) q) = (m2, Some (reply_text (spec_answer (rows_at s (pos s i)) q)))"
    using spec_answer_rendered [OF a(1) b(2) ok] by blast
  then show ?thesis using assms(4) b(1) by (simp add: query_reply_def send_built_def http_server_send_response_def)
qed

lemma handler_inv:
  assumes "handler_step n s s'" "system_inv n s"
  shows "system_inv n s'"
proof -
  have v: "stored s" "\<And>i. i < n \<Longrightarrow> thread_ok s i" "once n s" using assms(2) by (simp_all add: system_inv_def)
  note live = stored_live [OF v(1)]
  note q = reply_quiet [OF live]
  have idle: "thr (conc s) i = Idle" if "i < n" "\<forall>q. job_of s i \<noteq> Querying q" for i using idle_unless_querying v(2) that by blast
  have b: "begun s i \<le> length (ran s)" if "i < n" for i using v(2) [OF that] by (simp add: thread_ok_def)
  show ?thesis
    using assms(1)
  proof cases
    case (read i c events j)
    then show ?thesis using idle read_job_ok by (intro inv_idle [of n s s' i "[]"] assms(2)) auto
  next
    case (health i request)
    then show ?thesis using idle b by (intro inv_idle [of n s s' i "[]"] assms(2)) auto
  next
    case (metrics i request)
    then show ?thesis using idle b by (intro inv_idle [of n s s' i "[]"] assms(2)) auto
  next
    case (snapshot i)
    then show ?thesis using idle b by (intro inv_idle [of n s s' i "[]"] assms(2)) auto
  next
    case (reject i request)
    then show ?thesis using idle b route_error_ok by (intro inv_idle [of n s s' i "[]"] assms(2)) auto
  next
    case (reply_error i c code ty msg m out)
    have "known_error code ty msg" using v(2) [OF reply_error(2)] reply_error(4) by (simp add: thread_ok_def)
    with reply_error show ?thesis using idle b q(1) error_reply_text [OF live]
      by (intro inv_idle [of n s s' i "[ErrorReply c code ty msg out]"] assms(2)) (auto simp: sent_ok_def)
  next
    case (reply_health i c m out)
    then show ?thesis using idle b q(2) health_reply_text [OF live]
      by (intro inv_idle [of n s s' i "[HealthReply c out]"] assms(2)) (auto simp: sent_ok_def)
  next
    case (reply_metrics i c mt m out)
    then show ?thesis using idle b q(3) metrics_reply_text [OF live]
      by (intro inv_idle [of n s s' i "[MetricsReply c mt out]"] assms(2)) (auto simp: sent_ok_def)
  next
    case (query i request qr now)
    have "thr (conc s) i = Idle" using idle query(2,3) by simp
    then have "once n s'" using query(1) by (intro once_frame [OF v(3)]) (auto simp: taken_def split: if_splits)
    then show ?thesis using query b by (intro inv_frame [of n s s' i "[]"] assms(2)) (auto simp: thread_ok_def)
  next
    case (reply_query i c qr ex m out e)
    have o: "outcome_ok s i qr ex" using v(2) [OF reply_query(2)] reply_query(5) by (simp add: thread_ok_def)
    then have r: "result_ok s i qr ex" by (simp add: outcome_ok_def)
    have act: "active s' j \<longleftrightarrow> active s j \<and> j \<noteq> i" for j using reply_query(1) by auto
    have tk: "taken s' = taken s @ (if active s i then [pos s i] else [])"
      using reply_query(1,5,7) by (simp add: taken_def)
    have "once n s'" using act reply_query(1) by (intro once_reply [OF v(3) reply_query(2) tk]) auto
    moreover have "sent_ok s' e"
    proof (cases "server_status ex = DB_SERVER_EXEC_STATUS_OK")
      case True
      then show ?thesis using query_reply_ok [OF v(1) r True reply_query(6)] r reply_query(1,7)
        by (simp add: result_ok_def rows_at_def sent_ok_def)
    next
      case False
      then have "ex = lock_timeout_execution (db_server_begin qr)" using o by (simp add: outcome_ok_def)
      then show ?thesis using False timeout_reply_text [OF live] reply_query(6,7) by (auto simp: sent_ok_def)
    qed
    ultimately show ?thesis using reply_query b q(4) by (intro inv_frame [of n s s' i "[e]"] assms(2)) (auto simp: thread_ok_def)
  qed
qed

subsection \<open>Steps of the system\<close>

lemma run_store:
  fixes m :: db_mem
  assumes "srv_table srv = Some t" "store m t ps rs" "db_server_run m srv q (db_server_begin q) = Some (m', srv', ex)"
  shows "\<exists>t' ps'. srv_table srv' = Some t' \<and> store m' t' ps' (spec_rows rs q)" "answers m' (ex_result ex) rs q"
    "server_status ex = DB_SERVER_EXEC_STATUS_OK" "used_index ex = db_server_guess_uses_index (Some q)" "recs m \<subseteq>\<^sub>m recs m'"
proof -
  have s: "table_rep m t ps rs" "live_mem m" using assms(2) by (simp_all add: store_def)
  obtain t' where t': "srv_table srv' = Some t'" "live_mem m'" "sql_outcome m t ps rs (statement_of (cstr q)) m' t' (ex_result ex)"
    using run_table [OF assms(1) s assms(3)] by metis
  then show "\<exists>t' ps'. srv_table srv' = Some t' \<and> store m' t' ps' (spec_rows rs q)" using outcome_store [OF assms(2)] by blast
  obtain r where x: "sql_execute m (Some t) (Some q) = Some (m', Some t', r)"
    "ex = (db_server_begin q)\<lparr>ex_result := r, server_status := DB_SERVER_EXEC_STATUS_OK, message := snprintf 128 ''OK''\<rparr>"
    using assms(1,3) t'(1) by (auto simp: db_server_run_def split: Option.bind_splits prod.splits)
  then have "statement_of (cstr q) = BadStatement \<longrightarrow> ex_result ex = bad_result (cstr q)" using execute_bad [of q m t] by auto
  then show "answers m' (ex_result ex) rs q" using outcome_answers [OF assms(2) t'(3)] by blast
  show "server_status ex = DB_SERVER_EXEC_STATUS_OK" "used_index ex = db_server_guess_uses_index (Some q)"
    using x(2) by (simp_all add: db_server_begin_def)
  let ?c = "\<lparr>cmem = m, csrv = srv, thr = \<lambda>_. Holding q\<rparr>"
  have "query_step 1 ?c (step_to ?c 0 m' srv' (Executed q ex))" using assms(3) by (intro query_step.run) auto
  from grows_recs [OF grows_query [OF this], of t ps rs] show "recs m \<subseteq>\<^sub>m recs m'" using assms(1) s by (simp add: table_of_def)
qed

lemma sent_pos: "sent_ok s e \<Longrightarrow> k \<in> set (reply_pos e) \<Longrightarrow> k < length (ran s)"
  by (cases e) (auto simp: sent_ok_def)

lemma statement_inv:
  assumes "i < n" "thr (conc s) i = Holding q" "db_server_run (mem_of s) (srv_of s) q (db_server_begin q) = Some (m, srv, ex)" "system_inv n s"
  shows "system_inv n (s\<lparr>conc := step_to (conc s) i m srv (Executed q ex), ran := ran s @ [q], pos := (pos s)(i := length (ran s))\<rparr>)"
    (is "system_inv n ?s")
proof -
  have v: "\<And>j. j < n \<Longrightarrow> thread_ok s j" "\<forall>e \<in> set (sent s). sent_ok s e" "once n s" using assms(4) by (simp_all add: system_inv_def)
  obtain t ps where t: "srv_table (srv_of s) = Some t" "store (mem_of s) t ps (rows_at s (length (ran s)))"
    using assms(4) by (auto simp: system_inv_def stored_def)
  note r = run_store [OF t assms(3)]
  have rows: "rows_at ?s (length (ran ?s)) = spec_rows (rows_at s (length (ran s))) q" by (simp add: rows_at_def)
  then have "stored ?s" using r(1) by (simp add: stored_def)
  moreover have "thread_ok ?s j" if "j < n" for j
  proof (cases "j = i")
    case True
    then show ?thesis using v(1) [OF assms(1)] r(2-4) assms(2) by (simp add: thread_ok_def outcome_ok_def result_ok_def rows_at_def)
  next
    case False
    then show ?thesis using r(5) by (intro thread_frame [OF v(1) [OF that], of ?s "[q]"]) simp_all
  qed
  moreover have "\<forall>e \<in> set (sent ?s). sent_ok ?s e" using v(2) sent_frame [of s _ ?s "[q]"] by simp
  moreover have "once n ?s"
  proof -
    have l: "pos s j \<noteq> length (ran s)" if "j < n" "active s j" for j
      using v(1) [OF that(1)] that(2) by (auto simp: thread_ok_def outcome_ok_def result_ok_def split: phase.splits)
    have "k \<noteq> length (ran s)" if k: "k \<in> set (taken s)" for k
    proof -
      obtain e where "e \<in> set (sent s)" "k \<in> set (reply_pos e)" using k by (auto simp: taken_def)
      then show ?thesis using v(2) sent_pos [of s e k] by auto
    qed
    note nt = this
    have tk: "taken ?s = taken s" by (simp add: taken_def)
    have act: "active ?s j \<longleftrightarrow> j = i \<or> active s j" "\<not> active s i" for j using r(3) assms(2) by auto
    have all: "k \<in> set (taken s) \<or> (\<exists>j<n. active ?s j \<and> pos ?s j = k)" if k: "k < length (ran ?s)" for k
    proof (cases "k = length (ran s)")
      case True
      then show ?thesis using assms(1) act by auto
    next
      case False
      then have "k \<in> set (taken s) \<or> (\<exists>j<n. active s j \<and> pos s j = k)" using v(3) k by (simp add: once_def)
      moreover have "pos ?s j = pos s j" if "active s j" for j using that act(2) by auto
      ultimately show ?thesis using act(1) by metis
    qed
    have p: "pos ?s j = (if j = i then length (ran s) else pos s j)" for j by simp
    have "pos ?s j \<notin> set (taken s)" if "j < n" "active ?s j" for j
      using that act(1) nt [of "pos ?s j"] v(3) unfolding p once_def by auto
    moreover have "pos ?s j \<noteq> pos ?s k" if "j < n" "k < n" "active ?s j" "active ?s k" "j \<noteq> k" for j k
    proof (cases "j = i \<or> k = i")
      case True
      then show ?thesis using that act(1) [of j] act(1) [of k] l [of j] l [of k] unfolding p by auto
    next
      case False
      then show ?thesis using that act(1) v(3) unfolding p once_def by auto
    qed
    moreover have "distinct (taken s)" using v(3) by (simp add: once_def)
    ultimately show ?thesis using all unfolding once_def tk by blast
  qed
  ultimately show ?thesis by (simp add: system_inv_def)
qed

lemma database_inv:
  assumes "query_step n (conc s) c'" "\<forall>i. thr (conc s) i \<noteq> Idle \<longrightarrow> thr c' i \<noteq> Idle"
    "\<forall>i q. thr (conc s) i = Holding q \<longrightarrow> thr c' i = Holding q" "system_inv n s"
  shows "system_inv n (s\<lparr>conc := c'\<rparr>)" (is "system_inv n ?s")
proof -
  have v: "\<And>j. j < n \<Longrightarrow> thread_ok s j" "once n s" using assms(4) by (simp_all add: system_inv_def)
  obtain i where i: "i < n" "cmem c' = mem_of s" "srv_table (csrv c') = srv_table (srv_of s)" "\<forall>j. j \<noteq> i \<longrightarrow> thr c' j = thr (conc s) j"
    "thread_ok ?s i" "active ?s i \<longleftrightarrow> active s i"
    using assms(1)
  proof cases
    case (pass i q t0)
    then show ?thesis using that [of i] v(1) [of i] by (simp add: thread_ok_def)
  next
    case (acquire i q t0 srv)
    then show ?thesis using that [of i] v(1) [of i] attempt_keeps(2) [OF acquire(5)] by (simp add: thread_ok_def)
  next
    case (expire i q t0 srv now)
    then show ?thesis using that [of i] v(1) [of i] attempt_keeps(2) [OF expire(5)]
      by (simp add: thread_ok_def outcome_ok_def result_ok_def lock_timeout_execution_def)
  next
    case (run i q m srv ex)
    then have "thr c' i = Holding q" using assms(3) by blast
    then show ?thesis using run(1) by simp
  next
    case (release i q ex)
    then show ?thesis using that [of i] v(1) [of i] by (simp add: thread_ok_def outcome_ok_def result_ok_def rows_at_def)
  next
    case (finish i q ex)
    then show ?thesis using that [of i] v(1) [of i] by (simp add: thread_ok_def outcome_ok_def result_ok_def rows_at_def)
  next
    case (respond i q ex)
    then have "thr c' i \<noteq> Idle" using assms(2) [rule_format, of i] by simp
    then show ?thesis using respond(1) by simp
  qed
  have "once n ?s"
  proof (rule once_frame [OF v(2)])
    fix j
    show "active ?s j = active s j \<and> (active s j \<longrightarrow> pos ?s j = pos s j)" using i(4,6) by (cases "j = i") auto
  qed (simp_all add: taken_def)
  then show ?thesis using i by (intro inv_frame [of n s ?s i "[]"] assms(4)) auto
qed

lemma system_inv_step:
  assumes "system_step n s s'" "system_inv n s"
  shows "system_inv n s'"
proof -
  have st: "stored s" and o: "once n s" using assms(2) by (simp_all add: system_inv_def)
  show ?thesis using assms(1)
proof cases
  case handler
  then show ?thesis using handler_inv assms(2) by blast
next
  case (statement i q m srv ex)
  show ?thesis unfolding statement(1) by (rule statement_inv [OF statement(2-4) assms(2)])
next
  case (database c')
  show ?thesis unfolding database(1) by (rule database_inv [OF database(2-4) assms(2)])
next
  case (threads p)
  have "once n s'" unfolding threads(1) by (rule once_frame [OF o]) (simp_all add: taken_def)
  then show ?thesis unfolding threads(1) by (intro inv_frame [OF assms(2), where i = n and es = "[]"]) simp_all
next
  case (refuse c q m out)
  have "quiet (mem_of s) m" using refuse(5) stored_live [OF st] by (intro reply_quiet(1))
  moreover have "once n s'" unfolding refuse(1) by (rule once_frame [OF o]) (simp_all add: taken_def)
  ultimately show ?thesis unfolding refuse(1) 
    using error_reply_text [OF stored_live [OF st] _ refuse(5)]
    by (intro inv_frame [OF assms(2), where i = n and es = "[ErrorReply c 503 ''queue_full'' ''Worker queue is full'' out]"])
      (simp_all add: sent_ok_def known_error_def)
qed
qed

section \<open>The handler as a sequence of steps\<close>

text \<open>A worker whose actions are not interleaved with others does what \<^verbatim>\<open>http_server_handle_client\<close> does.\<close>

lemma attempt_false: "db_server_attempt_lock srv k = (srv', False) \<Longrightarrow> srv' = srv"
  by (auto simp: db_server_attempt_lock_def platform_rwlock_try_write_lock_def platform_rwlock_try_read_lock_def Let_def split: if_splits)

lemma acquire_alone:
  assumes "db_server_acquire_from srv k st clock (\<lambda>_ l. l) j = Some (srv', ok)"
  shows "db_server_attempt_lock srv k = (srv', ok) \<and> (\<not> ok \<longrightarrow> (\<exists>now. db_server_lock_expired srv st now))"
proof -
  have "others = (\<lambda>_ l. l) \<longrightarrow> db_server_attempt_lock srv k = r \<and> (\<not> snd r \<longrightarrow> (\<exists>now. db_server_lock_expired srv st now))"
    if "db_server_acquire_from srv k st clock others j = Some r" for others r
  proof (rule db_server_acquire_from.raw_induct [where P = "\<lambda>srv k st clock others j r. others = (\<lambda>_ l. l) \<longrightarrow>
      db_server_attempt_lock srv k = r \<and> (\<not> snd r \<longrightarrow> (\<exists>now. db_server_lock_expired srv st now))", OF _ that], goal_cases)
    case (1 f srv k st clock others j r)
    obtain s' ok where a: "db_server_attempt_lock srv k = (s', ok)" by (cases "db_server_attempt_lock srv k")
    show ?case
    proof (cases "ok \<or> db_server_lock_expired s' st (clock j)")
      case True
      then have "r = (s', ok)" using 1(2) a by (cases ok) simp_all
      then show ?thesis using True a attempt_false by (cases ok) auto
    next
      case False
      then have s': "s' = srv" using a attempt_false by auto
      have "f srv k st clock others (Suc j) = Some r" if "others = (\<lambda>_ l. l)" using 1(2) a False s' that by simp
      then show ?thesis using 1(1) by blast
    qed
  qed
  from this [OF assms] show ?thesis by simp
qed

lemma database_move:
  assumes "query_step n (conc s) (step_to (conc s) i m srv ph)" "ph \<noteq> Idle" "\<And>q. thr (conc s) i \<noteq> Holding q"
  shows "system_step n s (s\<lparr>conc := step_to (conc s) i m srv ph\<rparr>)"
  using assms by (intro system_step.database) auto

lemma execute_steps:
  assumes "i < n" "thr (conc s) i = Waiting q (clock 0)" "srv_of s = db_server_metrics_query_started server (kind_of q)"
    "db_server_execute (mem_of s) server (Some q) clock = Some (m', server', Some ex)"
  shows "\<exists>s'. (system_step n)\<^sup>*\<^sup>* s s' \<and>
    s' = s\<lparr>conc := step_to (conc s) i m' server' (Responding q ex), ran := ran s', pos := pos s'\<rparr> \<and>
    (server_status ex = DB_SERVER_EXEC_STATUS_OK \<longrightarrow> ran s' = ran s @ [q] \<and> pos s' i = length (ran s))"
proof -
  let ?k = "kind_of q"
  obtain srv ok where a: "db_server_try_acquire_lock (srv_of s) ?k clock (\<lambda>_ l. l) = Some (srv, ok)"
    and r: "if \<not> ok then m' = mem_of s \<and> ex = lock_timeout_execution (db_server_begin q) \<and> server' = db_server_metrics_query_finished srv ex
      else \<exists>srv2. db_server_run (mem_of s) srv q (db_server_begin q) = Some (m', srv2, ex) \<and>
        server' = db_server_metrics_query_finished (db_server_release_lock srv2 ?k) ex"
    using assms(3,4) by (auto simp: db_server_execute_def Let_def split: option.splits Option.bind_splits prod.splits if_splits)
  show ?thesis
  proof (cases ok)
    case False
    then have "?k \<noteq> DB_SERVER_QUERY_KIND_NONE" "db_server_acquire_from (srv_of s) ?k (clock 0) clock (\<lambda>_ l. l) 1 = Some (srv, False)"
      using a by (auto simp: db_server_try_acquire_lock_def split: if_splits)
    then obtain now where now: "?k \<noteq> DB_SERVER_QUERY_KIND_NONE" "db_server_attempt_lock (srv_of s) ?k = (srv, False)" "srv = srv_of s"
      "db_server_lock_expired srv (clock 0) now"
      using acquire_alone attempt_false by metis
    let ?s1 = "s\<lparr>conc := step_to (conc s) i (mem_of s) srv (Finishing q ex)\<rparr>"
    let ?s2 = "?s1\<lparr>conc := step_to (conc ?s1) i (mem_of ?s1) (db_server_metrics_query_finished (srv_of ?s1) ex) (Responding q ex)\<rparr>"
    have ex: "ex = lock_timeout_execution (db_server_begin q)" "m' = mem_of s" "server' = db_server_metrics_query_finished srv ex"
      using r False by simp_all
    have "system_step n s ?s1" unfolding ex(1)
      using query_step.expire [OF assms(1,2) now(1,2,4)] assms(2) by (intro database_move) auto
    moreover have "system_step n ?s1 ?s2" using query_step.finish [of i n "conc ?s1" q ex] assms(1) by (intro database_move) auto
    ultimately have "(system_step n)\<^sup>*\<^sup>* s ?s2" by (meson converse_rtranclp_into_rtranclp r_into_rtranclp)
    moreover have "?s2 = s\<lparr>conc := step_to (conc s) i m' server' (Responding q ex)\<rparr>" using ex by (simp add: step_to_def)
    moreover have "server_status ex \<noteq> DB_SERVER_EXEC_STATUS_OK" using ex(1) by (simp add: lock_timeout_execution_def)
    ultimately show ?thesis by (intro exI [of _ ?s2]) simp
  next
    case True
    then obtain srv2 where run: "db_server_run (mem_of s) srv q (db_server_begin q) = Some (m', srv2, ex)"
      "server' = db_server_metrics_query_finished (db_server_release_lock srv2 ?k) ex" using r by auto
    let ?s1 = "s\<lparr>conc := step_to (conc s) i (mem_of s) srv (Holding q)\<rparr>"
    let ?s2 = "?s1\<lparr>conc := step_to (conc ?s1) i m' srv2 (Executed q ex), ran := ran s @ [q], pos := (pos s)(i := length (ran s))\<rparr>"
    let ?s3 = "?s2\<lparr>conc := step_to (conc ?s2) i (mem_of ?s2) (db_server_release_lock (srv_of ?s2) ?k) (Finishing q ex)\<rparr>"
    let ?s4 = "?s3\<lparr>conc := step_to (conc ?s3) i (mem_of ?s3) (db_server_metrics_query_finished (srv_of ?s3) ex) (Responding q ex)\<rparr>"
    have "query_step n (conc s) (step_to (conc s) i (mem_of s) srv (Holding q))"
    proof (cases "?k = DB_SERVER_QUERY_KIND_NONE")
      case True
      then have "srv = srv_of s" using a by (simp add: db_server_try_acquire_lock_def)
      then show ?thesis using query_step.pass [OF assms(1,2) True] by simp
    next
      case False
      then have "db_server_attempt_lock (srv_of s) ?k = (srv, True)"
        using a True acquire_alone by (fastforce simp: db_server_try_acquire_lock_def)
      then show ?thesis by (rule query_step.acquire [OF assms(1,2) False])
    qed
    then have "system_step n s ?s1" using assms(2) by (intro database_move) auto
    moreover have "system_step n ?s1 ?s2" using system_step.statement [of i n ?s1 q m' srv2 ex] assms(1) run(1) by simp
    moreover have "system_step n ?s2 ?s3" using query_step.release [of i n "conc ?s2" q ex] assms(1) by (intro database_move) auto
    moreover have "system_step n ?s3 ?s4" using query_step.finish [of i n "conc ?s3" q ex] assms(1) by (intro database_move) auto
    ultimately have "(system_step n)\<^sup>*\<^sup>* s ?s4" by (meson converse_rtranclp_into_rtranclp r_into_rtranclp)
    moreover have "?s4 = s\<lparr>conc := step_to (conc s) i m' server' (Responding q ex), ran := ran ?s4, pos := pos ?s4\<rparr>"
      using run(2) by (simp add: step_to_def)
    ultimately show ?thesis by (intro exI [of _ ?s4]) simp
  qed
qed

text \<open>The client \<open>c\<close> of worker \<open>i\<close> has got the reply \<open>e\<close>; the memory is \<open>m\<close> and the server \<open>srv\<close>.\<close>

definition handled_to :: "http_system \<Rightarrow> nat \<Rightarrow> int \<Rightarrow> db_mem \<Rightarrow> DBServer \<Rightarrow> sent_reply \<Rightarrow> http_system \<Rightarrow> bool" where
  "handled_to s i c m srv e s' \<longleftrightarrow> mem_of s' = m \<and> srv_of s' = srv \<and> thr (conc s') = (thr (conc s))(i := Idle) \<and>
     pool s' = served (pool s) i c \<and> job_of s' = (job_of s)(i := Unread) \<and> sent s' = sent s @ [e]"

lemma error_steps:
  assumes "i < n" "workers (pool s) i = Handling c" "job_of s i = Rejected code ty msg" "thr (conc s) i = Idle"
    "http_server_send_error_and_count (mem_of s) (srv_of s) context code ty msg = Some (m', srv', context', out)"
  shows "\<exists>s'. system_step n s s' \<and> handled_to s i c m' srv' (ErrorReply c code ty msg out) s'"
proof -
  have e: "error_reply (mem_of s) code ty msg = Some (m', out)" "srv' = srv_of s"
    using assms(5) by (auto simp: send_error_parts)
  have "system_step n s (reply_to s i c m' (ErrorReply c code ty msg out))"
    by (rule system_step.handler [OF handler_step.reply_error [OF assms(1-3) e(1)]])
  then show ?thesis using e(2) assms(4) by (intro exI [of _ "reply_to s i c m' (ErrorReply c code ty msg out)"]) (simp add: handled_to_def fun_upd_idem)
qed

lemma query_steps:
  assumes "i < n" "workers (pool s) i = Handling c" "job_of s i = Routed request" "is_query request" "srv_table (srv_of s) = Some t"
    "http_server_handle_query (mem_of s) (srv_of s) context clock (req_query request) = Some (m', srv', context', out)"
  shows "\<exists>s' e. (system_step n)\<^sup>*\<^sup>* s s' \<and> handled_to s i c m' srv' e s' \<and> reply_client e = c \<and> reply_out e = out \<and>
    (\<forall>m1 srv1 ex. db_server_execute (mem_of s) (srv_of s) (Some (req_query request)) clock = Some (m1, srv1, Some ex) \<and>
       server_status ex = DB_SERVER_EXEC_STATUS_OK \<longrightarrow>
       ran s' = ran s @ [req_query request] \<and> e = QueryReply c (req_query request) (begun s i) (length (ran s)) out)"
proof -
  let ?q = "req_query request"
  obtain m1 ex where x: "db_server_execute (mem_of s) (srv_of s) (Some ?q) clock = Some (m1, srv', Some ex)" "query_reply m1 ex = Some (m', out)"
  proof -
    obtain m1 srv1 r where d: "db_server_execute (mem_of s) (srv_of s) (Some ?q) clock = Some (m1, srv1, r)"
      using assms(6) by (auto simp: http_server_handle_query_def split: Option.bind_splits prod.splits)
    moreover have "r \<noteq> None" using d assms(5) by (auto simp: db_server_execute_def Let_def split: Option.bind_splits prod.splits if_splits)
    ultimately obtain ex where d: "db_server_execute (mem_of s) (srv_of s) (Some ?q) clock = Some (m1, srv1, Some ex)" by auto
    then have "query_reply m1 ex = Some (m', out)" "srv1 = srv'"
      using assms(6) unfolding http_server_handle_query_def
      by (auto simp: query_reply_def send_error_parts send_parts split: Option.bind_splits prod.splits if_splits)
    then show ?thesis using that d by simp
  qed
  let ?s1 = "s\<lparr>job_of := (job_of s)(i := Querying ?q),
    conc := step_to (conc s) i (mem_of s) (db_server_metrics_query_started (srv_of s) (kind_of ?q)) (Waiting ?q (clock 0))\<rparr>"
  have s1: "system_step n s ?s1" by (rule system_step.handler [OF handler_step.query [OF assms(1,3,4) refl]])
  obtain s2 where s2: "(system_step n)\<^sup>*\<^sup>* ?s1 s2"
    "s2 = ?s1\<lparr>conc := step_to (conc ?s1) i m1 srv' (Responding ?q ex), ran := ran s2, pos := pos s2\<rparr>"
    "server_status ex = DB_SERVER_EXEC_STATUS_OK \<longrightarrow> ran s2 = ran s @ [?q] \<and> pos s2 i = length (ran s)"
    using execute_steps [of i n ?s1 ?q clock "srv_of s" m1 srv' ex] assms(1) x(1) by auto
  let ?e = "if server_status ex = DB_SERVER_EXEC_STATUS_OK then QueryReply c ?q (begun s2 i) (pos s2 i) out else TimeoutReply c ?q out"
  let ?s3 = "reply_to (s2\<lparr>conc := step_to (conc s2) i (mem_of s2) (srv_of s2) Idle\<rparr>) i c m' ?e"
  have f: "pool s2 = pool s" "job_of s2 = (job_of s)(i := Querying ?q)" "begun s2 = begun s" "sent s2 = sent s"
    "conc s2 = step_to (conc s) i m1 srv' (Responding ?q ex)"
    by (subst s2(2), simp add: step_to_def)+
  have "system_step n s2 ?s3"
    using x(2) assms(1,2) f by (intro system_step.handler handler_step.reply_query) auto
  then have "(system_step n)\<^sup>*\<^sup>* s ?s3" using s1 s2(1) by (meson converse_rtranclp_into_rtranclp rtranclp.rtrancl_into_rtrancl)
  moreover have "handled_to s i c m' srv' ?e ?s3" using f by (simp add: handled_to_def)
  ultimately show ?thesis using s2(3) f(3) x(1) by (intro exI [of _ ?s3] exI [of _ ?e]) auto
qed

lemma handled_to_read:
  "handled_to (s\<lparr>job_of := (job_of s)(i := j), begun := b\<rparr>) i c m srv e s' \<Longrightarrow> handled_to s i c m srv e s'"
  by (simp add: handled_to_def)

lemma reporting_steps:
  assumes "i < n" "workers (pool s) i = Handling c" "job_of s i = Reporting r" "thr (conc s) i = Idle"
    "http_server_send_and_count (case r of None \<Rightarrow> api_build_health_response (mem_of s) zero_response
       | Some mt \<Rightarrow> api_build_metrics_response (mem_of s) mt zero_response) (srv_of s) context = (m', srv', context', out)"
  shows "\<exists>s'. system_step n s s' \<and> handled_to s i c m' srv' (case r of None \<Rightarrow> HealthReply c out | Some mt \<Rightarrow> MetricsReply c mt out) s'"
proof -
  let ?s = "reply_to s i c m' (case r of None \<Rightarrow> HealthReply c out | Some mt \<Rightarrow> MetricsReply c mt out)"
  have "send_built (case r of None \<Rightarrow> api_build_health_response (mem_of s) zero_response
       | Some mt \<Rightarrow> api_build_metrics_response (mem_of s) mt zero_response) = (m', out)" "srv' = srv_of s"
    using assms(5) by (auto simp: send_parts split: prod.splits)
  then have "system_step n s ?s" "srv' = srv_of s"
    using handler_step.reply_health [OF assms(1,2)] handler_step.reply_metrics [OF assms(1,2)] assms(3)
    by (auto intro!: system_step.handler split: option.splits)
  then show ?thesis using assms(4) by (intro exI [of _ ?s]) (simp add: handled_to_def fun_upd_idem)
qed

lemma route_steps:
  assumes "i < n" "workers (pool s) i = Handling c" "job_of s i = Routed request" "thr (conc s) i = Idle" "srv_table (srv_of s) = Some t"
    "http_server_route (mem_of s) (srv_of s) context clock request = Some (m', srv', context', out)"
  shows "\<exists>s' e. (system_step n)\<^sup>*\<^sup>* s s' \<and> handled_to s i c m' srv' e s' \<and> reply_client e = c \<and> reply_out e = out"
proof -
  have upd: "\<exists>s' e. (system_step n)\<^sup>*\<^sup>* s s' \<and> handled_to s i c m' srv' e s' \<and> reply_client e = c \<and> reply_out e = out"
    if "(system_step n)\<^sup>*\<^sup>* s s1" "system_step n s1 s2" "handled_to s1 i c m' srv' e s2" "reply_client e = c" "reply_out e = out"
      "pool s1 = pool s" "thr (conc s1) = thr (conc s)" "sent s1 = sent s" "\<exists>j. job_of s1 = (job_of s)(i := j)" for s1 s2 e
    using that by (intro exI [of _ s2] exI [of _ e]) (auto simp: handled_to_def)
  consider (Health) "is_health request" | (Metrics) "is_metrics request" | (Query) "is_query request"
    | (Error) "\<not> is_health request" "\<not> is_metrics request" "\<not> is_query request" by blast
  then show ?thesis
  proof cases
    case Query
    then have "http_server_handle_query (mem_of s) (srv_of s) context clock (req_query request) = Some (m', srv', context', out)"
      using assms(6) by (auto simp: http_server_route_def is_query_def)
    from query_steps [OF assms(1-3) Query assms(5) this] show ?thesis by blast
  next
    case Health
    let ?s1 = "s\<lparr>job_of := (job_of s)(i := Reporting None), conc := (conc s)\<lparr>csrv := db_server_record_health_request (srv_of s)\<rparr>\<rparr>"
    have s1: "system_step n s ?s1" by (rule system_step.handler [OF handler_step.health [OF assms(1,3) Health]])
    have "http_server_send_and_count (api_build_health_response (mem_of s) zero_response) (srv_of ?s1) context = (m', srv', context', out)"
      using Health assms(6) by (simp add: http_server_route_def is_health_def Let_def)
    then obtain s2 where "system_step n ?s1 s2" "handled_to ?s1 i c m' srv' (HealthReply c out) s2"
      using reporting_steps [OF assms(1), of ?s1 c None "context" m' srv' context' out] assms(2,4) by auto
    then show ?thesis by (rule upd [OF r_into_rtranclp [where r = "system_step n", OF s1]]) auto
  next
    case Metrics
    let ?srv = "db_server_record_metrics_request (srv_of s)"
    let ?s0 = "s\<lparr>job_of := (job_of s)(i := Recorded), conc := (conc s)\<lparr>csrv := ?srv\<rparr>\<rparr>"
    let ?s1 = "?s0\<lparr>job_of := (job_of ?s0)(i := Reporting (Some (db_server_get_metrics (srv_of ?s0))))\<rparr>"
    have "system_step n s ?s0" by (rule system_step.handler [OF handler_step.metrics [OF assms(1,3) Metrics]])
    moreover have "system_step n ?s0 ?s1" using assms(1) by (intro system_step.handler handler_step.snapshot) auto
    ultimately have s1: "(system_step n)\<^sup>*\<^sup>* s ?s1" by (meson converse_rtranclp_into_rtranclp r_into_rtranclp)
    have "http_server_send_and_count (api_build_metrics_response (mem_of s) (db_server_get_metrics ?srv) zero_response) ?srv context =
        (m', srv', context', out)"
      using Metrics assms(6) by (simp add: http_server_route_def is_metrics_def Let_def)
    then obtain s2 where "system_step n ?s1 s2" "handled_to ?s1 i c m' srv' (MetricsReply c (db_server_get_metrics ?srv) out) s2"
      using reporting_steps [OF assms(1), of ?s1 c "Some (db_server_get_metrics ?srv)" "context" m' srv' context' out] assms(2,4) by auto
    then show ?thesis by (rule upd [OF s1]) auto
  next
    case Error
    have "\<exists>code ty msg. route_error request = Rejected code ty msg" by (simp add: route_error_def)
    then obtain code ty msg where e: "route_error request = Rejected code ty msg" by blast
    let ?s1 = "s\<lparr>job_of := (job_of s)(i := route_error request)\<rparr>"
    have s1: "system_step n s ?s1" by (rule system_step.handler [OF handler_step.reject [OF assms(1,3) Error]])
    have "http_server_route (mem_of s) (srv_of s) context clock request =
        http_server_send_error_and_count (mem_of s) (srv_of s) context code ty msg"
      using Error e unfolding http_server_route_def is_health_def is_metrics_def is_query_def route_error_def
      by (simp only: if_False simp_thms) (auto split: if_splits)
    then obtain s2 where "system_step n ?s1 s2" "handled_to ?s1 i c m' srv' (ErrorReply c code ty msg out) s2"
      using error_steps [OF assms(1), of ?s1 c code ty msg "context" m' srv' context' out] assms(2,4,6) e by auto
    then show ?thesis by (rule upd [OF r_into_rtranclp [where r = "system_step n", OF s1]]) auto
  qed
qed

lemma handler_steps:
  assumes "i < n" "workers (pool s) i = Handling c" "job_of s i = Unread" "thr (conc s) i = Idle" "srv_table (srv_of s) = Some t"
    "http_server_handle_client (mem_of s) (srv_of s) context clock events = Some (m', srv', context', out)"
  shows "\<exists>s' e. (system_step n)\<^sup>*\<^sup>* s s' \<and> handled_to s i c m' srv' e s' \<and> reply_client e = c \<and> reply_out e = out"
proof -
  have "\<exists>j. read_job events = Some j" using assms(6)
    by (auto simp: http_server_handle_client_def read_job_def split: sum.splits Option.bind_splits)
  then obtain j where j: "read_job events = Some j" by blast
  let ?s1 = "s\<lparr>job_of := (job_of s)(i := j), begun := (begun s)(i := length (ran s))\<rparr>"
  have s1: "system_step n s ?s1" by (rule system_step.handler [OF handler_step.read [OF assms(1-3) j]])
  consider (Bad) msg where "j = Rejected 400 ''malformed_http'' msg"
      "http_server_send_error_and_count (mem_of s) (srv_of s) context 400 ''malformed_http'' msg = Some (m', srv', context', out)"
    | (Good) request where "j = Routed request" "http_server_route (mem_of s) (srv_of s) context clock request = Some (m', srv', context', out)"
    using j assms(6) unfolding http_server_handle_client_def read_job_def
    by (auto split: sum.splits Option.bind_splits)
  then have "\<exists>s' e. (system_step n)\<^sup>*\<^sup>* ?s1 s' \<and> handled_to ?s1 i c m' srv' e s' \<and> reply_client e = c \<and> reply_out e = out"
  proof cases
    case Bad
    then obtain s2 where "system_step n ?s1 s2" "handled_to ?s1 i c m' srv' (ErrorReply c 400 ''malformed_http'' msg out) s2"
      using error_steps [OF assms(1), of ?s1 c 400 "''malformed_http''" msg "context" m' srv' context' out] assms(2,4) by auto
    then show ?thesis by (intro exI [of _ s2] exI [of _ "ErrorReply c 400 ''malformed_http'' msg out"]) auto
  next
    case Good
    then show ?thesis using route_steps [OF assms(1), of ?s1 c request t "context" clock m' srv' context' out] assms(2,4,5) by simp
  qed
  then obtain s' e where s': "(system_step n)\<^sup>*\<^sup>* ?s1 s'" "handled_to ?s1 i c m' srv' e s'" "reply_client e = c" "reply_out e = out" by blast
  have "(system_step n)\<^sup>*\<^sup>* s s'" by (rule converse_rtranclp_into_rtranclp [of "system_step n", OF s1 s'(1)])
  then show ?thesis using handled_to_read [OF s'(2)] s'(3,4) by blast
qed

section \<open>Reachable states\<close>

lemma system_inv_init: "system_init opts m s \<Longrightarrow> system_inv n s"
proof -
  assume a: "system_init opts m s"
  then have c: "live_mem m" "nodes m = Map.empty" "recs m = Map.empty \<and> blocks m = {}" "thr (conc s) = (\<lambda>_. Idle)"
    "ran s = []" "sent s = []" "begun s = (\<lambda>_. 0)" "job_of s = (\<lambda>_. Unread)" by (simp_all add: system_init_def db_conc_init_def)
  obtain cfg where "db_server_init_with_config m cfg True True = (mem_of s, Some (srv_of s))" using a by (auto simp: system_init_def db_conc_init_def)
  from init_store [OF c(1-3) this] have "stored s" using c(5) by (auto simp: stored_def rows_at_def)
  then show ?thesis using c by (simp add: system_inv_def thread_ok_def once_def taken_def)
qed

lemma system_inv_reach: "(system_step n)\<^sup>*\<^sup>* s s' \<Longrightarrow> system_inv n s \<Longrightarrow> system_inv n s'"
  by (induction rule: rtranclp_induct) (auto intro: system_inv_step)

text \<open>A worker that has read a request still has its client; when all workers have left, every statement that ran belongs to a reply.\<close>

definition busy :: "nat \<Rightarrow> http_system \<Rightarrow> bool" where
  "busy n s \<longleftrightarrow> (\<forall>i<n. job_of s i \<noteq> Unread \<longrightarrow> (\<exists>c. workers (pool s) i = Handling c))"

lemma pool_keeps_clients:
  assumes "pool_step n p p'" "closed p' = closed p" "workers p i = Handling c"
  shows "workers p' i = Handling c"
  using assms
proof cases
  case worker
  then show ?thesis using assms(2,3) by cases auto
qed (auto simp: wake_all_def)

lemma busy_step: "system_step n s s' \<Longrightarrow> busy n s \<Longrightarrow> busy n s'"
proof (induction rule: system_step.induct)
  case (handler s s')
  then show ?case by cases (auto simp: busy_def served_def)
next
  case (threads s p)
  then show ?case using pool_keeps_clients [OF threads(1,2)] by (auto simp: busy_def)
qed (auto simp: busy_def)

lemma busy_reach: "(system_step n)\<^sup>*\<^sup>* s s' \<Longrightarrow> busy n s \<Longrightarrow> busy n s'"
  by (induction rule: rtranclp_induct) (auto intro: busy_step)

lemma all_answered:
  assumes "system_inv n s" "busy n s" "joined n (pool s)"
  shows "set (taken s) = {..<length (ran s)}"
proof -
  have "thr (conc s) i = Idle" if "i < n" for i
  proof -
    have "job_of s i = Unread" using assms(2,3) that by (fastforce simp: busy_def joined_def)
    then show ?thesis using assms(1) that idle_unless_querying by (auto simp: system_inv_def)
  qed
  then have "\<not> active s i" if "i < n" for i using that by simp
  then have "k \<in> set (taken s)" if "k < length (ran s)" for k using assms(1) that by (auto simp: system_inv_def once_def)
  moreover have "k < length (ran s)" if k: "k \<in> set (taken s)" for k
  proof -
    obtain e where "e \<in> set (sent s)" "k \<in> set (reply_pos e)" using k by (auto simp: taken_def)
    then show ?thesis using assms(1) sent_pos [of s e k] by (simp add: system_inv_def)
  qed
  ultimately show ?thesis by auto
qed

text \<open>What is proved of the worker pool and of the database server holds for their parts of the system.\<close>

lemma system_conc:
  assumes "system_step n s s'" "system_inv n s"
  shows "(db_step n)\<^sup>*\<^sup>* (conc s) (conc s')"
  using assms(1)
proof cases
  case handler
  have "\<forall>i<n. \<forall>r. job_of s i = Routed r \<longrightarrow> thr (conc s) i = Idle"
    using assms(2) idle_unless_querying by (auto simp: system_inv_def)
  then show ?thesis using handler_conc [OF handler] assms(2) stored_live by (simp add: system_inv_def)
next
  case (statement i q m srv ex)
  then show ?thesis by (auto intro!: db_step.query query_step.run)
next
  case (database c')
  then show ?thesis by (auto intro: db_step.query)
next
  case (refuse c q m out)
  have "stored s" using assms(2) by (simp add: system_inv_def)
  then have "quiet (mem_of s) m" using refuse(5) by (intro reply_quiet(1) stored_live)
  then have "db_step n (conc s) ((conc s)\<lparr>cmem := m\<rparr>)" by (rule db_step.allocate)
  moreover have "db_step n ((conc s)\<lparr>cmem := m\<rparr>) (conc s')" using db_step.queue_full [of n "(conc s)\<lparr>cmem := m\<rparr>"] refuse(1) by simp
  ultimately show ?thesis by (auto intro: rtranclp.rtrancl_into_rtrancl)
qed auto

lemma system_projects:
  assumes "(system_step n)\<^sup>*\<^sup>* s s'" "system_inv n s"
  shows "(pool_step n)\<^sup>*\<^sup>* (pool s) (pool s') \<and> (db_step n)\<^sup>*\<^sup>* (conc s) (conc s')"
  using assms(1)
proof (induction rule: rtranclp_induct)
  case (step y z)
  then show ?case using system_pool [OF step.hyps(2)] system_conc [OF step.hyps(2)] system_inv_reach [OF step.hyps(1) assms(2)]
    by (meson rtranclp_trans)
qed simp

lemma sent_closed:
  assumes "(system_step n)\<^sup>*\<^sup>* s s'" "map reply_client (sent s) = closed (pool s)"
  shows "map reply_client (sent s') = closed (pool s')"
  using assms
proof (induction rule: rtranclp_induct)
  case (step y z)
  from step.hyps(2) step.IH [OF step.prems] show ?case
    by (induction rule: system_step.induct) (auto elim!: handler_step.cases simp: served_def split: if_splits)
qed simp

section \<open>A query alone\<close>

lemma asks_read:
  assumes "asks events q"
  shows "\<exists>request. read_job events = Some (Routed request) \<and> is_query request \<and> req_query request = q"
proof -
  obtain hs ks pieces later where h: "events = map Data pieces @ later" "\<forall>l \<in> set (hs @ ks). other_header l" "json_plain q" "length q < 1024"
    "length (query_request hs ks q) < HTTP_SERVER_REQUEST_BUFFER_SIZE" "concat pieces = query_request hs ks q" "[] \<notin> set pieces"
    using assms unfolding asks_def by blast
  then have ne: "\<forall>c \<in> set pieces. c \<noteq> []" "pieces \<noteq> []" by (auto simp: query_request_def request_lines_def)
  have "http_server_read_request events HTTP_SERVER_REQUEST_BUFFER_SIZE = Inr (query_request hs ks q)"
    using read_request_pieces [OF h(2,3,5), of "[]" pieces None later] h(1,6) ne by (simp add: http_server_read_request_def)
  moreover have "api_parse_http_request (Some (query_request hs ks q @ [NUL])) HTTP_SERVER_REQUEST_BUFFER_SIZE =
    Some (Inr \<lparr>req_method = API_METHOD_POST, req_path = ''/query'', req_query = q, req_content_length = of_nat (length (query_body q))\<rparr>)"
    by (rule parse_query_request [OF h(2-5)]) simp
  ultimately show ?thesis by (simp add: read_job_def is_query_def)
qed

lemma lone_query:
  assumes "system_inv n s" "i < n" "workers (pool s) i = Handling c" "job_of s i = Unread" "rwlock_held (db_lock (srv_of s)) 0 0"
    "asks events q" "int (length (rows_at s (length (ran s)))) + 1 < INT_MAX"
  shows "\<exists>s'. (system_step n)\<^sup>*\<^sup>* s s' \<and> ran s' = ran s @ [q] \<and> sent s' = sent s @
    [QueryReply c q (length (ran s)) (length (ran s)) (Some (reply_text (spec_answer (rows_at s (length (ran s))) q)))]"
proof -
  let ?rs = "rows_at s (length (ran s))"
  obtain t ps where t: "srv_table (srv_of s) = Some t" "store (mem_of s) t ps ?rs" using assms(1) by (auto simp: system_inv_def stored_def)
  obtain request where r: "read_job events = Some (Routed request)" "is_query request" "req_query request = q" using asks_read [OF assms(6)] by blast
  let ?s1 = "s\<lparr>job_of := (job_of s)(i := Routed request), begun := (begun s)(i := length (ran s))\<rparr>"
  have s1: "system_step n s ?s1" by (rule system_step.handler [OF handler_step.read [OF assms(2-4) r(1)]])
  let ?c = "\<lparr>options = options (pool s), completed_responses = 0, http_server_stop_requested = False\<rparr> :: HTTPServerContext"
  obtain m' srv' where h: "http_server_handle_query (mem_of s) (srv_of s) ?c (\<lambda>_. 0) q =
      Some (m', srv', http_server_note_response_complete ?c, Some (reply_text (spec_answer ?rs q)))"
    using query_answered [OF t assms(7,5)] by blast
  obtain m1 t1 r1 where "sql_execute (mem_of s) (Some t) (Some q) = Some (m1, Some t1, r1)" using store_execute [OF t(2) assms(7)] by blast
  from execute_free [OF t(1) assms(5) this]
  obtain srv1 ex where x: "db_server_execute (mem_of s) (srv_of s) (Some q) (\<lambda>_. 0) = Some (m1, srv1, Some ex)"
    "server_status ex = DB_SERVER_EXEC_STATUS_OK" by fastforce
  obtain s' e where s': "(system_step n)\<^sup>*\<^sup>* ?s1 s'" "handled_to ?s1 i c m' srv' e s'" "ran s' = ran s @ [q]"
    "e = QueryReply c q (length (ran s)) (length (ran s)) (Some (reply_text (spec_answer ?rs q)))"
    using query_steps [OF assms(2), of ?s1 c request t ?c "\<lambda>_. 0" m' srv'] assms(3) r(2,3) t(1) h x by auto
  have "(system_step n)\<^sup>*\<^sup>* s s'" by (rule converse_rtranclp_into_rtranclp [of "system_step n", OF s1 s'(1)])
  then show ?thesis using s'(2-4) by (auto simp: handled_to_def)
qed

definition system0 :: http_system where
  "system0 = \<lparr>pool = pool0, conc = conc0, job_of = \<lambda>_. Unread, ran = [], begun = \<lambda>_. 0, pos = \<lambda>_. 0, sent = []\<rparr>"

lemma system0_init: "system_init http_server_options_default db0 system0"
proof -
  have "\<lparr>lock_timeout_ms = opt_lock_timeout_ms http_server_options_default, simulate_read_delay_ms = opt_simulate_read_delay_ms http_server_options_default,
       simulate_write_delay_ms = opt_simulate_write_delay_ms http_server_options_default\<rparr> = db_server_config_default"
    by (simp add: http_server_options_default_def db_server_config_default_def)
  then show ?thesis using pool0_init conc0_init(1) by (simp add: system_init_def system0_def)
qed

text \<open>A client is accepted by the server and taken by its only worker.\<close>

lemma system0_client: "\<exists>s. (system_step 1)\<^sup>*\<^sup>* system0 s \<and> workers (pool s) 0 = Handling 5 \<and>
  s = system0\<lparr>pool := pool s\<rparr>"
proof -
  have q0: "queue_rep (queue pool0) 16 False []" using queue_init_rep [of 16] by (auto simp: pool0_def)
  obtain q1 where q1: "http_request_queue_push (queue pool0) 5 = Some (q1, True)" "queue_rep q1 16 False [5]"
    using rq.push_room [OF q0, of 5] by auto
  obtain q2 where q2: "http_request_queue_pop q1 = Some (q2, 5)" using rq.pop_first [OF q1(2)] by auto
  let ?p1 = "pool0\<lparr>queue := q1, accepted := accepted pool0 @ [5]\<rparr>"
  let ?p2 = "?p1\<lparr>queue := q2, workers := (workers ?p1)(0 := Handling 5)\<rparr>"
  have "pool_step 1 pool0 ?p1" using q1(1) by (intro pool_step.push_quiet) (auto simp: pool0_def)
  then have "system_step 1 system0 (system0\<lparr>pool := ?p1\<rparr>)" by (intro system_step.threads) (auto simp: system0_def)
  moreover have "worker_step 1 ?p1 ?p2"
    using q2 queue_rep_waits [OF q1(2)] by (intro worker_step.take) (auto simp: pool0_def)
  then have "pool_step 1 ?p1 ?p2" by (rule pool_step.worker)
  then have "system_step 1 (system0\<lparr>pool := ?p1\<rparr>) (system0\<lparr>pool := ?p1\<rparr>\<lparr>pool := ?p2\<rparr>)" by (intro system_step.threads) auto
  ultimately have "(system_step 1)\<^sup>*\<^sup>* system0 (system0\<lparr>pool := ?p1\<rparr>\<lparr>pool := ?p2\<rparr>)" by (meson converse_rtranclp_into_rtranclp r_into_rtranclp)
  then show ?thesis by (intro exI [of _ "system0\<lparr>pool := ?p1\<rparr>\<lparr>pool := ?p2\<rparr>"]) simp
qed

section \<open>Linearizability\<close>

lemma system_linearizable:
  assumes "system_init opts m s0" "(system_step n)\<^sup>*\<^sup>* s0 s"
  shows "(\<exists>t ps. srv_table (csrv (conc s)) = Some t \<and> table_rep (cmem (conc s)) t ps (foldl spec_rows [] (ran s))) \<and>
    (\<forall>c q b k out. QueryReply c q b k out \<in> set (sent s) \<longrightarrow> b \<le> k \<and> k < length (ran s) \<and> ran s ! k = q \<and>
       out = Some (reply_text (spec_answer (foldl spec_rows [] (take k (ran s))) q))) \<and>
    distinct (taken s) \<and> map reply_client (sent s) = closed (pool s) \<and>
    (\<forall>e \<in> set (sent s). reply_out e = Some (reply_due (ran s) e))"
proof -
  have inv: "system_inv n s" by (rule system_inv_reach [OF assms(2) system_inv_init [OF assms(1)]])
  have "closed (pool s0) = []" "sent s0 = []" using assms(1) by (simp_all add: system_init_def pool_init_def)
  then have "map reply_client (sent s) = closed (pool s)" using sent_closed [OF assms(2)] by simp
  moreover have "\<exists>t ps. srv_table (srv_of s) = Some t \<and> table_rep (mem_of s) t ps (foldl spec_rows [] (ran s))"
    using inv by (auto simp: system_inv_def stored_def store_def rows_at_def)
  moreover have "sent_ok s (QueryReply c q b k out)" if "QueryReply c q b k out \<in> set (sent s)" for c q b k out
    using inv that by (simp only: system_inv_def)
  moreover have "reply_out e = Some (reply_due (ran s) e)" if "e \<in> set (sent s)" for e
    using inv that by (auto simp: system_inv_def sent_ok_def)
  moreover have "distinct (taken s)" using inv by (simp add: system_inv_def once_def)
  ultimately show ?thesis using sent_okE unfolding rows_at_def by blast
qed

section \<open>Properties\<close>



text \<open>
  C38. The steps are those of the code: when the actions of a worker are not interleaved with others, they lead from reading the request to the
  closed connection, and the memory, the database server and the reply are those of the function
  \<^verbatim>\<open>http_server_handle_client\<close>, for every request, malformed ones, errors and time-outs included.
\<close>

theorem http_handler_steps:
  assumes "i < n" "workers (pool s) i = Handling c" "job_of s i = Unread" "thr (conc s) i = Idle" "srv_table (csrv (conc s)) = Some t"
    "http_server_handle_client (cmem (conc s)) (csrv (conc s)) context clock events = Some (m', srv', context', out)"
  shows "\<exists>s' e. (system_step n)\<^sup>*\<^sup>* s s' \<and> cmem (conc s') = m' \<and> csrv (conc s') = srv' \<and> sent s' = sent s @ [e] \<and>
    reply_client e = c \<and> reply_out e = out \<and> closed (pool s') = closed (pool s) @ [c]"
  using handler_steps [OF assms] by (auto simp: handled_to_def served_def)

theorem http_handler_steps_witness:
  "\<exists>s s' e. (system_step 1)\<^sup>*\<^sup>* system0 s \<and> (system_step 1)\<^sup>*\<^sup>* s s' \<and> sent s' = sent s @ [e] \<and> closed (pool s') = closed (pool s) @ [5] \<and>
     reply_out e = Some (response_text 200 json_content_type (insert_text 1))"
proof -
  let ?c = "\<lparr>options = http_server_options_default, completed_responses = 0, http_server_stop_requested = False\<rparr> :: HTTPServerContext"
  let ?e = "[Data (query_request [] [] insert_query)]"
  obtain s where s: "(system_step 1)\<^sup>*\<^sup>* system0 s" "workers (pool s) 0 = Handling 5" "s = system0\<lparr>pool := pool s\<rparr>" using system0_client by blast
  have f: "conc s = conc0" "job_of s = (\<lambda>_. Unread)" by (subst s(3), simp add: system0_def)+
  have "db_server_init_with_config db0 (Some db_server_config_default) True True = (cmem conc0, Some (csrv conc0))" "thr conc0 = (\<lambda>_. Idle)"
    using conc0_init(1) by (simp_all add: db_conc_init_def)
  then obtain t where t: "srv_table (csrv conc0) = Some t" "store (cmem conc0) t [] []" "rwlock_held (db_lock (csrv conc0)) 0 0" "thr conc0 0 = Idle"
    using init_store [OF db0_live] by fastforce
  obtain m' srv' context' where h: "http_server_handle_client (cmem conc0) (csrv conc0) ?c (\<lambda>_. 0) ?e =
      Some (m', srv', context', Some (reply_text (spec_answer [] insert_query)))"
    using query_answered [OF t(1,2) _ t(3), of ?c "\<lambda>_. 0" insert_query] unfolding asks_handled [OF insert_asks] by auto
  have "reply_text (spec_answer [] insert_query) = response_text 200 json_content_type (insert_text 1)"
    using two_queries(2) by simp
  then show ?thesis using http_handler_steps [OF _ s(2), of 1 t ?c "\<lambda>_. 0" ?e m' srv' context'] s(1) f t(1,4) h by fastforce
qed

end
