(* ===== verification/OsResources.thy ===== *)
theory OsResources
  imports CPrelude
begin

text \<open>
  The operating system objects of the server: the mutexes, the condition variable, the readers-writer lock, threads, the listening socket and
  the arrays that \<^verbatim>\<open>src/server/platform.c\<close> and \<^verbatim>\<open>src/server/http_server.c\<close> create and destroy. The state \<open>os\<close> has the objects that are
  live and an oracle that tells which of the calls succeed. Initialising an object that is live, and destroying one that is not, is
  undefined.
\<close>

datatype resource =
    DbLock
  | MetricsMutex
  | StateMutex
  | QueueItems
  | QueueMutex
  | QueueCond
  | WorkersArray
  | WorkerThread nat
  | ListenSocket

record os =
  os_ok :: "nat \<Rightarrow> bool"
  os_calls :: nat
  live :: "resource set"

text \<open>A call of the system that reports success or failure.\<close>

definition os_try :: "os \<Rightarrow> os \<times> bool" where
  "os_try os = (os\<lparr>os_calls := Suc (os_calls os)\<rparr>, os_ok os (os_calls os))"

definition acquire :: "os \<Rightarrow> resource \<Rightarrow> (os \<times> bool) option" where
  "acquire os r =
     (if r \<in> live os then None
      else case os_try os of (os, ok) \<Rightarrow> Some (if ok then (os\<lparr>live := insert r (live os)\<rparr>, True) else (os, False)))"

definition release :: "os \<Rightarrow> resource \<Rightarrow> os option" where
  "release os r = (if r \<in> live os then Some (os\<lparr>live := live os - {r}\<rparr>) else None)"

section \<open>The platform functions\<close>

definition platform_mutex_init :: "os \<Rightarrow> resource \<Rightarrow> (os \<times> bool) option" where
  "platform_mutex_init os mutex = acquire os mutex"

definition platform_mutex_destroy :: "os \<Rightarrow> resource \<Rightarrow> os option" where
  "platform_mutex_destroy os mutex = release os mutex"

definition platform_cond_init :: "os \<Rightarrow> resource \<Rightarrow> (os \<times> bool) option" where
  "platform_cond_init os cond = acquire os cond"

definition platform_cond_destroy :: "os \<Rightarrow> resource \<Rightarrow> os option" where
  "platform_cond_destroy os cond = release os cond"

definition platform_rwlock_create :: "os \<Rightarrow> resource \<Rightarrow> (os \<times> bool) option" where
  "platform_rwlock_create os lock = acquire os lock"

definition platform_rwlock_destroy :: "os \<Rightarrow> resource \<Rightarrow> os option" where
  "platform_rwlock_destroy os lock = release os lock"

definition platform_thread_create :: "os \<Rightarrow> nat \<Rightarrow> (os \<times> bool) option" where
  "platform_thread_create os i = acquire os (WorkerThread i)"

text \<open>A join returns when the thread has ended, and frees it.\<close>

definition platform_thread_join :: "os \<Rightarrow> (nat \<Rightarrow> bool) \<Rightarrow> nat \<Rightarrow> os option" where
  "platform_thread_join os ended i = (if ended i then release os (WorkerThread i) else None)"

section \<open>Laws\<close>

lemma acquire_cases:
  assumes "r \<notin> live os"
  obtains (Ok) os' where "acquire os r = Some (os', True)" "live os' = insert r (live os)"
  | (Fail) os' where "acquire os r = Some (os', False)" "live os' = live os"
proof -
  let ?o = "os\<lparr>os_calls := Suc (os_calls os)\<rparr>"
  show ?thesis
  proof (cases "os_ok os (os_calls os)")
    case True
    then show ?thesis using Ok [of "?o\<lparr>live := insert r (live ?o)\<rparr>"] assms by (simp add: acquire_def os_try_def)
  next
    case False
    then show ?thesis using Fail [of ?o] assms by (simp add: acquire_def os_try_def)
  qed
qed

lemma release_live: "r \<in> live os \<Longrightarrow> \<exists>os'. release os r = Some os' \<and> live os' = live os - {r}"
  by (simp add: release_def)

lemma os_try_live: "os_try os = (os', ok) \<Longrightarrow> live os' = live os"
  by (auto simp: os_try_def)

lemmas platform_defs =
  platform_mutex_init_def platform_mutex_destroy_def platform_cond_init_def platform_cond_destroy_def platform_rwlock_create_def
  platform_rwlock_destroy_def platform_thread_create_def

end
