(* ===== verification/ServerRun.thy ===== *)
theory ServerRun
  imports ServerSystem OsResources
begin

text \<open>
  The life of the HTTP server: \<^verbatim>\<open>http_server_run\<close> of \<^verbatim>\<open>src/server/http_server.c\<close> with all its exits. Every object of the operating system is
  acquired and released in the order of the code, and each acquisition can fail. What the threads do is given by a schedule: the steps of the
  system that have happened when the main thread goes on, and those until the joins return, if they do. It is
  proved that no exit uses or destroys an object that is not initialised and that each of them releases everything,
  the memory of the table included.
\<close>

section \<open>Parts\<close>

text \<open>The objects around \<open>db_server_init_with_config\<close> and \<open>db_server_destroy\<close>.\<close>

definition db_server_setup :: "os \<Rightarrow> db_mem \<Rightarrow> DBServerConfig option \<Rightarrow> (os \<times> db_mem \<times> DBServer option) option" where
  "db_server_setup os m cfg = do {
     (os, lock_ok) \<leftarrow> platform_rwlock_create os DbLock;
     if \<not> lock_ok then Some (os, db_server_init_with_config m cfg False False)
     else do {
       (os, mutex_ok) \<leftarrow> platform_mutex_init os MetricsMutex;
       if \<not> mutex_ok then do {
         os \<leftarrow> platform_rwlock_destroy os DbLock;
         Some (os, db_server_init_with_config m cfg True False)
       } else
         (case db_server_init_with_config m cfg True True of
            (m, Some server) \<Rightarrow> Some (os, m, Some server)
          | (m, None) \<Rightarrow> do {
              os \<leftarrow> platform_mutex_destroy os MetricsMutex;
              os \<leftarrow> platform_rwlock_destroy os DbLock;
              Some (os, m, None)
            })
     }
   }"

definition db_server_teardown :: "os \<Rightarrow> db_mem \<Rightarrow> DBServer \<Rightarrow> (os \<times> db_mem) option" where
  "db_server_teardown os m server = do {
     (m, server) \<leftarrow> db_server_destroy m server;
     os \<leftarrow> platform_mutex_destroy os MetricsMutex;
     os \<leftarrow> platform_rwlock_destroy os DbLock;
     Some (os, m)
   }"

text \<open>The objects of the request queue.\<close>

definition http_request_queue_setup :: "os \<Rightarrow> 64 word \<Rightarrow> (os \<times> HTTPRequestQueue option) option" where
  "http_request_queue_setup os slots =
     (if slots = 0 then Some (os, None)
      else do {
        (os, malloc_ok) \<leftarrow> acquire os QueueItems;
        if \<not> malloc_ok then Some (os, http_request_queue_init slots False False False)
        else do {
          (os, mutex_ok) \<leftarrow> platform_mutex_init os QueueMutex;
          if \<not> mutex_ok then do {
            os \<leftarrow> release os QueueItems;
            Some (os, http_request_queue_init slots True False False)
          } else do {
            (os, cond_ok) \<leftarrow> platform_cond_init os QueueCond;
            if \<not> cond_ok then do {
              os \<leftarrow> platform_mutex_destroy os QueueMutex;
              os \<leftarrow> release os QueueItems;
              Some (os, http_request_queue_init slots True True False)
            } else Some (os, http_request_queue_init slots True True True)
          }
        }
      })"

definition http_request_queue_destroy :: "os \<Rightarrow> os option" where
  "http_request_queue_destroy os = do {
     os \<leftarrow> platform_cond_destroy os QueueCond;
     os \<leftarrow> platform_mutex_destroy os QueueMutex;
     release os QueueItems
   }"

definition http_server_install_signal_handlers :: "os \<Rightarrow> os \<times> bool" where
  "http_server_install_signal_handlers os = (case os_try os of (os, ok) \<Rightarrow> if ok then os_try os else (os, False))"

text \<open>The socket, bound and listening, or none; setting its option is not checked.\<close>

definition http_server_create_listen_socket :: "os \<Rightarrow> (os \<times> bool) option" where
  "http_server_create_listen_socket os = do {
     (os, ok) \<leftarrow> acquire os ListenSocket;
     if \<not> ok then Some (os, False)
     else case os_try os of (os, bind_ok) \<Rightarrow>
       if \<not> bind_ok then do { os \<leftarrow> release os ListenSocket; Some (os, False) }
       else case os_try os of (os, listen_ok) \<Rightarrow>
         if \<not> listen_ok then do { os \<leftarrow> release os ListenSocket; Some (os, False) }
         else Some (os, True)
   }"

text \<open>The time that \<^verbatim>\<open>http_server_socket_wait_for_read\<close> gives to \<^verbatim>\<open>select\<close>, in seconds and microseconds.\<close>

definition http_server_select_timeout :: "32 word \<Rightarrow> 32 word \<times> 64 word" where
  "http_server_select_timeout timeout_ms = (timeout_ms div 1000, ucast (timeout_ms mod 1000) * 1000)"

text \<open>
  The loop that starts the workers, from \<open>worker_index\<close> up to \<open>worker_count\<close>; the array has \<open>room\<close> elements. The result is the number of workers that were
  started.
\<close>

function start_workers :: "os \<Rightarrow> nat \<Rightarrow> nat \<Rightarrow> nat \<Rightarrow> (os \<times> nat) option" where
  "start_workers os room worker_index worker_count =
     (if worker_index < worker_count then
        if room \<le> worker_index then None
        else case platform_thread_create os worker_index of
          None \<Rightarrow> None
        | Some (os, ok) \<Rightarrow> if ok then start_workers os room (Suc worker_index) worker_count else Some (os, worker_index)
      else Some (os, worker_index))"
  by pat_completeness auto
termination
  by (relation "measure (\<lambda>(os, room, i, n). n - i)") auto

declare start_workers.simps [simp del]

fun join_workers :: "os \<Rightarrow> (nat \<Rightarrow> bool) \<Rightarrow> nat list \<Rightarrow> os option" where
  "join_workers os ended [] = Some os"
| "join_workers os ended (i # is) = do { os \<leftarrow> platform_thread_join os ended i; join_workers os ended is }"

section \<open>The server\<close>

text \<open>The system when the workers are started.\<close>

definition system_start :: "HTTPServerOptions \<Rightarrow> db_mem \<Rightarrow> DBServer \<Rightarrow> HTTPRequestQueue \<Rightarrow> http_system" where
  "system_start opts m server q =
     \<lparr>pool = \<lparr>options = opts, completed_responses = 0, http_server_stop_requested = False, queue = q, workers = \<lambda>_. Popping,
        listening = True, accepted = [], closed = []\<rparr>,
      conc = \<lparr>cmem = m, csrv = server, thr = \<lambda>_. Idle\<rparr>, job_of = \<lambda>_. Unread, ran = [], begun = \<lambda>_. 0, pos = \<lambda>_. 0, sent = []\<rparr>"

text \<open>
  A schedule: \<open>early n s\<close> is the system after the steps that \<open>n\<close> workers have made before the main thread goes on; \<open>finish n s\<close> is the system when all of
  them have ended, or \<open>None\<close> when this never happens.
\<close>

record schedule =
  early :: "nat \<Rightarrow> http_system \<Rightarrow> http_system"
  finish :: "nat \<Rightarrow> http_system \<Rightarrow> http_system option"

datatype run_result =
    Blocked
  | Returned os db_mem int

definition ended :: "http_system \<Rightarrow> nat \<Rightarrow> bool" where
  "ended s i = (workers (pool s) i = Exited)"

text \<open>What every exit after the queue was initialised does last.\<close>

definition http_server_cleanup :: "os \<Rightarrow> db_mem \<Rightarrow> DBServer \<Rightarrow> int \<Rightarrow> run_result option" where
  "http_server_cleanup os m server code = do {
     os \<leftarrow> http_request_queue_destroy os;
     os \<leftarrow> platform_mutex_destroy os StateMutex;
     (os, m) \<leftarrow> db_server_teardown os m server;
     Some (Returned os m code)
   }"

text \<open>The joins in the given order, and the clean-up after them.\<close>

definition http_server_join_all :: "os \<Rightarrow> nat list \<Rightarrow> bool \<Rightarrow> http_system option \<Rightarrow> int \<Rightarrow> run_result option" where
  "http_server_join_all os order has_socket final code =
     (case final of
        None \<Rightarrow> Some Blocked
      | Some s \<Rightarrow> do {
          os \<leftarrow> join_workers os (ended s) order;
          os \<leftarrow> (if has_socket then release os ListenSocket else Some os);
          os \<leftarrow> release os WorkersArray;
          http_server_cleanup os (cmem (conc s)) (csrv (conc s)) code
        })"

definition http_server_threads ::
  "os \<Rightarrow> HTTPServerOptions \<Rightarrow> db_mem \<Rightarrow> DBServer \<Rightarrow> HTTPRequestQueue \<Rightarrow> schedule \<Rightarrow> run_result option" where
  "http_server_threads os opts m server q sched =
     (let n = unat (opt_worker_count opts); s = system_start opts m server q
      in do {
        (os, started) \<leftarrow> start_workers os (unat (8 * opt_worker_count opts) div 8) 0 n;
        if started < n then
          (let s = early sched started s
           in http_server_join_all os (rev [0..<started]) False (finish sched started (s\<lparr>pool := pool_abort (pool s)\<rparr>)) 1)
        else do {
          (os, has_socket) \<leftarrow> http_server_create_listen_socket os;
          if \<not> has_socket then
            (let s = early sched n s; p = http_server_request_stop (pool s);
                 p = p\<lparr>listening := False, queue := http_request_queue_shutdown (queue p), workers := wake_all (workers p)\<rparr>
             in http_server_join_all os [0..<n] False (finish sched n (s\<lparr>pool := p\<rparr>)) 1)
          else http_server_join_all os [0..<n] True (finish sched n (early sched n s)) 0
        }
      })"

text \<open>From the mutex of the counter on; the database server is initialised.\<close>

definition http_server_serve :: "os \<Rightarrow> db_mem \<Rightarrow> DBServer \<Rightarrow> HTTPServerOptions \<Rightarrow> schedule \<Rightarrow> run_result option" where
  "http_server_serve os m server opts sched = do {
     (os, ok) \<leftarrow> platform_mutex_init os StateMutex;
     if \<not> ok then do {
       (os, m) \<leftarrow> db_server_teardown os m server;
       Some (Returned os m 1)
     } else do {
       (os, created) \<leftarrow> http_request_queue_setup os (opt_queue_capacity opts);
       (case created of
          None \<Rightarrow> do {
            os \<leftarrow> platform_mutex_destroy os StateMutex;
            (os, m) \<leftarrow> db_server_teardown os m server;
            Some (Returned os m 1)
          }
        | Some q \<Rightarrow> do {
            (os, ok) \<leftarrow> acquire os WorkersArray;
            if \<not> ok then http_server_cleanup os m server 1
            else http_server_threads os opts m server q sched
          })
     }
   }"

definition http_server_run :: "os \<Rightarrow> db_mem \<Rightarrow> HTTPServerOptions option \<Rightarrow> schedule \<Rightarrow> run_result option" where
  "http_server_run os m given sched =
     (let opts = (case given of None \<Rightarrow> http_server_options_default | Some x \<Rightarrow> x)
      in if opt_worker_count opts = 0 \<or> opt_queue_capacity opts = 0 then Some (Returned os m 1)
         else case http_server_install_signal_handlers os of (os, ok) \<Rightarrow>
           if \<not> ok then Some (Returned os m 1)
           else do {
             (os, m, created) \<leftarrow> db_server_setup os m (Some \<lparr>lock_timeout_ms = opt_lock_timeout_ms opts,
               simulate_read_delay_ms = opt_simulate_read_delay_ms opts, simulate_write_delay_ms = opt_simulate_write_delay_ms opts\<rparr>);
             case created of
               None \<Rightarrow> Some (Returned os m 1)
             | Some server \<Rightarrow> http_server_serve os m server opts sched
           })"

section \<open>Every exit\<close>

text \<open>The system was called from \<open>os0\<close> up to \<open>os\<close>; \<open>ok\<close> tells whether all these calls succeeded.\<close>

definition went :: "os \<Rightarrow> os \<Rightarrow> bool \<Rightarrow> bool" where
  "went os0 os ok \<longleftrightarrow> os_ok os = os_ok os0 \<and> os_calls os0 \<le> os_calls os \<and> ok = (\<forall>k \<in> {os_calls os0 ..< os_calls os}. os_ok os0 k)"

lemma went_refl [simp]: "went os os True"
  by (simp add: went_def)

lemma went_trans: "went a b True \<Longrightarrow> went b c ok \<Longrightarrow> went a c ok"
  by (force simp: went_def)

lemma went_live [simp]: "went a (b\<lparr>live := L\<rparr>) ok = went a b ok"
  by (simp add: went_def)

lemma try_went: "os_try os = (os', ok) \<Longrightarrow> live os' = live os \<and> went os os' ok"
  by (auto simp: os_try_def went_def)

lemma acquire_went:
  assumes "r \<notin> live os"
  shows "\<exists>os' ok. acquire os r = Some (os', ok) \<and> live os' = (if ok then insert r (live os) else live os) \<and> went os os' ok"
proof -
  obtain os1 ok where t: "os_try os = (os1, ok)" by fastforce
  then show ?thesis using assms try_went [OF t] by (cases ok) (auto simp: acquire_def)
qed

lemmas release_simps = platform_defs release_def platform_thread_join_def

lemma db_setup:
  assumes "live os = {}" "live_mem m" "nodes m = Map.empty" "recs m = Map.empty \<and> blocks m = {}"
  shows "\<exists>os' m' created ok. db_server_setup os m cfg = Some (os', m', created) \<and> went os os' ok \<and>
    (case created of None \<Rightarrow> \<not> ok \<and> live os' = {} \<and> m' = m
     | Some server \<Rightarrow> ok \<and> live os' = {DbLock, MetricsMutex} \<and> db_server_init_with_config m cfg True True = (m', Some server))"
proof -
  obtain os1 b where a: "acquire os DbLock = Some (os1, b)" "live os1 = (if b then {DbLock} else {})" "went os os1 b"
    using acquire_went [of DbLock os] assms(1) by auto
  show ?thesis
  proof (cases b)
    case False
    then show ?thesis using a by (auto simp: db_server_setup_def platform_defs db_server_init_with_config_def)
  next
    case True
    then obtain os2 b2 where c: "acquire os1 MetricsMutex = Some (os2, b2)" "live os2 = (if b2 then {DbLock, MetricsMutex} else {DbLock})" "went os1 os2 b2"
      using acquire_went [of MetricsMutex os1] a(2) by fastforce
    have w: "went os os2 b2" using went_trans [OF _ c(3)] a(3) True by simp
    obtain m1 t where t: "table_create m = (m1, Some t)" using table_create_rep [OF assms(2-4)] by blast
    show ?thesis using a c w True t
      by (cases b2) (auto simp: db_server_setup_def release_simps db_server_init_with_config_def Let_def)
  qed
qed

text \<open>Without memory for the table, the mutex and the lock are destroyed again.\<close>

lemma db_setup_no_table:
  assumes "live os = {}" "snd (table_create m) = None" "nodes m = Map.empty" "recs m = Map.empty \<and> blocks m = {}"
  shows "\<exists>os' m'. db_server_setup os m cfg = Some (os', m', None) \<and> live os' = {} \<and> nodes m' = Map.empty \<and> recs m' = Map.empty \<and> blocks m' = {}"
proof -
  obtain os1 b where a: "acquire os DbLock = Some (os1, b)" "live os1 = (if b then {DbLock} else {})"
    using acquire_went [of DbLock os] assms(1) by auto
  obtain m1 where t: "table_create m = (m1, None)" using assms(2) by (cases "table_create m") simp
  have e: "nodes m1 = Map.empty" "recs m1 = Map.empty" "blocks m1 = {}" using table_create_fails [OF t] assms(3,4) by simp_all
  show ?thesis
  proof (cases b)
    case False
    then show ?thesis using a assms(3,4) by (auto simp: db_server_setup_def platform_defs db_server_init_with_config_def)
  next
    case True
    then obtain os2 b2 where c: "acquire os1 MetricsMutex = Some (os2, b2)" "live os2 = (if b2 then {DbLock, MetricsMutex} else {DbLock})"
      using acquire_went [of MetricsMutex os1] a(2) by fastforce
    show ?thesis using a c True t e assms(3,4)
      by (cases b2) (auto simp: db_server_setup_def release_simps db_server_init_with_config_def Let_def)
  qed
qed

lemma db_teardown:
  assumes "srv_table server = Some t" "table_rep m t ps rs" "DbLock \<in> live os" "MetricsMutex \<in> live os"
  shows "db_server_teardown os m server =
    Some (os\<lparr>live := live os - {MetricsMutex} - {DbLock}\<rparr>, m\<lparr>recs := Map.empty, nodes := Map.empty, blocks := {}\<rparr>)"
  using assms(3,4) assms(1) table_destroy_rep [OF assms(2)] by (simp add: db_server_teardown_def db_server_destroy_def release_simps)

lemma queue_setup:
  assumes "slots \<noteq> 0" "live os = {DbLock, MetricsMutex, StateMutex}"
  shows "\<exists>os' q ok. http_request_queue_setup os slots = Some (os', q) \<and> went os os' ok \<and>
    (case q of None \<Rightarrow> \<not> ok \<and> live os' = live os
     | Some q \<Rightarrow> ok \<and> live os' = {QueueItems, QueueMutex, QueueCond} \<union> live os \<and> http_request_queue_init slots True True True = Some q)"
proof -
  obtain os1 b where a: "acquire os QueueItems = Some (os1, b)" "live os1 = (if b then insert QueueItems (live os) else live os)" "went os os1 b"
    using acquire_went [of QueueItems os] assms(2) by auto
  show ?thesis
  proof (cases b)
    case False
    then show ?thesis using a assms(1) by (auto simp: http_request_queue_setup_def http_request_queue_init_def)
  next
    case b: True
    then obtain os2 b2 where c: "acquire os1 QueueMutex = Some (os2, b2)"
      "live os2 = (if b2 then insert QueueMutex (live os1) else live os1)" "went os1 os2 b2"
      using acquire_went [of QueueMutex os1] a(2) assms(2) by auto
    have w: "went os os2 b2" using went_trans [OF _ c(3)] a(3) b by simp
    show ?thesis
    proof (cases b2)
      case False
      then show ?thesis using a c w b assms by (auto simp: http_request_queue_setup_def http_request_queue_init_def release_simps)
    next
      case True
      then obtain os3 b3 where d: "acquire os2 QueueCond = Some (os3, b3)"
        "live os3 = (if b3 then insert QueueCond (live os2) else live os2)" "went os2 os3 b3"
        using acquire_went [of QueueCond os2] a(2) c(2) b assms(2) by auto
      have "went os os3 b3" using went_trans [OF _ d(3)] w True by simp
      then show ?thesis using a c d b True assms
        by (cases b3) (auto simp: http_request_queue_setup_def http_request_queue_init_def release_simps)
    qed
  qed
qed

lemma socket_setup:
  assumes "ListenSocket \<notin> live os"
  shows "\<exists>os' ok. http_server_create_listen_socket os = Some (os', ok) \<and> went os os' ok \<and>
    live os' = (if ok then insert ListenSocket (live os) else live os)"
proof -
  obtain os1 b where a: "acquire os ListenSocket = Some (os1, b)" "live os1 = (if b then insert ListenSocket (live os) else live os)" "went os os1 b"
    using acquire_went [OF assms] by blast
  obtain os2 b2 where c: "os_try os1 = (os2, b2)" by fastforce
  obtain os3 b3 where d: "os_try os2 = (os3, b3)" by fastforce
  have w: "went os os2 b2" if b using that a(3) try_went [OF c] went_trans [of os os1 os2] by simp
  then have w3: "went os os3 b3" if b b2 using that try_went [OF d] went_trans [of os os2 os3] by simp
  show ?thesis using assms a try_went [OF c] try_went [OF d] w w3
    by (cases b; cases b2; cases b3) (auto simp: http_server_create_listen_socket_def c d release_def)
qed

lemma signals_setup:
  assumes "http_server_install_signal_handlers os = (os', ok)"
  shows "live os' = live os \<and> went os os' ok"
proof -
  obtain os1 b where a: "os_try os = (os1, b)" by fastforce
  obtain os2 b2 where c: "os_try os1 = (os2, b2)" by fastforce
  show ?thesis using assms try_went [OF a] try_went [OF c] went_trans [of os os1 os2]
    by (cases b) (simp_all add: http_server_install_signal_handlers_def a c)
qed

lemma start_all:
  assumes "i \<le> n" "n \<le> room" "\<forall>j. i \<le> j \<longrightarrow> WorkerThread j \<notin> live os"
  shows "\<exists>os' k. start_workers os room i n = Some (os', k) \<and> i \<le> k \<and> k \<le> n \<and> went os os' (k = n) \<and>
    live os' = live os \<union> WorkerThread ` {i..<k}"
  using assms
proof (induction os room i n rule: start_workers.induct)
  case (1 os room i n)
  show ?case
  proof (cases "i < n")
    case False
    then show ?thesis using "1.prems"(1) by (subst start_workers.simps) simp
  next
    case True
    obtain os1 b where a: "acquire os (WorkerThread i) = Some (os1, b)" "live os1 = (if b then insert (WorkerThread i) (live os) else live os)"
      "went os os1 b" using acquire_went [of "WorkerThread i" os] "1.prems"(3) by blast
    show ?thesis
    proof (cases b)
      case False
      then show ?thesis using True a "1.prems" by (subst start_workers.simps) (auto simp: platform_defs)
    next
      case b: True
      have "\<forall>j. Suc i \<le> j \<longrightarrow> WorkerThread j \<notin> live os1" using a(2) "1.prems"(3) by auto
      then obtain os' k where k: "start_workers os1 room (Suc i) n = Some (os', k)" "Suc i \<le> k" "k \<le> n" "went os1 os' (k = n)"
        "live os' = live os1 \<union> WorkerThread ` {Suc i..<k}"
        using "1.IH" [of "(os1, b)" os1 b] True "1.prems" a b by (auto simp: platform_defs)
      have "start_workers os room i n = Some (os', k)" using True "1.prems"(2) a(1) b k(1) by (subst start_workers.simps) (simp add: platform_defs)
      moreover have "{i..<k} = insert i {Suc i..<k}" using k(2) by auto
      ultimately show ?thesis using k a(2,3) b went_trans [OF _ k(4)] by auto
    qed
  qed
qed

lemma join_all:
  "\<lbrakk>distinct is; \<forall>i \<in> set is. e i \<and> WorkerThread i \<in> live os\<rbrakk> \<Longrightarrow>
   join_workers os e is = Some (os\<lparr>live := live os - WorkerThread ` set is\<rparr>)"
proof (induction "is" arbitrary: os)
  case (Cons i "is")
  then have "join_workers (os\<lparr>live := live os - {WorkerThread i}\<rparr>) e is =
    Some (os\<lparr>live := live os - {WorkerThread i} - WorkerThread ` set is\<rparr>)" by (subst Cons.IH) auto
  moreover have d: "live os - WorkerThread ` set (i # is) = live os - {WorkerThread i} - WorkerThread ` set is" by auto
  ultimately show ?case unfolding d using Cons.prems by (simp add: release_simps)
qed simp

text \<open>The objects that live while there are threads, and the database they share.\<close>

abbreviation base_objects :: "resource set" where
  "base_objects \<equiv> {DbLock, MetricsMutex, StateMutex, QueueItems, QueueMutex, QueueCond}"

text \<open>The result of an exit: everything is released, and the code tells whether all calls succeeded.\<close>

definition exits :: "os \<Rightarrow> bool \<Rightarrow> run_result option \<Rightarrow> bool" where
  "exits os0 hangs r \<longleftrightarrow>
     (case r of None \<Rightarrow> False
      | Some Blocked \<Rightarrow> hangs
      | Some (Returned os m code) \<Rightarrow> live os = {} \<and> nodes m = Map.empty \<and> recs m = Map.empty \<and> blocks m = {} \<and> (\<exists>ok. went os0 os ok \<and> code = (if ok then 0 else 1)))"

lemma exits_blocked [simp]: "exits os0 b (Some Blocked) = b"
  by (simp add: exits_def)

lemma exits_returned [simp]:
  "exits os0 b (Some (Returned os m code)) \<longleftrightarrow> live os = {} \<and> nodes m = Map.empty \<and> recs m = Map.empty \<and> blocks m = {} \<and>
     (\<exists>ok. went os0 os ok \<and> code = (if ok then 0 else 1))"
  by (simp add: exits_def)

lemma cleanup_exits:
  assumes "srv_table server = Some t" "table_rep m t ps rs" "live os = base_objects" "went os0 os ok"
  shows "exits os0 b (http_server_cleanup os m server (if ok then 0 else 1))"
  using assms(3,4) db_teardown [OF assms(1,2)]
  by (auto simp: http_server_cleanup_def http_request_queue_destroy_def release_simps intro!: exI [of _ ok])

lemma join_exits:
  assumes "live os = base_objects \<union> WorkerThread ` set is \<union> {WorkersArray} \<union> (if has_socket then {ListenSocket} else {})"
    "went os0 os ok" "distinct is" "final = None \<Longrightarrow> b" "\<And>s. final = Some s \<Longrightarrow> stored s \<and> (\<forall>i \<in> set is. ended s i)"
  shows "exits os0 b (http_server_join_all os is has_socket final (if ok then 0 else 1))"
proof (cases final)
  case None
  then show ?thesis using assms(4) by (simp add: http_server_join_all_def)
next
  case (Some s)
  then obtain t ps rs where t: "srv_table (srv_of s) = Some t" "table_rep (mem_of s) t ps rs"
    using assms(5) by (auto simp: stored_def store_def)
  have j: "join_workers os (ended s) is = Some (os\<lparr>live := live os - WorkerThread ` set is\<rparr>)"
    using assms(1,3,5) Some by (intro join_all) auto
  let ?os = "os\<lparr>live := live os - WorkerThread ` set is - (if has_socket then {ListenSocket} else {}) - {WorkersArray}\<rparr>"
  have "http_server_join_all os is has_socket final (if ok then 0 else 1) =
    http_server_cleanup ?os (mem_of s) (srv_of s) (if ok then 0 else 1)"
    using Some j assms(1) by (cases has_socket) (auto simp: http_server_join_all_def release_def)
  moreover have "live ?os = base_objects" using assms(1) by (cases has_socket) auto
  ultimately show ?thesis using cleanup_exits [OF t, of ?os os0 ok b] assms(2) by simp
qed

subsection \<open>The threads\<close>

text \<open>A schedule that is made of steps of the system, and whose end is reached when the workers have left.\<close>

definition schedule_ok :: "schedule \<Rightarrow> bool" where
  "schedule_ok sched \<longleftrightarrow> (\<forall>n s. (system_step n)\<^sup>*\<^sup>* s (early sched n s)) \<and>
     (\<forall>n s s'. finish sched n s = Some s' \<longrightarrow> (system_step n)\<^sup>*\<^sup>* s s' \<and> joined n (pool s'))"

lemma inv_pool: "system_inv n s \<Longrightarrow> system_inv n (s\<lparr>pool := p\<rparr>)"
  by (rule inv_frame [where i = n and es = "[]"]) (simp_all add: system_inv_def once_def taken_def)

lemma start_inv:
  assumes "live_mem m0" "nodes m0 = Map.empty" "recs m0 = Map.empty \<and> blocks m0 = {}" "db_server_init_with_config m0 cfg True True = (m, Some server)"
  shows "system_inv n (system_start opts m server q)"
proof -
  have "stored (system_start opts m server q)"
    using init_store [OF assms] by (auto simp: stored_def system_start_def rows_at_def)
  then show ?thesis by (simp add: system_inv_def system_start_def thread_ok_def once_def taken_def)
qed

lemma final_ok:
  assumes "schedule_ok sched" "system_inv n s" "finish sched n ((early sched n s)\<lparr>pool := p\<rparr>) = Some s'"
  shows "stored s' \<and> (\<forall>i<n. ended s' i)"
proof -
  have "system_inv n (early sched n s)" using assms(1) by (intro system_inv_reach [OF _ assms(2)]) (simp add: schedule_ok_def)
  moreover have "(system_step n)\<^sup>*\<^sup>* ((early sched n s)\<lparr>pool := p\<rparr>) s'" "joined n (pool s')"
    using assms(1,3) by (auto simp: schedule_ok_def)
  ultimately have "system_inv n s'" using system_inv_reach inv_pool by blast
  then show ?thesis using \<open>joined n (pool s')\<close> by (simp add: system_inv_def joined_def ended_def)
qed

lemma threads_exit:
  assumes "live os = insert WorkersArray base_objects" "went os0 os True" "unat (opt_worker_count opts) < 2 ^ 61" "schedule_ok sched"
    "\<And>n. system_inv n (system_start opts m server q)" "\<And>n s. finish sched n s = None \<Longrightarrow> b"
  shows "exits os0 b (http_server_threads os opts m server q sched)"
proof -
  let ?n = "unat (opt_worker_count opts)" and ?s = "system_start opts m server q"
  have room: "?n \<le> unat (8 * opt_worker_count opts) div 8"
    using assms(3) by (simp add: unat_word_ariths)
  obtain os1 k where k: "start_workers os (unat (8 * opt_worker_count opts) div 8) 0 ?n = Some (os1, k)" "k \<le> ?n" "went os os1 (k = ?n)"
    "live os1 = live os \<union> WorkerThread ` {0..<k}" using start_all [OF _ room, of 0 os] assms(1) by auto
  have w: "went os0 os1 (k = ?n)" by (rule went_trans [OF assms(2) k(3)])
  have fin: "stored s' \<and> (\<forall>i<n. ended s' i)" if "finish sched n ((early sched n ?s)\<lparr>pool := p\<rparr>) = Some s'" for n p s'
    by (rule final_ok [OF assms(4,5) that])
  have fin0: "stored s' \<and> (\<forall>i<n. ended s' i)" if "finish sched n (early sched n ?s) = Some s'" for n s'
    using fin [of n "pool (early sched n ?s)"] that by simp
  show ?thesis
  proof (cases "k < ?n")
    case True
    then have "exits os0 b (http_server_join_all os1 (rev [0..<k]) False
        (finish sched k ((early sched k ?s)\<lparr>pool := pool_abort (pool (early sched k ?s))\<rparr>)) (if k = ?n then 0 else 1))"
      using k(4) assms(1,6) w fin by (intro join_exits) auto
    then show ?thesis using True k(1) by (simp add: http_server_threads_def Let_def)
  next
    case False
    then have kn: "k = ?n" using k(2) by simp
    have "ListenSocket \<notin> live os1" using k(4) assms(1) by auto
    then obtain os2 ok where o: "http_server_create_listen_socket os1 = Some (os2, ok)" "went os1 os2 ok"
      "live os2 = (if ok then insert ListenSocket (live os1) else live os1)" using socket_setup by blast
    have w2: "went os0 os2 ok" using went_trans [OF _ o(2)] w kn by simp
    define p where "p = (http_server_request_stop (pool (early sched ?n ?s)))\<lparr>listening := False,
      queue := http_request_queue_shutdown (queue (pool (early sched ?n ?s))), workers := wake_all (workers (pool (early sched ?n ?s)))\<rparr>"
    let ?f = "if ok then finish sched ?n (early sched ?n ?s) else finish sched ?n ((early sched ?n ?s)\<lparr>pool := p\<rparr>)"
    have "exits os0 b (http_server_join_all os2 [0..<?n] ok ?f (if ok then 0 else 1))"
      using o(3) k(4) kn assms(1,6) w2 fin fin0 by (intro join_exits) (auto split: if_splits)
    then show ?thesis using k(1) kn o(1) by (cases ok) (simp_all add: http_server_threads_def Let_def p_def)
  qed
qed

abbreviation db_config_of :: "HTTPServerOptions \<Rightarrow> DBServerConfig" where
  "db_config_of opts \<equiv> \<lparr>lock_timeout_ms = opt_lock_timeout_ms opts,
     simulate_read_delay_ms = opt_simulate_read_delay_ms opts, simulate_write_delay_ms = opt_simulate_write_delay_ms opts\<rparr>"

lemma serve_exits:
  assumes "live os = {DbLock, MetricsMutex}" "went os0 os True"
    "\<exists>t. srv_table server = Some t \<and> store m t [] [] \<and> rwlock_held (db_lock server) 0 0"
    "\<And>n q. system_inv n (system_start opts m server q)" "schedule_ok sched" "unat (opt_worker_count opts) < 2 ^ 61" "opt_queue_capacity opts \<noteq> 0"
    "\<And>n s. finish sched n s = None \<Longrightarrow> b"
  shows "exits os0 b (http_server_serve os m server opts sched)"
proof -
  obtain t where t: "srv_table server = Some t" "table_rep m t [] []" using assms(3) by (auto simp: store_def)
  obtain os1 ok where o1: "acquire os StateMutex = Some (os1, ok)" "live os1 = (if ok then insert StateMutex (live os) else live os)" "went os os1 ok"
    using acquire_went [of StateMutex os] assms(1) by auto
  have w1: "went os0 os1 ok" by (rule went_trans [OF assms(2) o1(3)])
  note down = db_teardown [OF t]
  show ?thesis
  proof (cases ok)
    case False
    then show ?thesis using o1 w1 assms(1) down by (auto simp: http_server_serve_def platform_defs)
  next
    case True
    then have "live os1 = {DbLock, MetricsMutex, StateMutex}" using o1(2) assms(1) by auto
    then obtain os2 q ok2 where o2: "http_request_queue_setup os1 (opt_queue_capacity opts) = Some (os2, q)" "went os1 os2 ok2"
      "case q of None \<Rightarrow> \<not> ok2 \<and> live os2 = live os1
       | Some q \<Rightarrow> ok2 \<and> live os2 = {QueueItems, QueueMutex, QueueCond} \<union> live os1 \<and>
           http_request_queue_init (opt_queue_capacity opts) True True True = Some q"
      using queue_setup [OF assms(7)] by blast
    have w2: "went os0 os2 ok2" using went_trans [OF _ o2(2)] w1 True by simp
    show ?thesis
    proof (cases q)
      case None
      then show ?thesis using o1 o2 w2 True assms(1) down
        by (auto simp: http_server_serve_def release_simps)
    next
      case (Some q)
      then have l: "live os2 = base_objects" "ok2" using o1(2) o2(3) True assms(1) by auto
      then obtain os3 ok3 where o3: "acquire os2 WorkersArray = Some (os3, ok3)"
        "live os3 = (if ok3 then insert WorkersArray (live os2) else live os2)" "went os2 os3 ok3"
        using acquire_went [of WorkersArray os2] by auto
      have w3: "went os0 os3 ok3" using went_trans [OF _ o3(3)] w2 l(2) by simp
      have r: "http_server_serve os m server opts sched =
        (if ok3 then http_server_threads os3 opts m server q sched else http_server_cleanup os3 m server 1)"
        using o1(1) o2(1) o3(1) True Some by (simp add: http_server_serve_def platform_defs)
      show ?thesis
      proof (cases ok3)
        case True
        then show ?thesis unfolding r using o3(2) l(1) w3 assms(4,5,6,8) by (simp add: threads_exit)
      next
        case False
        then show ?thesis unfolding r using o3(2) l(1) w3 cleanup_exits [OF t, of os3 os0 False] by simp
      qed
    qed
  qed
qed

lemma run_exits:
  assumes "live os = {}" "live_mem m" "nodes m = Map.empty" "recs m = Map.empty \<and> blocks m = {}" "schedule_ok sched"
    "opt_worker_count opts \<noteq> 0" "unat (opt_worker_count opts) < 2 ^ 61" "opt_queue_capacity opts \<noteq> 0"
  shows "exits os (\<exists>n s. finish sched n s = None) (http_server_run os m (Some opts) sched)"
proof -
  obtain os1 ok where o1: "http_server_install_signal_handlers os = (os1, ok)" by fastforce
  have l1: "live os1 = {}" "went os os1 ok" using signals_setup [OF o1] assms(1) by auto
  obtain os2 m2 created ok2 where o2: "db_server_setup os1 m (Some (db_config_of opts)) = Some (os2, m2, created)" "went os1 os2 ok2"
    "case created of None \<Rightarrow> \<not> ok2 \<and> live os2 = {} \<and> m2 = m
     | Some server \<Rightarrow> ok2 \<and> live os2 = {DbLock, MetricsMutex} \<and>
         db_server_init_with_config m (Some (db_config_of opts)) True True = (m2, Some server)"
    using db_setup [OF l1(1) assms(2-4), of "Some (db_config_of opts)"] by blast
  have start: "http_server_run os m (Some opts) sched = (if \<not> ok then Some (Returned os1 m 1) else
      case created of None \<Rightarrow> Some (Returned os2 m2 1) | Some server \<Rightarrow> http_server_serve os2 m2 server opts sched)"
    using assms(6,8) o1 o2(1) by (simp add: http_server_run_def)
  show ?thesis
  proof (cases "ok \<and> created \<noteq> None")
    case False
    then show ?thesis using start l1 o2(2,3) went_trans [of os os1 os2] assms(3,4) by (auto split: option.splits)
  next
    case True
    then obtain server where s: "created = Some server" by blast
    note d = o2(3) [unfolded s, simplified]
    have w2: "went os os2 True" using went_trans [OF _ o2(2)] l1(2) True d by simp
    have "exits os (\<exists>n s. finish sched n s = None) (http_server_serve os2 m2 server opts sched)"
      using assms(5,7,8) d w2 start_inv [OF assms(2-4)] by (intro serve_exits [OF _ _ init_store [OF assms(2-4)]]) auto
    then show ?thesis using start True s by simp
  qed
qed

lemma run_no_table:
  assumes "live os = {}" "snd (table_create m) = None" "nodes m = Map.empty" "recs m = Map.empty \<and> blocks m = {}"
  shows "\<exists>os' m'. http_server_run os m (Some opts) sched = Some (Returned os' m' 1) \<and> live os' = {} \<and>
    nodes m' = Map.empty \<and> recs m' = Map.empty \<and> blocks m' = {}"
proof -
  obtain os1 ok where o1: "http_server_install_signal_handlers os = (os1, ok)" by fastforce
  have l1: "live os1 = {}" using signals_setup [OF o1] assms(1) by auto
  obtain os2 m2 where "db_server_setup os1 m (Some (db_config_of opts)) = Some (os2, m2, None)" "live os2 = {}"
    "nodes m2 = Map.empty" "recs m2 = Map.empty" "blocks m2 = {}"
    using db_setup_no_table [OF l1 assms(2-4)] by blast
  then show ?thesis using o1 l1 assms by (simp add: http_server_run_def)
qed

lemma run_returns:
  assumes "live os = {}" "live_mem m \<or> snd (table_create m) = None" "nodes m = Map.empty" "recs m = Map.empty \<and> blocks m = {}"
    "schedule_ok sched" "unat (opt_worker_count opts) < 2 ^ 61"
  shows "case http_server_run os m (Some opts) sched of
      None \<Rightarrow> False
    | Some Blocked \<Rightarrow> \<exists>n s. finish sched n s = None
    | Some (Returned os' m' code) \<Rightarrow> live os' = {} \<and> nodes m' = Map.empty \<and> recs m' = Map.empty \<and> blocks m' = {} \<and>
        code = (if opt_worker_count opts \<noteq> 0 \<and> opt_queue_capacity opts \<noteq> 0 \<and> snd (table_create m) \<noteq> None \<and>
          (\<forall>k \<in> {os_calls os ..< os_calls os'}. os_ok os k) then 0 else 1)"
proof (cases "snd (table_create m) = None")
  case True
  then show ?thesis using run_no_table [OF assms(1) True assms(3,4), of opts sched] by auto
next
  case created: False
  then have mem: "live_mem m" using assms(2) by auto
  show ?thesis
  proof (cases "opt_worker_count opts \<noteq> 0 \<and> opt_queue_capacity opts \<noteq> 0")
    case True
    then show ?thesis using run_exits [OF assms(1) mem assms(3-5) _ assms(6)] created
      by (auto simp: exits_def went_def split: option.splits run_result.splits)
  next
    case False
    then show ?thesis using assms(1,3,4) by (auto simp: http_server_run_def)
  qed
qed

subsection \<open>The run that succeeds\<close>

lemma cleanup_code: "http_server_cleanup os m server code = Some (Returned os' m' code') \<Longrightarrow> code' = code"
  by (auto simp: http_server_cleanup_def split: Option.bind_splits)

lemma join_code: "http_server_join_all os is b final code = Some (Returned os' m' code') \<Longrightarrow> code' = code \<and> final \<noteq> None"
  by (auto simp: http_server_join_all_def dest: cleanup_code split: option.splits Option.bind_splits)

lemma threads_zero:
  assumes "http_server_threads os opts m server q sched = Some (Returned os' m' 0)"
  shows "finish sched (unat (opt_worker_count opts)) (early sched (unat (opt_worker_count opts)) (system_start opts m server q)) \<noteq> None"
proof -
  consider (Fail) a ws f where "http_server_join_all a ws False f 1 = Some (Returned os' m' 0)"
    | (Ok) a where "http_server_join_all a [0..<unat (opt_worker_count opts)] True
        (finish sched (unat (opt_worker_count opts)) (early sched (unat (opt_worker_count opts)) (system_start opts m server q))) 0 =
        Some (Returned os' m' 0)"
    using assms by (auto simp: http_server_threads_def Let_def split: Option.bind_splits if_splits)
  then show ?thesis by cases (auto dest!: join_code)
qed

lemma setup_created:
  "db_server_setup os m cfg = Some (os', m', Some server) \<Longrightarrow> db_server_init_with_config m cfg True True = (m', Some server)"
  by (auto simp: db_server_setup_def db_server_init_with_config_def [where lock_ok = False] db_server_init_with_config_def [where mutex_ok = False]
      split: Option.bind_splits prod.splits option.splits if_splits)

lemma queue_created:
  "http_request_queue_setup os slots = Some (os', Some q) \<Longrightarrow> http_request_queue_init slots True True True = Some q"
  by (auto simp: http_request_queue_setup_def http_request_queue_init_def split: Option.bind_splits if_splits)

lemma run_zero:
  assumes "http_server_run os m (Some opts) sched = Some (Returned os' m' 0)"
  obtains m1 server q s where "db_server_init_with_config m (Some (db_config_of opts)) True True = (m1, Some server)"
    "http_request_queue_init (opt_queue_capacity opts) True True True = Some q" "opt_worker_count opts \<noteq> 0" "opt_queue_capacity opts \<noteq> 0"
    "finish sched (unat (opt_worker_count opts)) (early sched (unat (opt_worker_count opts)) (system_start opts m1 server q)) = Some s"
proof -
  obtain os1 os2 m1 server where r: "db_server_setup os1 m (Some (db_config_of opts)) = Some (os2, m1, Some server)"
    "http_server_serve os2 m1 server opts sched = Some (Returned os' m' 0)" "opt_worker_count opts \<noteq> 0" "opt_queue_capacity opts \<noteq> 0"
    using assms by (auto simp: http_server_run_def split: prod.splits if_splits Option.bind_splits option.splits)
  obtain os3 os4 q os5 where q: "http_request_queue_setup os3 (opt_queue_capacity opts) = Some (os4, Some q)"
    "http_server_threads os5 opts m1 server q sched = Some (Returned os' m' 0)"
    using r(2) by (auto simp: http_server_serve_def dest!: cleanup_code split: if_splits Option.bind_splits option.splits)
  then show thesis using that threads_zero [OF q(2)] setup_created [OF r(1)] queue_created [OF q(1)] r(3,4) by blast
qed

lemma start_init:
  assumes "live_mem m" "nodes m = Map.empty" "recs m = Map.empty \<and> blocks m = {}"
    "db_server_init_with_config m (Some (db_config_of opts)) True True = (m1, Some server)"
    "http_request_queue_init (opt_queue_capacity opts) True True True = Some q"
    "opt_queue_capacity opts \<noteq> 0" "unat (opt_queue_capacity opts) < 2 ^ 62"
  shows "system_init opts m (system_start opts m1 server q)"
  using assms by (simp add: system_init_def system_start_def pool_init_def db_conc_init_def word_neq_0_conv)

section \<open>The array of threads\<close>

text \<open>
  The size of the array is computed modulo two to the sixty-four: with this number of workers it has room for one thread, and starting the
  second one writes behind it.
\<close>

lemma worker_array_wraps:
  assumes "opt_worker_count opts = 2305843009213693953" "WorkerThread 0 \<notin> live os" "os_ok os (os_calls os)"
  shows "http_server_threads os opts m server q sched = None"
proof -
  obtain os1 where "platform_thread_create os 0 = Some (os1, True)"
    using assms(2,3) by (simp add: platform_defs acquire_def os_try_def)
  then have "start_workers os 1 0 2305843009213693953 = None" by (simp add: start_workers.simps)
  then show ?thesis using assms(1) by (simp add: http_server_threads_def)
qed

lemma select_timeout_usec: "snd (http_server_select_timeout ms) < 1000000"
proof -
  have "unat (ucast (ms mod 1000) :: 64 word) = unat ms mod 1000" by (simp add: unsigned_ucast_eq unat_mod take_bit_nat_eq_self)
  then have "unat (ucast (ms mod 1000) * 1000 :: 64 word) < 1000000" by (simp add: unat_word_ariths)
  then show ?thesis by (simp add: http_server_select_timeout_def word_less_nat_alt)
qed

section \<open>A schedule\<close>

text \<open>One worker that has nothing to do; the accepting loop ends at once, and the worker leaves.\<close>

definition quit_pool :: "server_pool \<Rightarrow> server_pool" where
  "quit_pool p = p\<lparr>listening := False, queue := http_request_queue_shutdown (queue p), workers := (wake_all (workers p))(0 := Exited)\<rparr>"

definition quit_schedule :: schedule where
  "quit_schedule = \<lparr>early = (\<lambda>_ s. s),
     finish = (\<lambda>n s. if n = 1 \<and> listening (pool s) \<and> workers (pool s) 0 = Popping \<and> q_count (queue (pool s)) = 0
                    then Some (s\<lparr>pool := quit_pool (pool s)\<rparr>) else None)\<rparr>"

definition os_up :: os where
  "os_up = \<lparr>os_ok = (\<lambda>_. True), os_calls = 0, live = {}\<rparr>"

lemma quit_steps:
  assumes "listening (pool s)" "workers (pool s) 0 = Popping" "q_count (queue (pool s)) = 0"
  shows "(system_step 1)\<^sup>*\<^sup>* s (s\<lparr>pool := quit_pool (pool s)\<rparr>)"
proof -
  let ?p = "(pool s)\<lparr>listening := False, queue := http_request_queue_shutdown (queue (pool s)), workers := wake_all (workers (pool s))\<rparr>"
  let ?q = "http_request_queue_shutdown (queue (pool s))"
  have "system_step 1 s (s\<lparr>pool := ?p\<rparr>)" by (rule system_step.threads) (auto intro: pool_step.shutdown assms(1))
  moreover have "worker_step 1 ?p (?p\<lparr>queue := ?q, workers := (workers ?p)(0 := Exited)\<rparr>)"
    using assms by (intro worker_step.leave) (simp_all add: http_request_queue_waits_def http_request_queue_pop_def http_request_queue_shutdown_def wake_all_def)
  then have "system_step 1 (s\<lparr>pool := ?p\<rparr>) ((s\<lparr>pool := ?p\<rparr>)\<lparr>pool := quit_pool (pool s)\<rparr>)"
    by (intro system_step.threads pool_step.worker) (simp_all add: quit_pool_def)
  ultimately show ?thesis by (simp add: converse_rtranclp_into_rtranclp r_into_rtranclp)
qed

lemma quit_schedule_ok: "schedule_ok quit_schedule"
  using quit_steps by (auto simp: schedule_ok_def quit_schedule_def joined_def quit_pool_def split: if_splits)

definition one_worker :: HTTPServerOptions where
  "one_worker = http_server_options_default\<lparr>opt_worker_count := 1\<rparr>"

lemma quit_returns: "case http_server_run os_up db0 (Some one_worker) quit_schedule of Some (Returned os m code) \<Rightarrow> code = 0 | _ \<Rightarrow> False"
  by code_simp

section \<open>Properties\<close>

text \<open>
  C5. The HTTP server gives everything back at each of its exits: for fewer than 2^61 workers and a program that has nothing allocated when it is
  called, with memory available or with none for the table, whichever of the calls of the operating system fail, and whatever
  steps of the system the threads take until they are joined, \<^verbatim>\<open>http_server_run\<close> never initialises an object twice and never destroys or frees one that does not
  exist; when it returns, no mutex, condition variable, lock, thread, socket, queue or array of threads is left, and of the database no record, no node of the
  index, and none of the blocks of its header, its table and its array of rows. It returns 0 exactly when the options are valid, the table was created and all the
  calls succeeded. It fails to return only if the workers do not end.
\<close>

theorem http_server_run_releases:
  assumes "live os = {}" "live_mem m \<or> snd (table_create m) = None" "nodes m = Map.empty" "recs m = Map.empty \<and> blocks m = {}"
    "schedule_ok sched" "unat (opt_worker_count opts) < 2 ^ 61"
  shows "case http_server_run os m (Some opts) sched of
      None \<Rightarrow> False
    | Some Blocked \<Rightarrow> \<exists>n s. finish sched n s = None
    | Some (Returned os' m' code) \<Rightarrow> live os' = {} \<and> nodes m' = Map.empty \<and> recs m' = Map.empty \<and> blocks m' = {} \<and>
        code = (if opt_worker_count opts \<noteq> 0 \<and> opt_queue_capacity opts \<noteq> 0 \<and> snd (table_create m) \<noteq> None \<and>
          (\<forall>k \<in> {os_calls os ..< os_calls os'}. os_ok os k) then 0 else 1)"
  by (rule run_returns [OF assms])

theorem http_server_run_releases_witness:
  "\<exists>os m. http_server_run os_up db0 (Some one_worker) quit_schedule = Some (Returned os m 0) \<and>
     live os = {} \<and> nodes m = Map.empty \<and> recs m = Map.empty \<and> blocks m = {}"
  using http_server_run_releases [OF _ disjI1 [OF db0_live(1)] db0_live(2,3) quit_schedule_ok, of os_up one_worker] quit_returns
  by (auto simp: os_up_def one_worker_def split: option.splits run_result.splits)

end
