(* ===== verification/Programs.thy ===== *)
theory Programs
  imports ServerMain ServerRun
begin

text \<open>
  The executables as a whole: \<^verbatim>\<open>main\<close> of \<^verbatim>\<open>src/server/server.c\<close>, which runs the HTTP server, the statements of the
  arguments or those of standard input, and the shell of \<^verbatim>\<open>src/cli/main.c\<close>. What they print is proved to be a function of the
  statements and of the rows inserted before, and every object and all memory are released at the end.
\<close>

section \<open>The server executable\<close>

datatype program_result =
    ArgumentsExit os db_mem int string
  | HttpExit run_result
  | SqlExit os db_mem int string

text \<open>The modes that run statements: the database server is set up, the statements run, and it is destroyed.\<close>

definition server_main_sql ::
  "os \<Rightarrow> db_mem \<Rightarrow> DBServerConfig \<Rightarrow> (db_mem \<Rightarrow> DBServer \<Rightarrow> (db_mem \<times> DBServer \<times> string) option) \<Rightarrow> program_result option" where
  "server_main_sql os m cfg run = do {
     (os, m, created) \<leftarrow> db_server_setup os m (Some cfg);
     (case created of
        None \<Rightarrow> Some (SqlExit os m 1 [])
      | Some server \<Rightarrow> do {
          (m, server, out) \<leftarrow> run m server;
          (os, m) \<leftarrow> db_server_teardown os m server;
          Some (SqlExit os m 0 out)
        })
   }"

definition server_main :: "os \<Rightarrow> db_mem \<Rightarrow> schedule \<Rightarrow> (nat \<Rightarrow> 64 word) \<Rightarrow> string \<Rightarrow> string list \<Rightarrow> string \<Rightarrow> program_result option" where
  "server_main os m sched clock program_name argv input =
     (case server_main_mode argv of
        ExitWith code usage \<Rightarrow> Some (ArgumentsExit os m code (if usage then server_print_usage program_name else []))
      | ServeHttp opts \<Rightarrow> map_option HttpExit (http_server_run os m (Some opts) sched)
      | RunStdin cfg \<Rightarrow> server_main_sql os m cfg (\<lambda>m server. server_run_stdin m server clock input)
      | RunQueries cfg qs \<Rightarrow> server_main_sql os m cfg (\<lambda>m server. server_run_queries m server clock qs))"

section \<open>What is printed\<close>

definition row_line :: "Record \<Rightarrow> string" where
  "row_line x = ''ROW id='' @ show_int (rec_id x) @ '' name='' @ cstr (rec_name x) @ '' age='' @ show_int (rec_age x) @ nl"

text \<open>The text for a statement on the rows \<open>rs\<close>, and whether the program goes on.\<close>

definition spec_print :: "Record list \<Rightarrow> string \<Rightarrow> string \<times> bool" where
  "spec_print rs q =
     (case statement_of (cstr q) of
        InsertStatement name age \<Rightarrow> (''OK INSERT id='' @ show_int (int (length rs) + 1) @ '' used_index=false'' @ nl, True)
      | SelectStatement sel \<Rightarrow>
          (let xs = filter (query_matches sel) rs
           in (''OK SELECT rows='' @ show_nat (length xs) @ '' used_index='' @ bool_text (db_server_guess_uses_index (Some q)) @ nl @
               concat (map row_line xs), True))
      | ExitStatement \<Rightarrow> (''BYE'' @ nl, False)
      | BadStatement \<Rightarrow>
          (let r = bad_result (cstr q)
           in (''ERROR type='' @ (if status r = SQL_STATUS_SYNTAX_ERROR then ''syntax'' else ''query'') @ '' message='' @ error_message r @ nl, True)))"

fun spec_output :: "Record list \<Rightarrow> string list \<Rightarrow> string" where
  "spec_output rs [] = []"
| "spec_output rs (q # qs) = (case spec_print rs q of (out, goes_on) \<Rightarrow> out @ (if goes_on then spec_output (spec_rows rs q) qs else []))"

text \<open>The lines that \<^verbatim>\<open>fgets\<close> reads.\<close>

function input_lines :: "nat \<Rightarrow> string \<Rightarrow> string list" where
  "input_lines n input = (if input = [] then [] else case fgets_line (Suc n) input of (line, rest) \<Rightarrow> line # input_lines n rest)"
  by pat_completeness auto
termination
  by (relation "measure (\<lambda>(n, input). length input)") (auto dest!: fgets_line_append [OF sym])

declare input_lines.simps [simp del]

lemma input_lines_length: "length (input_lines n input) \<le> length input"
proof (induction n input rule: input_lines.induct)
  case (1 n input)
  show ?case
  proof (cases "input = []")
    case False
    obtain line rest where f: "fgets_line (Suc n) input = (line, rest)" by fastforce
    then have "length rest < length input" using fgets_line_append [OF f] False by auto
    moreover have "length (input_lines n rest) \<le> length rest" using "1.IH" [OF False f [symmetric]] by simp
    ultimately show ?thesis using f False by (subst input_lines.simps) simp
  qed (simp add: input_lines.simps)
qed

text \<open>Reading standard input is running its lines.\<close>

lemma stdin_queries: "server_stdin_from m server clock input = server_run_queries m server clock (input_lines 510 input)"
proof (induction "length input" arbitrary: m server input rule: less_induct)
  case less
  show ?case
  proof (cases "input = []")
    case True
    then show ?thesis by (subst server_stdin_from.simps, subst input_lines.simps) simp
  next
    case False
    obtain line rest where f: "fgets_line 511 input = (line, rest)" by fastforce
    then have "length rest < length input" using fgets_line_append [OF f] False by auto
    note IH = less [OF this]
    have l: "input_lines 510 input = line # input_lines 510 rest" using f False by (subst input_lines.simps) simp
    show ?thesis unfolding l using f False
      by (subst server_stdin_from.simps) (auto simp: IH split: Option.bind_splits option.splits)
  qed
qed

lemma print_rows:
  assumes "result_rows m r rs" "\<forall>x \<in> set rs. row_ok x"
  shows "i \<le> length rs \<Longrightarrow> server_print_rows m r i = Some (concat (map row_line (take i rs)))"
proof (induction i)
  case (Suc i)
  then have "row_ok (rs ! i)" using assms(2) by simp
  then show ?case using Suc result_record_nth(1) [OF assms(1), of i] row_name
    by (simp add: take_Suc_conv_app_nth row_line_def)
qed simp

lemma show_nat_0: "show_nat 0 = ''0''"
  by code_simp

lemma answers_printed:
  assumes "answers m (ex_result ex) rs q" "rows_ok rs" "server_status ex = DB_SERVER_EXEC_STATUS_OK"
    "used_index ex = db_server_guess_uses_index (Some q)"
  shows "server_print_execution m ex = Some (spec_print rs q)"
proof (cases "statement_of (cstr q)")
  case (SelectStatement sel)
  let ?xs = "filter (query_matches sel) rs"
  have a: "result_rows m (ex_result ex) ?xs" "action (ex_result ex) = SQL_ACTION_SELECT_ROWS"
    "status (ex_result ex) = (if sel \<noteq> SelectAll \<and> ?xs = [] then SQL_STATUS_NOT_FOUND else SQL_STATUS_OK)"
    using assms(1) SelectStatement by (simp_all add: answers_def)
  have "server_print_rows m (ex_result ex) (length ?xs) = Some (concat (map row_line ?xs))"
    using print_rows [OF a(1), of "length ?xs"] assms(2) by (auto simp: rows_ok_def printable_row_def)
  moreover have "row_count (ex_result ex) = length ?xs" using a(1) by (auto simp: result_rows_def)
  ultimately show ?thesis using a(2,3) assms(3,4) SelectStatement
    by (auto simp: server_print_execution_def spec_print_def show_nat_0 Let_def)
qed (use assms in \<open>auto simp: answers_def server_print_execution_def spec_print_def error_result_def Let_def\<close>)

lemma run_query_prints:
  assumes "srv_table server = Some t" "store m t ps rs" "int (length rs) + 1 < INT_MAX" "rwlock_held (db_lock server) 0 0"
  shows "\<exists>m' server' t' ps'. server_run_query m server clock q = Some (m', server', spec_print rs q) \<and>
    srv_table server' = Some t' \<and> store m' t' ps' (spec_rows rs q) \<and> rwlock_held (db_lock server') 0 0"
proof -
  obtain m1 t' r ps' where x: "sql_execute m (Some t) (Some q) = Some (m1, Some t', r)" "store m1 t' ps' (spec_rows rs q)"
    "sql_outcome m t ps rs (statement_of (cstr q)) m1 t' r" "statement_of (cstr q) = BadStatement \<longrightarrow> r = bad_result (cstr q)"
    using store_execute [OF assms(2,3)] by blast
  let ?ex = "(db_server_begin q)\<lparr>ex_result := r, server_status := DB_SERVER_EXEC_STATUS_OK, message := snprintf 128 ''OK''\<rparr>"
  obtain server' where s: "db_server_execute m server (Some q) clock = Some (m1, server', Some ?ex)" "srv_table server' = Some t'"
    "rwlock_held (db_lock server') 0 0"
    using execute_free [OF assms(1,4) x(1), of clock] by blast
  have "server_print_execution m1 ?ex = Some (spec_print rs q)"
    using outcome_answers [OF assms(2) x(3,4)] assms(2) by (intro answers_printed) (simp_all add: store_def db_server_begin_def)
  then have "server_run_query m server clock q = Some (m1, server', spec_print rs q)"
    using s(1) by (cases "spec_print rs q") (simp add: server_run_query_def)
  then show ?thesis using s(2,3) x(2) by blast
qed

lemma run_queries_print:
  assumes "srv_table server = Some t" "store m t ps rs" "rwlock_held (db_lock server) 0 0" "int (length rs) + int (length qs) < INT_MAX"
  shows "\<exists>m' server' t' ps' rs'. server_run_queries m server clock qs = Some (m', server', spec_output rs qs) \<and>
    srv_table server' = Some t' \<and> store m' t' ps' rs'"
  using assms
proof (induction qs arbitrary: m server t ps rs)
  case Nil
  then show ?case by auto
next
  case (Cons q qs)
  obtain m1 server1 t1 ps1 where h: "server_run_query m server clock q = Some (m1, server1, spec_print rs q)"
    "srv_table server1 = Some t1" "store m1 t1 ps1 (spec_rows rs q)" "rwlock_held (db_lock server1) 0 0"
    using run_query_prints [OF Cons.prems(1,2) _ Cons.prems(3)] Cons.prems(4) by fastforce
  have "int (length (spec_rows rs q)) + int (length qs) < INT_MAX" using Cons.prems(4) spec_rows_length [of rs q] by simp
  from Cons.IH [OF h(2,3,4) this] show ?case using h(1-3) by (cases "spec_print rs q") fastforce
qed

section \<open>The shell\<close>

definition spec_shell_text :: "Record list \<Rightarrow> string \<Rightarrow> string" where
  "spec_shell_text rs q =
     (case statement_of (cstr q) of
        InsertStatement name age \<Rightarrow> ''Inserted row with id = '' @ show_int (int (length rs) + 1) @ nl
      | SelectStatement sel \<Rightarrow>
          (let xs = filter (query_matches sel) rs
           in if xs \<noteq> [] then concat (map row_text xs) else if sel = SelectAll then ''No rows'' @ nl else ''Not found'' @ nl)
      | ExitStatement \<Rightarrow> []
      | BadStatement \<Rightarrow> error_message (bad_result (cstr q)) @ nl)"

fun spec_shell :: "Record list \<Rightarrow> string list \<Rightarrow> string" where
  "spec_shell rs [] = ''sql> ''"
| "spec_shell rs (q # qs) =
     (if statement_of (cstr q) = ExitStatement then ''sql> '' else ''sql> '' @ spec_shell_text rs q @ spec_shell (spec_rows rs q) qs)"

lemma print_result_rows:
  assumes "result_rows m r rs" "\<forall>x \<in> set rs. row_ok x" "NULL \<notin> dom (recs m)"
  shows "i \<le> length rs \<Longrightarrow> table_print_from m (res_records r) (length rs) i = Some (concat (map row_text (drop i rs)))"
proof (induction "length rs - i" arbitrary: i)
  case 0
  then show ?case by (subst table_print_from.simps) simp
next
  case (Suc d)
  then have i: "i < length rs" by simp
  obtain p where p: "tmp_get (res_records r) i = Some p" "recs m p = Some (rs ! i)"
    using result_record_nth(1) [OF assms(1) i] by (auto simp: result_record_def split: Option.bind_splits)
  have "table_print_record m p = Some (row_text (rs ! i))" using assms(2,3) i p(2) by (intro print_row) auto
  then show ?case using p(1) i Suc.hyps(1) [of "Suc i"] Suc.hyps(2)
    by (subst table_print_from.simps) (simp add: Cons_nth_drop_Suc [OF i, symmetric])
qed

lemma shell_printed:
  assumes "answers m r rs q" "rows_ok rs" "NULL \<notin> dom (recs m)" "status r \<noteq> SQL_STATUS_EXIT"
  shows "cli_print_result m r = Some (spec_shell_text rs q)"
proof (cases "statement_of (cstr q)")
  case (SelectStatement sel)
  let ?xs = "filter (query_matches sel) rs"
  have a: "result_rows m r ?xs" "action r = SQL_ACTION_SELECT_ROWS"
    "status r = (if sel \<noteq> SelectAll \<and> ?xs = [] then SQL_STATUS_NOT_FOUND else SQL_STATUS_OK)"
    using assms(1) SelectStatement by (simp_all add: answers_def)
  have rc: "row_count r = length ?xs" using a(1) by (auto simp: result_rows_def)
  have p: "table_print_from m (res_records r) (length ?xs) 0 = Some (concat (map row_text ?xs))"
    using print_result_rows [OF a(1) _ assms(3), of 0] assms(2) by (auto simp: rows_ok_def printable_row_def)
  have "res_records r = [] \<Longrightarrow> ?xs = []" using a(1) by (auto simp: result_rows_def)
  then show ?thesis using a(2,3) SelectStatement rc p
    by (auto simp: cli_print_result_def spec_shell_text_def table_print_records_def Let_def)
qed (use assms in \<open>auto simp: answers_def cli_print_result_def spec_shell_text_def error_result_def\<close>)

lemma outcome_status:
  "answers m r rs q \<Longrightarrow> status r = SQL_STATUS_EXIT \<longleftrightarrow> statement_of (cstr q) = ExitStatement"
  by (auto simp: answers_def error_result_def split: sql_statement.splits if_splits)

lemma store_null: "store m t ps rs \<Longrightarrow> NULL \<notin> dom (recs m)"
  by (auto simp: store_def table_rep_def)

lemma cli_loop_prints:
  assumes "store m t ps rs" "int (length rs) + int (length input) < INT_MAX"
  shows "\<exists>m' t' ps' rs'. cli_loop m (Some t) input = Some (m', Some t', spec_shell rs (input_lines 254 input)) \<and> store m' t' ps' rs'"
  using assms
proof (induction "length input" arbitrary: m t ps rs input rule: less_induct)
  case less
  show ?case
  proof (cases "input = []")
    case True
    then show ?thesis using less.prems(1) by (subst cli_loop.simps) (auto simp: input_lines.simps)
  next
    case False
    obtain line rest where f: "fgets_line 255 input = (line, rest)" by fastforce
    then have len: "length rest < length input" using fgets_line_append [OF f] False by auto
    have l: "input_lines 254 input = line # input_lines 254 rest" using f False by (subst input_lines.simps) simp
    have "int (length rs) + 1 < INT_MAX" using less.prems(2) False by (cases input) auto
    then obtain m1 t1 r ps1 where x: "sql_execute m (Some t) (Some line) = Some (m1, Some t1, r)" "store m1 t1 ps1 (spec_rows rs line)"
      "sql_outcome m t ps rs (statement_of (cstr line)) m1 t1 r" "statement_of (cstr line) = BadStatement \<longrightarrow> r = bad_result (cstr line)"
      using store_execute [OF less.prems(1)] by blast
    have an: "answers m1 r rs line" by (rule outcome_answers [OF less.prems(1) x(3,4)])
    have "int (length (spec_rows rs line)) + int (length rest) < INT_MAX" using less.prems(2) len spec_rows_length [of rs line] by linarith
    from less.hyps [OF len x(2) this] obtain m2 t2 ps2 rs2 where
      c: "cli_loop m1 (Some t1) rest = Some (m2, Some t2, spec_shell (spec_rows rs line) (input_lines 254 rest))" "store m2 t2 ps2 rs2" by blast
    have "rows_ok rs" using less.prems(1) by (simp add: store_def)
    then show ?thesis unfolding l using False f x(1,2) c outcome_status [OF an] shell_printed [OF an _ store_null [OF x(2)]]
      by (cases "status r = SQL_STATUS_EXIT") (subst cli_loop.simps, fastforce)+
  qed
qed

section \<open>The whole programs\<close>

lemma query_args_length: "length (server_query_args argv) \<le> length argv"
  by (induction argv rule: server_query_args.induct) auto

lemma sql_result: "server_main_sql os m cfg run = Some r \<Longrightarrow> \<exists>os m code out. r = SqlExit os m code out"
  by (auto simp: server_main_sql_def split: Option.bind_splits option.splits)

text \<open>A mode that runs statements, given that it keeps the table and prints \<open>text\<close>.\<close>

lemma main_sql_prints:
  assumes "live os = {}" "live_mem m \<or> snd (table_create m) = None" "nodes m = Map.empty" "recs m = Map.empty \<and> blocks m = {}"
    "\<And>m server t. srv_table server = Some t \<Longrightarrow> store m t [] [] \<Longrightarrow> rwlock_held (db_lock server) 0 0 \<Longrightarrow>
       \<exists>m' server' t' ps' rs'. run m server = Some (m', server', text_out) \<and> srv_table server' = Some t' \<and> store m' t' ps' rs'"
  shows "\<exists>os' m' code out. server_main_sql os m cfg run = Some (SqlExit os' m' code out) \<and> live os' = {} \<and>
    nodes m' = Map.empty \<and> recs m' = Map.empty \<and> blocks m' = {} \<and>
    (if snd (table_create m) \<noteq> None \<and> (\<forall>k \<in> {os_calls os ..< os_calls os'}. os_ok os k) then code = 0 \<and> out = text_out else code = 1 \<and> out = [])"
proof (cases "snd (table_create m) = None")
  case True
  then show ?thesis using db_setup_no_table [OF assms(1) True assms(3,4), of "Some cfg"] by (auto simp: server_main_sql_def)
next
  case can_create: False
  then have mem: "live_mem m" using assms(2) by auto
  obtain os1 m1 created ok where o: "db_server_setup os m (Some cfg) = Some (os1, m1, created)" "went os os1 ok"
    "case created of None \<Rightarrow> \<not> ok \<and> live os1 = {} \<and> m1 = m
     | Some server \<Rightarrow> ok \<and> live os1 = {DbLock, MetricsMutex} \<and> db_server_init_with_config m (Some cfg) True True = (m1, Some server)"
    using db_setup [OF assms(1) mem assms(3,4), of "Some cfg"] by blast
  show ?thesis
  proof (cases created)
    case None
    then show ?thesis using o assms(3,4) by (auto simp: server_main_sql_def went_def)
  next
    case (Some server)
    then obtain t where t: "srv_table server = Some t" "store m1 t [] []" "rwlock_held (db_lock server) 0 0"
      using init_store [OF mem assms(3,4)] o(3) by fastforce
    obtain m2 server2 t2 ps2 rs2 where r: "run m1 server = Some (m2, server2, text_out)" "srv_table server2 = Some t2" "store m2 t2 ps2 rs2"
      using assms(5) [OF t] by blast
    then have "table_rep m2 t2 ps2 rs2" by (simp add: store_def)
    from db_teardown [OF r(2) this, of os1]
    have "server_main_sql os m cfg run = Some (SqlExit (os1\<lparr>live := {}\<rparr>) (m2\<lparr>recs := Map.empty, nodes := Map.empty, blocks := {}\<rparr>) 0 text_out)"
      using o(1,3) Some r(1) by (simp add: server_main_sql_def insert_Diff_if)
    moreover have "\<forall>k \<in> {os_calls os ..< os_calls os1}. os_ok os k" using o(2,3) Some by (simp add: went_def)
    ultimately show ?thesis using can_create by simp
  qed
qed

definition stdin_banner :: string where
  "stdin_banner = ''SQL server harness ready.'' @ nl @ ''Type EXIT or QUIT to stop.'' @ nl"

text \<open>What the server executable prints when it runs statements.\<close>

definition spec_main_output :: "server_mode \<Rightarrow> string \<Rightarrow> string" where
  "spec_main_output mode input =
     (case mode of
        RunStdin cfg \<Rightarrow> stdin_banner @ spec_output [] (input_lines 510 input)
      | RunQueries cfg qs \<Rightarrow> spec_output [] qs
      | _ \<Rightarrow> [])"

lemma stdin_prints:
  assumes "srv_table server = Some t" "store m t [] []" "rwlock_held (db_lock server) 0 0" "int (length input) < INT_MAX"
  shows "\<exists>m' server' t' ps' rs'. server_run_stdin m server clock input = Some (m', server', stdin_banner @ spec_output [] (input_lines 510 input)) \<and>
    srv_table server' = Some t' \<and> store m' t' ps' rs'"
proof -
  have "int (length ([] :: Record list)) + int (length (input_lines 510 input)) < INT_MAX"
    using assms(4) input_lines_length [of 510 input] by simp
  from run_queries_print [OF assms(1-3) this, of clock]
  obtain m' server' t' ps' rs' where "server_run_queries m server clock (input_lines 510 input) =
      Some (m', server', spec_output [] (input_lines 510 input))" "srv_table server' = Some t'" "store m' t' ps' rs'" by blast
  moreover from this(1) have "server_run_stdin m server clock input = Some (m', server', stdin_banner @ spec_output [] (input_lines 510 input))"
    by (simp add: server_run_stdin_def stdin_queries stdin_banner_def)
  ultimately show ?thesis by blast
qed

section \<open>Properties\<close>

text \<open>
  C4. The server executable, for every command line with fewer than 2147483647 arguments that asks for fewer than 2^61 workers, and every standard
  input shorter than 2147483647 characters, started with nothing allocated, with memory available or with none for the table, and with a schedule made of steps of the system: its run is defined; in
  the query mode and the standard-input mode it prints for each statement the text that the rows inserted before determine, stops at EXIT,
  and returns 0, or 1 with nothing printed when the operating system refuses an object or the table cannot be created; a bad command
  line leaves everything alone; in the server mode it returns 0 or 1, or not at all if the workers do not end; and in every mode all objects of the
  operating system, the records, the index and the blocks of the table are released when it returns.
\<close>

theorem server_main_correct:
  assumes "live os = {}" "live_mem m \<or> snd (table_create m) = None" "nodes m = Map.empty" "recs m = Map.empty \<and> blocks m = {}" "schedule_ok sched"
    "int (length argv) < INT_MAX" "int (length input) < INT_MAX"
    "\<And>opts. server_main_mode argv = ServeHttp opts \<Longrightarrow> unat (opt_worker_count opts) < 2 ^ 61"
  shows "case server_main os m sched clock program_name argv input of
      None \<Rightarrow> False
    | Some (ArgumentsExit os' m' code out) \<Rightarrow> os' = os \<and> m' = m \<and>
        (\<exists>usage. server_main_mode argv = ExitWith code usage \<and> out = (if usage then server_print_usage program_name else []))
    | Some (HttpExit Blocked) \<Rightarrow> \<exists>n s. finish sched n s = None
    | Some (HttpExit (Returned os' m' code)) \<Rightarrow> live os' = {} \<and> nodes m' = Map.empty \<and> recs m' = Map.empty \<and> blocks m' = {} \<and> code \<in> {0, 1}
    | Some (SqlExit os' m' code out) \<Rightarrow> live os' = {} \<and> nodes m' = Map.empty \<and> recs m' = Map.empty \<and> blocks m' = {} \<and>
        (if snd (table_create m) \<noteq> None \<and> (\<forall>k \<in> {os_calls os ..< os_calls os'}. os_ok os k)
         then code = 0 \<and> out = spec_main_output (server_main_mode argv) input
         else code = 1 \<and> out = [])"
proof (cases "server_main_mode argv")
  case (ExitWith code usage)
  then show ?thesis by (simp add: server_main_def)
next
  case (ServeHttp opts)
  then show ?thesis using run_returns [OF assms(1-5), of opts] assms(8)
    by (auto simp: server_main_def split: option.splits run_result.splits)
next
  case (RunStdin cfg)
  have "\<exists>os' m' code out. server_main_sql os m cfg (\<lambda>m server. server_run_stdin m server clock input) = Some (SqlExit os' m' code out) \<and>
    live os' = {} \<and> nodes m' = Map.empty \<and> recs m' = Map.empty \<and> blocks m' = {} \<and>
    (if snd (table_create m) \<noteq> None \<and> (\<forall>k \<in> {os_calls os ..< os_calls os'}. os_ok os k)
     then code = 0 \<and> out = stdin_banner @ spec_output [] (input_lines 510 input) else code = 1 \<and> out = [])"
    by (rule main_sql_prints [OF assms(1-4)]) (rule stdin_prints [OF _ _ _ assms(7)])
  then show ?thesis using RunStdin by (auto simp: server_main_def spec_main_output_def)
next
  case (RunQueries cfg qs)
  then have "qs = server_query_args argv" by (auto simp: server_main_mode_def split: sum.splits if_splits)
  then have l: "int (length ([] :: Record list)) + int (length qs) < INT_MAX" using query_args_length [of argv] assms(6) by simp
  have "\<exists>os' m' code out. server_main_sql os m cfg (\<lambda>m server. server_run_queries m server clock qs) = Some (SqlExit os' m' code out) \<and>
    live os' = {} \<and> nodes m' = Map.empty \<and> recs m' = Map.empty \<and> blocks m' = {} \<and>
    (if snd (table_create m) \<noteq> None \<and> (\<forall>k \<in> {os_calls os ..< os_calls os'}. os_ok os k)
     then code = 0 \<and> out = spec_output [] qs else code = 1 \<and> out = [])"
    by (rule main_sql_prints [OF assms(1-4)]) (rule run_queries_print [OF _ _ _ l])
  then show ?thesis using RunQueries by (auto simp: server_main_def spec_main_output_def)
qed

definition demo_args :: "string list" where
  "demo_args = [''--query'', insert_query, ''--query'', ''exit'']"

lemma demo_mode: "server_main_mode demo_args = RunQueries db_server_config_default [insert_query, ''exit'']"
  by code_simp

lemma demo_output: "spec_output [] [insert_query, ''exit''] = ''OK INSERT id=1 used_index=false'' @ nl @ ''BYE'' @ nl"
  by code_simp

theorem server_main_correct_witness:
  "\<exists>os m. server_main os_up db0 quit_schedule (\<lambda>_. 0) ''server'' demo_args [] =
     Some (SqlExit os m 0 (''OK INSERT id=1 used_index=false'' @ nl @ ''BYE'' @ nl)) \<and> live os = {} \<and> recs m = Map.empty \<and> blocks m = {}"
proof -
  have h: "live os_up = {}" "int (length demo_args) < INT_MAX" "int (length ([] :: string)) < INT_MAX"
    "\<And>opts. server_main_mode demo_args = ServeHttp opts \<Longrightarrow> unat (opt_worker_count opts) < 2 ^ 61"
    by (simp add: os_up_def, simp add: demo_args_def, simp, simp add: demo_mode)
  have "snd (table_create db0) \<noteq> None" using table_create_rep [OF db0_live] by auto
  note c = this server_main_correct [OF h(1) disjI1 [OF db0_live(1)] db0_live(2,3) quit_schedule_ok h(2-4), where clock = "\<lambda>_. 0" and program_name = "''server''"]
  then obtain r where r: "server_main os_up db0 quit_schedule (\<lambda>_. 0) ''server'' demo_args [] = Some r"
    by (cases "server_main os_up db0 quit_schedule (\<lambda>_. 0) ''server'' demo_args []") auto
  then have "\<exists>run. server_main_sql os_up db0 db_server_config_default run = Some r" by (auto simp: server_main_def demo_mode)
  then obtain os m code out where "r = SqlExit os m code out" using sql_result by blast
  moreover have "spec_main_output (server_main_mode demo_args) [] = ''OK INSERT id=1 used_index=false'' @ nl @ ''BYE'' @ nl"
    unfolding demo_mode spec_main_output_def server_mode.case by (rule demo_output)
  ultimately show ?thesis using c r by (simp add: os_up_def)
qed

text \<open>
  C40. The shell prints what the abstract table says: started with nothing allocated and memory available, for any standard input shorter than 2147483647
  characters it prints the banner, a prompt for each line, and for each statement the text that the rows inserted before determine, up to EXIT or the end of
  the input, and returns 0; without memory for the table it prints nothing and returns 1. Either way the records, the index and the
  blocks of the table are released.
\<close>

theorem cli_main_prints:
  assumes "live_mem m \<or> snd (table_create m) = None" "nodes m = Map.empty" "recs m = Map.empty \<and> blocks m = {}" "int (length input) < INT_MAX"
  shows "\<exists>m'. cli_main m input = Some (if snd (table_create m) = None then (m', 1, [])
      else (m', 0, cli_banner @ spec_shell [] (input_lines 254 input))) \<and> nodes m' = Map.empty \<and> recs m' = Map.empty \<and> blocks m' = {}"
proof (cases "snd (table_create m) = None")
  case True
  then obtain m1 where c: "table_create m = (m1, None)" by (cases "table_create m") simp
  then show ?thesis using table_create_fails [OF c] assms(2,3) by (simp add: cli_main_def)
next
  case False
  then have mem: "live_mem m" using assms(1) by auto
  obtain m1 t where c: "table_create m = (m1, Some t)" "table_rep m1 t [] []" "live_mem m1" "next_id t = 1"
    using table_create_rep [OF mem assms(2,3)] by blast
  then have "store m1 t [] []" by (simp add: store_def rows_ok_def)
  then obtain m2 t2 ps2 rs2 where l: "cli_loop m1 (Some t) input = Some (m2, Some t2, spec_shell [] (input_lines 254 input))" "store m2 t2 ps2 rs2"
    using cli_loop_prints [of m1 t "[]" "[]" input] assms(4) by auto
  then show ?thesis using c(1) table_destroy_rep [of m2 t2 ps2 rs2] by (simp add: cli_main_def store_def)
qed

definition demo_input :: string where
  "demo_input = insert_query @ nl @ ''exit'' @ nl"

lemma demo_shell: "spec_shell [] (input_lines 254 demo_input) = ''sql> Inserted row with id = 1'' @ nl @ ''sql> ''"
  by code_simp

theorem cli_main_prints_witness:
  "\<exists>m'. cli_main db0 demo_input = Some (m', 0, cli_banner @ ''sql> Inserted row with id = 1'' @ nl @ ''sql> '') \<and> recs m' = Map.empty \<and> blocks m' = {}"
proof -
  have "int (length demo_input) < INT_MAX" by code_simp
  from cli_main_prints [OF disjI1 [OF db0_live(1)] db0_live(2,3) this] table_create_rep [OF db0_live] show ?thesis unfolding demo_shell by auto
qed

end
