(* ===== verification/Spec2Isabelle.thy ===== *)
theory Spec2Isabelle
  imports DbServer_Fair QueueLocks Programs
begin

text \<open>
  Verification of an in-memory SQL engine with a B+ tree index, a database server and an HTTP front end, written in C.

  \<^bold>\<open>The program.\<close> The B+ tree of \<^verbatim>\<open>src/core/bptree.c\<close> maps the identifiers of rows to records; the table of
  \<^verbatim>\<open>src/core/table.c\<close> keeps the rows in an array and in the tree; \<^verbatim>\<open>src/core/sql.c\<close> parses and executes INSERT, SELECT and EXIT.
  \<^verbatim>\<open>src/server/db_server.c\<close> shares one table between threads, with a readers-writer lock, a time-out and metrics;
  \<^verbatim>\<open>src/server/platform.c\<close> wraps the operating system; \<^verbatim>\<open>src/server/http_server.c\<close> accepts connections, queues them for worker
  threads, reads requests and dispatches them; \<^verbatim>\<open>src/server/api.c\<close> parses the requests and builds the JSON responses.
  \<^verbatim>\<open>src/server/server.c\<close> and \<^verbatim>\<open>src/cli/main.c\<close> are the two programs.

  \<^bold>\<open>The theories.\<close>
  \<^item> \<open>CPrelude\<close> and \<open>CString\<close>: undefined behaviour as \<open>None\<close>, arrays, the allocator that may fail, C strings and the library
    functions on them. \<open>Tally\<close>: totals over threads.
  \<^item> \<open>BPTree\<close> translates \<^verbatim>\<open>bptree.c\<close> on an explicit heap of nodes; \<open>BPTree_Abs\<close> has the abstract trees and their representation in the heap;
    \<open>BPTree_Refine\<close> proves that insertion refines insertion into the abstract tree; \<open>BPTree_Index\<close> states the contract \<open>ordered_index\<close> and the
    tree as its instance, and has the properties of the tree.
  \<^item> \<open>Table\<close> translates \<^verbatim>\<open>table.c\<close>; \<open>Table_Refine\<close> relates the table to the list of its rows and proves that insertion appends, that the
    index agrees with a scan, that every condition selects the rows it describes, and what happens without memory. The header of the tree,
    the structure of the table and its array of rows are blocks with an address, so that destroying the table is shown to free each of them once.
  \<^item> \<open>Sql\<close> translates \<^verbatim>\<open>sql.c\<close>; \<open>Sql_Parse\<close> proves the parsers sound and complete for the grammar; \<open>Sql_Refine\<close> proves that executing a
    text has the outcome of its statement on the rows.
  \<^item> \<open>Platform\<close> has the readers-writer lock, its contract \<open>rw_lock\<close> and the instance; \<open>DbServer\<close> translates \<^verbatim>\<open>db_server.c\<close>; \<open>DbServer_Props\<close>
    proves the classification of queries, the flag for the index, the end of the wait for the lock, and execution
    by one thread; \<open>DbServer_Conc\<close> lets any number of threads take their queries through
    \<^verbatim>\<open>db_server_execute\<close> as a step relation and proves the invariant, the exclusion of writers, the stability of results and
    the absence of deadlock.
  \<^item> \<open>RequestQueue\<close> translates the ring buffer of \<^verbatim>\<open>http_server.c\<close>, with the contracts \<open>bounded_fifo\<close> and \<open>closing_fifo\<close> and
    their instances; \<open>WorkerPool\<close> is the step
    relation of the accepting loop, the workers, the condition variable and the shutdown; \<open>QueueLocks\<close> takes the operations of the queue apart into
    the calls on the mutex and the condition variable and proves that they are atomic.
  \<^item> \<open>Api\<close> translates \<^verbatim>\<open>api.c\<close>; \<open>Api_Props\<close> proves that escaping is undone by parsing, that requests are parsed inside their buffer and
    that responses are complete. \<open>HttpServer\<close> translates reading, dispatch and sending of \<^verbatim>\<open>http_server.c\<close>;
    \<open>HttpServer_Props\<close> proves that a query arrives whatever the pieces of the network are, and that two length headers lead out of the array.
  \<^item> \<open>Session\<close> has the abstract server, a list of rows with the answers it gives, and proves that the statements keep the rows well typed and that
    the clients of a session, one after the other, get the abstract answers. \<open>ServerSystem\<close> puts the pool, the database and the handlers of
    all workers into one step relation and proves that it is linearizable and that its steps are those of the sequential handler. Its history of
    replies has the request each reply belongs to and the text handed to the socket, and the text is proved to be the one that is due.
    \<open>DbServer_Fair\<close> shows that readers can overtake a waiting writer without end, and has the simulated delay.
  \<^item> \<open>OsResources\<close> has the objects of the operating system that \<^verbatim>\<open>platform.c\<close> and \<^verbatim>\<open>http_server.c\<close> create and destroy; \<open>ServerRun\<close>
    translates \<^verbatim>\<open>http_server_run\<close> with every exit, the failed creation of the table among them, and proves that all of them release
    everything. \<open>ServerMain\<close> has the argument parser, the
    printing and the loops of the two programs, and \<open>Programs\<close> their \<^verbatim>\<open>main\<close> functions with what they print.
  \<^item> This theory composes them: the life of the server from its start to its return, and the outcome of a single request on any
    table.

  \<^bold>\<open>Correspondence.\<close> Definitions have the names of the C functions and types, and records have their fields. A function that can
  fail or reach undefined behaviour returns an option; a return value of 0 or a null pointer is a value. Pointers to nodes and records are
  addresses in the heap, so that aliasing and release are part of the model; arrays of pointers and buffers are
  lists with their declared length, with indeterminate cells where the code does not initialise them. Counters, sizes
  and times of the server are words of their width. Loops are recursive functions with a measure, or partial functions where a loop may not
  end (the wait for the lock); there is no fuel. The threads are step relations whose steps are the parts of the code that a lock or a
  mutex makes atomic; the proofs that a writer is alone and that readers change nothing justify the statement as one step. An action whose
  behaviour is undefined has no step, so the theorems about the system are about the runs in which no request reaches one; that handling a request is
  defined is proved apart, and \<open>HttpServer_Props\<close> has the requests for which it is not.
  The behaviour of POSIX that is used: the readers-writer lock refuses as documented, \<^verbatim>\<open>recv\<close> delivers the bytes of the stream
  in order in pieces of any size, a condition variable wakes a sleeper on a signal and may wake it without one.
  A schedule stands for the scheduler: it gives the state of the system when the main thread goes on and when the joins return, and theorems
  about it assume that it is made of steps of the system. The calls of the operating system that can fail do so at the will of an oracle.

  \<^bold>\<open>Not modelled.\<close> The two mutexes that only protect counters, of the metrics and of the responses, are not taken apart: what they protect is
  one step. The contents of the socket address, the options of sockets, and what \<^verbatim>\<open>http_server_run\<close> prints; messages on standard error. The text of a
  reply is the one handed to \<^verbatim>\<open>http_server_socket_send_all\<close>: that sending fails, which the handler ignores, and what happens to the process
  on SIGPIPE are not part of a handled connection. The arrays of results and the buffers of the JSON texts are allocated, and their
  allocation may fail, but their blocks are not tracked. The benchmark programs under \<^verbatim>\<open>benchmarks\<close> and the tests. The theorems about executing a statement assume
  that memory is available; the failure paths are definitions of the model, and single theorems show what they do.
\<close>

section \<open>One request\<close>

lemma outcome_answer_shape:
  assumes "sql_outcome m0 t ps rs st m t' r" "\<forall>x \<in> set rs. printable_row x" "length rs < 10 ^ 10" "int_range i"
  obtains code body where "statement_answer i rs u st r = answer code body" "int_range code" "length body < 10 ^ 20"
proof (cases st)
  case (InsertStatement name age)
  then show ?thesis using that [of 200 "insert_text i"] insert_text_length [of i] assms(4)
    by (simp add: statement_answer_def int_range_def)
next
  case (SelectStatement q)
  have "length (filter (query_matches q) rs) < 10 ^ 10" using assms(3) by (rule le_less_trans [OF length_filter_le])
  then have "length (select_text u (filter (query_matches q) rs)) < 10 ^ 20" using assms(2) by (intro select_text_length) auto
  then show ?thesis using that [of 200 "select_text u (filter (query_matches q) rs)"] SelectStatement
    by (simp add: statement_answer_def int_range_def)
next
  case ExitStatement
  let ?e = "escape ''EXIT and QUIT are only supported in CLI mode''"
  have "length (error_text ''query_error'' ?e) \<le> 1000" using escape_length [of "''EXIT and QUIT are only supported in CLI mode''"] unfolding error_text_length by simp
  then show ?thesis using that [of 400 "error_text ''query_error'' ?e"] ExitStatement unfolding statement_answer_def int_range_def by simp
next
  case BadStatement
  let ?ty = "if status r = SQL_STATUS_SYNTAX_ERROR then ''syntax_error'' else ''query_error''"
  have "length (error_message r) < 256" using assms(1) BadStatement by (simp add: sql_outcome_def error_result_def)
  then have "length (cstr (error_message r)) < 256"
    using length_takeWhile_le [of "\<lambda>c. c \<noteq> NUL" "error_message r"] by (simp add: cstr_def)
  then have "length (error_text ?ty (escape (cstr (error_message r)))) \<le> 2000"
    using escape_length [of "cstr (error_message r)"] unfolding error_text_length by auto
  then show ?thesis using that [of 400 "error_text ?ty (escape (cstr (error_message r)))"] BadStatement
    by (simp add: statement_answer_def int_range_def)
qed

lemma outcome_answered:
  assumes "srv_table server = Some t" "table_rep m t ps rs" "live_mem m" "next_id t < INT_MAX" "rwlock_held (db_lock server) 0 0"
    "\<forall>x \<in> set rs. printable_row x"
  shows "\<exists>m1 m' server' t' r. http_server_handle_query m server context clock q =
      Some (m', server', http_server_note_response_complete context,
        let a = statement_answer (next_id t) rs (db_server_guess_uses_index (Some q)) (statement_of (cstr q)) r
        in Some (response_text (status_code a) json_content_type (the (resp_body a)))) \<and>
    srv_table server' = Some t' \<and> rwlock_held (db_lock server') 0 0 \<and>
    sql_outcome m t ps rs (statement_of (cstr q)) m1 t' r \<and> quiet m1 m' \<and> live_mem m'"
proof -
  obtain m1 t' r where x: "sql_execute m (Some t) (Some q) = Some (m1, Some t', r)" "live_mem m1"
    "sql_outcome m t ps rs (statement_of (cstr q)) m1 t' r"
    using execute_outcome [OF assms(2,3)] assms(4) by blast
  let ?ex = "(db_server_begin q)\<lparr>ex_result := r, server_status := DB_SERVER_EXEC_STATUS_OK, message := snprintf 128 ''OK''\<rparr>"
  obtain server' where s: "db_server_execute m server (Some q) clock = Some (m1, server', Some ?ex)" "srv_table server' = Some t'"
    "rwlock_held (db_lock server') 0 0"
    using execute_free [OF assms(1,5) x(1), of clock] by blast
  let ?a = "statement_answer (next_id t) rs (db_server_guess_uses_index (Some q)) (statement_of (cstr q)) r"
  have ui: "used_index ?ex = db_server_guess_uses_index (Some q)" "ex_result ?ex = r" "server_status ?ex = DB_SERVER_EXEC_STATUS_OK"
    by (simp_all add: db_server_begin_def)
  have len: "length rs < 10 ^ 10" "length rs < 10 ^ 20" "int_range (next_id t)" using rep_length [OF assms(2)] by (auto simp: int_range_def)
  obtain m2 where m2: "api_build_execution_response m1 ?ex zero_response = Some (m2, ?a, True)" "quiet m1 m2" "live_mem m2"
    using execution_response [of m t ps rs "statement_of (cstr q)" m1 t' ?ex] x(2,3) assms(6) len ui by auto
  obtain code body where a: "?a = answer code body" "int_range code" "length body < 10 ^ 20"
    using outcome_answer_shape [OF x(3) assms(6) len(1,3)] by blast
  obtain m3 where m3: "api_render_http_response m2 (answer code body) = (m3, Some (response_text code json_content_type body))"
    "quiet m2 m3" "live_mem m3"
    using render_response [OF m2(3), of "answer code body" body] a by (auto simp: answer_def)
  have "http_server_handle_query m server context clock q =
      Some (m3, server', http_server_note_response_complete context, Some (response_text code json_content_type body))"
    using s(1) m2(1) m3(1) unfolding a(1)
    by (simp add: http_server_handle_query_def http_server_send_and_count_def http_server_send_response_def)
  moreover have "status_code ?a = code" "the (resp_body ?a) = body" unfolding a(1) by (simp_all add: answer_def)
  ultimately show ?thesis using s(2,3) x(3) quiet_trans [OF m2(2) m3(2)] m3(3) by (auto simp: Let_def)
qed

text \<open>
  A query sent over the network is answered with what it means: for a well-formed table with printable rows,
  a free lock and memory available, the request of a client with any query, in any pieces, has the outcome of the statement on the rows, the
  server keeps the resulting table with its lock free, the connection is counted once, and the text sent back is the HTTP response with the
  new identifier, the selected rows with the right flag for the index, or the error.
\<close>

theorem http_server_end_to_end:
  assumes "\<forall>l \<in> set (hs @ ks). other_header l" "json_plain q" "length q < 1024" "length (query_request hs ks q) < 8192"
    "concat pieces = query_request hs ks q" "\<forall>c \<in> set pieces. c \<noteq> []"
    "srv_table server = Some t" "table_rep m t ps rs" "live_mem m" "next_id t < INT_MAX" "rwlock_held (db_lock server) 0 0"
    "\<forall>x \<in> set rs. printable_row x"
  shows "\<exists>m1 m' server' t' r a. http_server_handle_client m server context clock (map Data pieces) =
      Some (m', server', http_server_note_response_complete context,
        Some (response_text (status_code a) json_content_type (the (resp_body a)))) \<and>
    a = statement_answer (next_id t) rs (db_server_guess_uses_index (Some q)) (statement_of (cstr q)) r \<and>
    sql_outcome m t ps rs (statement_of (cstr q)) m1 t' r \<and>
    srv_table server' = Some t' \<and> rwlock_held (db_lock server') 0 0 \<and> recs m' = recs m1 \<and> nodes m' = nodes m1"
proof -
  obtain m1 m' server' t' r where x: "http_server_handle_query m server context clock q =
      Some (m', server', http_server_note_response_complete context,
        let a = statement_answer (next_id t) rs (db_server_guess_uses_index (Some q)) (statement_of (cstr q)) r
        in Some (response_text (status_code a) json_content_type (the (resp_body a))))"
    "srv_table server' = Some t'" "rwlock_held (db_lock server') 0 0" "sql_outcome m t ps rs (statement_of (cstr q)) m1 t' r" "quiet m1 m'"
    using outcome_answered [OF assms(7-12)] by blast
  have "http_server_handle_client m server context clock (map Data pieces) = http_server_handle_query m server context clock q"
    using handle_query_request [OF assms(1-6), of m server "context" clock "[]"] by simp
  then show ?thesis using x quiet_recs [OF x(5)] quiet_simps(1) [OF x(5)] unfolding Let_def by metis
qed

theorem http_server_end_to_end_witness:
  "\<exists>m' server' ctx out. http_server_handle_client db1_mem (server1 platform_rwlock_init)
     \<lparr>options = http_server_options_default, completed_responses = 0, http_server_stop_requested = False\<rparr> (\<lambda>_. 0)
     [Data (query_request [''Host: localhost''] [] ''select * from users where id = 1'')] =
     Some (m', server', ctx, Some (response_text 200 json_content_type out)) \<and> out = select_text True [new_record 1 ''kim'' 20]"
proof -
  let ?q = "''select * from users where id = 1''"
  let ?r = "query_request [''Host: localhost''] [] ?q"
  let ?c = "\<lparr>options = http_server_options_default, completed_responses = 0, http_server_stop_requested = False\<rparr> :: HTTPServerContext"
  have h: "\<forall>l \<in> set ([''Host: localhost''] @ []). other_header l" "json_plain ?q" "length ?q < 1024" "length ?r < 8192" by code_simp+
  have p: "concat [?r] = ?r" "\<forall>c \<in> set [?r]. c \<noteq> []" by (simp_all add: query_request_def request_lines_def)
  have st: "statement_of (cstr ?q) = SelectStatement (SelectById TABLE_COMPARISON_EQ 1)" "db_server_guess_uses_index (Some ?q)" by code_simp+
  have "srv_table (server1 platform_rwlock_init) = Some db1_table" "rwlock_held (db_lock (server1 platform_rwlock_init)) 0 0"
    by (simp_all add: server1_def)
  moreover have "next_id db1_table < INT_MAX" by (simp add: db1_table_def)
  moreover have "\<forall>x \<in> set [new_record 1 ''kim'' 20]. printable_row x" by (simp add: printable_row_def int_range_def) (simp add: new_record_def)
  moreover have "filter (query_matches (SelectById TABLE_COMPARISON_EQ 1)) [new_record 1 ''kim'' 20] = [new_record 1 ''kim'' 20]"
    by (simp add: table_compare_int_def new_record_def)
  ultimately show ?thesis
    using http_server_end_to_end [OF h p _ db1_rep, of "server1 platform_rwlock_init" ?c "\<lambda>_. 0"] st
    by (auto simp: statement_answer_def answer_def)
qed

section \<open>Properties\<close>



end
